(* ===== verification/Prelude.thy ===== *)
theory Prelude
  imports Main "HOL-Library.Word"
begin

text \<open>
  Shared vocabulary of the wgpu_memory development: bytes, the half-open address
  ranges \<open>Range<usize>\<close> that the allocator of \<open>src/simple.rs\<close> keeps, the panics
  of the Rust code as values, and the generic facts on lists, slices and ranges the
  component theories share. Sizes and offsets are \<open>usize\<close> in the source; they are
  \<open>nat\<close> here, and every subtraction the source performs is guarded where it could
  underflow (see the component theories).
\<close>

named_theorems range_simps "facts on address ranges used by the component proofs"

section \<open>Bytes and ranges\<close>

type_synonym byte = "8 word"

text \<open>\<open>Range<usize>\<close> with its two public fields \<open>start\<close> and \<open>end\<close>.\<close>

record address_range =
  r_start :: nat
  r_end :: nat

abbreviation mk_range :: "nat \<Rightarrow> nat \<Rightarrow> address_range" where
  "mk_range a b \<equiv> \<lparr>r_start = a, r_end = b\<rparr>"

text \<open>\<open>Range::len\<close>: an empty range (start at or past end) has length 0, which is
  what truncated subtraction on \<open>nat\<close> gives.\<close>

definition range_len :: "address_range \<Rightarrow> nat" where
  "range_len r = r_end r - r_start r"

text \<open>The bytes a range covers.\<close>

definition range_set :: "address_range \<Rightarrow> nat set" where
  "range_set r = {r_start r ..< r_end r}"

definition ranges_set :: "address_range list \<Rightarrow> nat set" where
  "ranges_set rs = (\<Union>r \<in> set rs. range_set r)"

text \<open>A well-formed range (\<open>start \<le> end\<close>), two ranges that do not overlap, and a
  range that lies below another.\<close>

definition range_wf :: "address_range \<Rightarrow> bool" where
  "range_wf r \<longleftrightarrow> r_start r \<le> r_end r"

definition range_disj :: "address_range \<Rightarrow> address_range \<Rightarrow> bool" where
  "range_disj a b \<longleftrightarrow> r_end a \<le> r_start b \<or> r_end b \<le> r_start a"

definition range_before :: "address_range \<Rightarrow> address_range \<Rightarrow> bool" where
  "range_before a b \<longleftrightarrow> r_end a \<le> r_start b"

text \<open>The bytes of a range of a byte vector: \<open>&data[r.start..r.end]\<close> once the
  bounds are checked.\<close>

definition sub_slice :: "byte list \<Rightarrow> address_range \<Rightarrow> byte list" where
  "sub_slice xs r = take (range_len r) (drop (r_start r) xs)"

definition sum_len :: "address_range list \<Rightarrow> nat" where
  "sum_len rs = sum_list (map range_len rs)"

section \<open>Panics\<close>

text \<open>The ways the Rust code of the allocator stops: an index into a \<open>SlotMap\<close> with a
  key that is not live, a slice or drain range out of the vector's bounds, a division
  by \<open>size_of::<T>() = 0\<close>, an arithmetic underflow or overflow of \<open>usize\<close> (a
  debug-build panic), and
  \<open>bytemuck::cast_slice_mut\<close> refusing a byte slice whose length is not a multiple of
  the element size.\<close>

datatype panic = InvalidKey | OutOfBounds | DivByZero | Underflow | Overflow | CastError

type_synonym 'a res = "panic + 'a"

section \<open>Facts on ranges\<close>

lemma range_len_mk [simp, range_simps]: "range_len (mk_range a b) = b - a"
  by (simp add: range_len_def)

lemma range_set_mk [simp, range_simps]: "range_set (mk_range a b) = {a..<b}"
  by (simp add: range_set_def)

lemma range_wf_mk [simp, range_simps]: "range_wf (mk_range a b) \<longleftrightarrow> a \<le> b"
  by (simp add: range_wf_def)

lemma range_upd_simps [simp, range_simps]:
  "r\<lparr>r_start := a\<rparr> = mk_range a (r_end r)"
  "r\<lparr>r_end := b\<rparr> = mk_range (r_start r) b"
  by (cases r; simp)+

lemma ranges_set_simps [simp, range_simps]:
  "ranges_set [] = {}"
  "ranges_set (r # rs) = range_set r \<union> ranges_set rs"
  "ranges_set (rs @ qs) = ranges_set rs \<union> ranges_set qs"
  by (auto simp: ranges_set_def)

lemma sum_len_simps [simp, range_simps]:
  "sum_len [] = 0"
  "sum_len (r # rs) = range_len r + sum_len rs"
  "sum_len (rs @ qs) = sum_len rs + sum_len qs"
  by (simp_all add: sum_len_def)

lemma range_disj_sym: "range_disj a b \<longleftrightarrow> range_disj b a"
  by (auto simp: range_disj_def)

lemma range_disj_set:
  "range_wf a \<Longrightarrow> range_wf b \<Longrightarrow> range_len a > 0 \<Longrightarrow> range_len b > 0 \<Longrightarrow>
   range_disj a b \<longleftrightarrow> range_set a \<inter> range_set b = {}"
  by (auto simp: range_disj_def range_set_def range_wf_def range_len_def)

lemma range_disj_imp_set: "range_disj a b \<Longrightarrow> range_set a \<inter> range_set b = {}"
  by (auto simp: range_disj_def range_set_def)

lemma length_sub_slice [simp]:
  "r_end r \<le> length xs \<Longrightarrow> length (sub_slice xs r) = range_len r"
  by (simp add: sub_slice_def range_len_def)

text \<open>Bytes below a position, or from a position on, are all that a slice reads.\<close>

lemma sub_slice_take [simp]:
  "r_end r \<le> n \<Longrightarrow> sub_slice (take n xs) r = sub_slice xs r"
  by (simp add: sub_slice_def range_len_def drop_take min_absorb1 diff_le_mono)

lemma sub_slice_append_left [simp]:
  "r_end r \<le> length xs \<Longrightarrow> sub_slice (xs @ ys) r = sub_slice xs r"
  by (simp add: sub_slice_def range_len_def)

lemma sub_slice_drop_shift:
  "n \<le> r_start r \<Longrightarrow> sub_slice (drop n xs) (mk_range (r_start r - n) (r_end r - n)) = sub_slice xs r"
  by (simp add: sub_slice_def range_len_def)

lemma sub_slice_append_right:
  "length xs \<le> r_start r \<Longrightarrow>
   sub_slice (xs @ ys) r = sub_slice ys (mk_range (r_start r - length xs) (r_end r - length xs))"
  by (simp add: sub_slice_def range_len_def)

text \<open>Removing the bytes \<open>[g.start, g.end)\<close> (\<open>Vec::drain\<close>) leaves a slice below the gap
  where it was and moves a slice above the gap down by the gap's length.\<close>

lemma sub_slice_drain_below:
  assumes "r_end r \<le> r_start g" "r_start g \<le> length xs"
  shows "sub_slice (take (r_start g) xs @ drop (r_end g) xs) r = sub_slice xs r"
proof -
  have "sub_slice (take (r_start g) xs @ drop (r_end g) xs) r = sub_slice (take (r_start g) xs) r"
    using assms by (simp add: sub_slice_append_left)
  then show ?thesis using assms(1) by simp
qed

lemma sub_slice_drain_above:
  assumes "r_end g \<le> r_start r" "range_wf g" "r_end g \<le> length xs"
  shows "sub_slice (take (r_start g) xs @ drop (r_end g) xs)
           (mk_range (r_start r - range_len g) (r_end r - range_len g)) = sub_slice xs r"
  using assms
  by (simp add: sub_slice_def range_len_def range_wf_def drop_append)

lemma sub_slice_update_outside:
  assumes "i < r_start r \<or> r_end r \<le> i"
  shows "sub_slice (xs[i := b]) r = sub_slice xs r"
proof (cases "r_start r \<le> i")
  case True
  with assms have "r_end r - r_start r \<le> i - r_start r" by auto
  with True show ?thesis
    by (simp add: sub_slice_def range_len_def drop_update_swap)
next
  case False
  with assms show ?thesis by (simp add: sub_slice_def range_len_def)
qed

lemma range_disj_mono: "range_disj a b \<Longrightarrow> r_start a \<le> r_start c \<Longrightarrow> r_end c \<le> r_end a \<Longrightarrow> range_disj c b"
  by (auto simp: range_disj_def)

lemma sum_len_rev [simp]: "sum_len (rev xs) = sum_len xs"
  by (induction xs) simp_all

lemma sum_len_map_len:
  "\<forall>r \<in> set xs. range_len (f r) = range_len r \<Longrightarrow> sum_len (map f xs) = sum_len xs"
  by (induction xs) auto

lemma sum_len_update:
  "i < length xs \<Longrightarrow> sum_len (xs[i := x]) + range_len (xs ! i) = sum_len xs + range_len x"
  by (induction xs arbitrary: i) (auto split: nat.splits)

lemma sub_slice_prefix:
  "take n ys = xs \<Longrightarrow> r_end r \<le> length xs \<Longrightarrow> sub_slice ys r = sub_slice xs r"
  by (metis sub_slice_take length_take min.bounded_iff)


section \<open>Facts on results\<close>

lemma not_isl_Inr: "\<not> isl x \<Longrightarrow> x = Inr (projr x)"
  by (cases x) simp_all

end
