(* ===== verification/SlotMap.thy ===== *)
theory SlotMap
  imports Prelude "HOL-Library.Multiset"
begin

text \<open>
  The handle registry of the allocator, \<open>SlotMap<DefaultKey, Range<usize>>\<close> of the
  \<open>slotmap\<close> crate. The crate is not part of the repository, so the registry is
  modelled from the spec's description (a generation-tagged index table): a vector of
  slots, each with a version and an optional value, and a stack of vacant slot
  indices. A key is a slot index and the version the slot had when the value was
  stored; a lookup succeeds only when the slot still holds that version, and every
  removal and every re-use of a slot bumps its version. Iteration (\<open>iter\<close>,
  \<open>values\<close>, \<open>values_mut\<close>) visits the occupied slots in index order.
\<close>

section \<open>Keys, slots and operations\<close>

datatype key = Key (k_idx: nat) (k_version: nat)

record 'v slot_map =
  sm_slots :: "(nat \<times> 'v option) list"
  sm_free :: "nat list"

definition sm_new :: "'v slot_map" where
  "sm_new = \<lparr>sm_slots = [], sm_free = []\<rparr>"

text \<open>\<open>SlotMap::get\<close>: the value of a live key.\<close>

definition sm_get :: "'v slot_map \<Rightarrow> key \<Rightarrow> 'v option" where
  "sm_get m k =
     (if k_idx k < length (sm_slots m) \<and> fst (sm_slots m ! k_idx k) = k_version k
      then snd (sm_slots m ! k_idx k) else None)"

text \<open>\<open>SlotMap::insert\<close>: re-use the most recently vacated slot with its version
  bumped, or push a new slot with version 1.\<close>

definition sm_insert :: "'v \<Rightarrow> 'v slot_map \<Rightarrow> key \<times> 'v slot_map" where
  "sm_insert x m =
     (case sm_free m of
        [] \<Rightarrow> (Key (length (sm_slots m)) 1,
               m\<lparr>sm_slots := sm_slots m @ [(1, Some x)]\<rparr>)
      | i # fs \<Rightarrow>
          (let ver = Suc (fst (sm_slots m ! i))
           in (Key i ver, m\<lparr>sm_slots := (sm_slots m)[i := (ver, Some x)], sm_free := fs\<rparr>)))"

text \<open>\<open>SlotMap::remove\<close>: the value of a live key, its slot vacated with the version
  bumped; a key that is not live changes nothing.\<close>

definition sm_remove :: "key \<Rightarrow> 'v slot_map \<Rightarrow> 'v option \<times> 'v slot_map" where
  "sm_remove k m =
     (case sm_get m k of
        None \<Rightarrow> (None, m)
      | Some x \<Rightarrow> (Some x,
          m\<lparr>sm_slots := (sm_slots m)[k_idx k := (Suc (k_version k), None)],
            sm_free := k_idx k # sm_free m\<rparr>))"

text \<open>\<open>map[key] = v\<close> (\<open>IndexMut\<close>): panics on a key that is not live.\<close>

definition sm_set :: "key \<Rightarrow> 'v \<Rightarrow> 'v slot_map \<Rightarrow> 'v slot_map res" where
  "sm_set k x m =
     (case sm_get m k of
        None \<Rightarrow> Inl InvalidKey
      | Some _ \<Rightarrow> Inr (m\<lparr>sm_slots := (sm_slots m)[k_idx k := (k_version k, Some x)]\<rparr>))"

text \<open>\<open>for v in map.values_mut() { *v = f(*v) }\<close>.\<close>

definition sm_map_values :: "('v \<Rightarrow> 'v) \<Rightarrow> 'v slot_map \<Rightarrow> 'v slot_map" where
  "sm_map_values f m = m\<lparr>sm_slots := map (\<lambda>(ver, xo). (ver, map_option f xo)) (sm_slots m)\<rparr>"

text \<open>\<open>map.iter()\<close> and \<open>map.values()\<close>: the occupied slots in index order.\<close>

fun slots_iter :: "nat \<Rightarrow> (nat \<times> 'v option) list \<Rightarrow> (key \<times> 'v) list" where
  "slots_iter i [] = []"
| "slots_iter i ((ver, None) # ss) = slots_iter (Suc i) ss"
| "slots_iter i ((ver, Some x) # ss) = (Key i ver, x) # slots_iter (Suc i) ss"

definition sm_iter :: "'v slot_map \<Rightarrow> (key \<times> 'v) list" where
  "sm_iter m = slots_iter 0 (sm_slots m)"

definition sm_values :: "'v slot_map \<Rightarrow> 'v list" where
  "sm_values m = map snd (sm_iter m)"

text \<open>The value an optional slot content contributes to the multiset of values.\<close>

definition opt_mset :: "'a option \<Rightarrow> 'a multiset" where
  "opt_mset xo = (case xo of None \<Rightarrow> {#} | Some x \<Rightarrow> {#x#})"

section \<open>Well-formedness\<close>

text \<open>The vacant-slot stack names distinct vacant slots.\<close>

definition sm_wf :: "'v slot_map \<Rightarrow> bool" where
  "sm_wf m \<longleftrightarrow> distinct (sm_free m) \<and>
     (\<forall>i \<in> set (sm_free m). i < length (sm_slots m) \<and> snd (sm_slots m ! i) = None)"

text \<open>A stale key: its slot has moved on to a later version.\<close>

definition sm_stale :: "'v slot_map \<Rightarrow> key \<Rightarrow> bool" where
  "sm_stale m k \<longleftrightarrow> k_idx k < length (sm_slots m) \<and> k_version k < fst (sm_slots m ! k_idx k)"

section \<open>Lemmas\<close>

lemma sm_wf_new [simp]: "sm_wf sm_new"
  by (simp add: sm_wf_def sm_new_def)

lemma sm_get_new [simp]: "sm_get sm_new k = None"
  by (simp add: sm_get_def sm_new_def)

lemma sm_get_Some_idx: "sm_get m k = Some x \<Longrightarrow> k_idx k < length (sm_slots m)"
  by (simp add: sm_get_def split: if_splits)

lemma sm_get_Some_slot:
  "sm_get m k = Some x \<Longrightarrow> sm_slots m ! k_idx k = (k_version k, Some x)"
  by (auto simp: sm_get_def split: if_splits intro: prod_eqI)

lemma sm_insert_fresh:
  assumes "sm_wf m" "sm_insert x m = (k, m')"
  shows "sm_get m k = None"
  using assms
  by (auto simp: sm_insert_def sm_get_def sm_wf_def Let_def split: list.splits)

lemma sm_get_insert:
  assumes "sm_wf m" "sm_insert x m = (k', m')"
  shows "sm_get m' j = (if j = k' then Some x else sm_get m j)"
proof (cases "sm_free m")
  case Nil
  with assms(2) have m': "sm_slots m' = sm_slots m @ [(1, Some x)]"
    and k': "k' = Key (length (sm_slots m)) 1"
    by (auto simp: sm_insert_def)
  obtain i v where j: "j = Key i v" by (cases j)
  show ?thesis
    by (auto simp: sm_get_def m' k' j nth_append less_Suc_eq)
next
  case (Cons i fs)
  with assms have i: "i < length (sm_slots m)" "snd (sm_slots m ! i) = None"
    by (auto simp: sm_wf_def)
  from Cons assms(2) have m': "sm_slots m' = (sm_slots m)[i := (Suc (fst (sm_slots m ! i)), Some x)]"
    and k': "k' = Key i (Suc (fst (sm_slots m ! i)))"
    by (auto simp: sm_insert_def Let_def)
  obtain a v where j: "j = Key a v" by (cases j)
  show ?thesis
    using i by (auto simp: sm_get_def m' k' j nth_list_update)
qed

lemma sm_wf_insert:
  assumes "sm_wf m" "sm_insert x m = (k', m')"
  shows "sm_wf m'"
  using assms
  by (auto simp: sm_insert_def sm_wf_def Let_def nth_append nth_list_update split: list.splits)

lemma sm_get_remove:
  assumes "sm_remove k m = (xo, m')"
  shows "sm_get m' j = (if j = k then None else sm_get m j)" and "xo = sm_get m k"
proof -
  obtain a v where j: "j = Key a v" by (cases j)
  obtain b w where k: "k = Key b w" by (cases k)
  show "xo = sm_get m k"
    using assms by (auto simp: sm_remove_def split: option.splits)
  show "sm_get m' j = (if j = k then None else sm_get m j)"
  proof (cases "sm_get m k")
    case None
    with assms have "m' = m" by (simp add: sm_remove_def)
    with None show ?thesis by simp
  next
    case (Some y)
    with assms have m': "sm_slots m' = (sm_slots m)[b := (Suc w, None)]"
      by (auto simp: sm_remove_def k)
    from Some have "b < length (sm_slots m)" "fst (sm_slots m ! b) = w"
      by (auto simp: sm_get_def k split: if_splits)
    then show ?thesis
      by (auto simp: sm_get_def m' j k nth_list_update)
  qed
qed

lemma sm_wf_remove:
  assumes "sm_wf m" "sm_remove k m = (xo, m')"
  shows "sm_wf m'"
  using assms
  by (auto simp: sm_remove_def sm_wf_def sm_get_def nth_list_update split: option.splits if_splits)

lemma sm_set_Inr:
  assumes "sm_set k x m = Inr m'"
  shows "sm_get m' j = (if j = k then Some x else sm_get m j)"
    and "sm_free m' = sm_free m" and "length (sm_slots m') = length (sm_slots m)"
    and "sm_get m k \<noteq> None"
proof -
  obtain a v where j: "j = Key a v" by (cases j)
  obtain b w where k: "k = Key b w" by (cases k)
  from assms obtain y where y: "sm_get m k = Some y"
    and m': "m' = m\<lparr>sm_slots := (sm_slots m)[b := (w, Some x)]\<rparr>"
    by (auto simp: sm_set_def k split: option.splits)
  from y have b: "b < length (sm_slots m)" "fst (sm_slots m ! b) = w"
    by (auto simp: sm_get_def k split: if_splits)
  show "sm_get m' j = (if j = k then Some x else sm_get m j)"
    using b by (auto simp: sm_get_def m' j k nth_list_update)
  show "sm_free m' = sm_free m" "length (sm_slots m') = length (sm_slots m)" "sm_get m k \<noteq> None"
    using y by (simp_all add: m')
qed

lemma sm_set_Inl: "sm_set k x m = Inl e \<longleftrightarrow> sm_get m k = None \<and> e = InvalidKey"
  by (auto simp: sm_set_def split: option.splits)

lemma sm_wf_set: "sm_wf m \<Longrightarrow> sm_set k x m = Inr m' \<Longrightarrow> sm_wf m'"
  by (auto simp: sm_set_def sm_wf_def sm_get_def nth_list_update split: option.splits if_splits)

lemma sm_get_map_values [simp]: "sm_get (sm_map_values f m) k = map_option f (sm_get m k)"
  by (auto simp: sm_map_values_def sm_get_def case_prod_unfold)

lemma sm_map_values_id [simp]: "sm_map_values id m = m" "sm_map_values (\<lambda>x. x) m = m"
  by (simp_all add: sm_map_values_def case_prod_unfold option.map_id0 option.map_ident)

lemma sm_map_values_comp [simp]:
  "sm_map_values f (sm_map_values g m) = sm_map_values (f \<circ> g) m"
  by (simp add: sm_map_values_def case_prod_unfold comp_def option.map_comp)

lemma sm_wf_map_values [simp]: "sm_wf (sm_map_values f m) = sm_wf m"
  by (auto simp: sm_map_values_def sm_wf_def case_prod_unfold)

subsection \<open>Iteration and the multiset of values\<close>

lemma in_slots_iter:
  "(k, x) \<in> set (slots_iter i ss) \<longleftrightarrow>
     i \<le> k_idx k \<and> k_idx k < i + length ss \<and> ss ! (k_idx k - i) = (k_version k, Some x)"
proof (induction i ss rule: slots_iter.induct)
  case (1 i)
  then show ?case by simp
next
  case (2 i ver ss)
  then show ?case
    by (cases k) (auto simp: nth_Cons' Suc_le_eq)
next
  case (3 i ver x ss)
  then show ?case
    by (cases k) (auto simp: nth_Cons' Suc_le_eq)
qed

lemma distinct_slots_iter: "distinct (map fst (slots_iter i ss))"
  by (induction i ss rule: slots_iter.induct) (auto simp: in_slots_iter)


lemma map_snd_slots_iter: "map snd (slots_iter i ss) = List.map_filter snd ss"
  by (induction i ss rule: slots_iter.induct) simp_all

lemma set_map_filter: "set (List.map_filter f xs) = {y. \<exists>x \<in> set xs. f x = Some y}"
  by (induction xs) (auto split: option.splits)

lemma mset_map_filter_snd_Cons:
  "mset (List.map_filter snd (t # ss)) = opt_mset (snd t) + mset (List.map_filter snd ss)"
  by (cases t) (simp add: opt_mset_def split: option.splits)

lemma opt_mset_subset: "p < length ss \<Longrightarrow> opt_mset (snd (ss ! p)) \<subseteq># mset (List.map_filter snd ss)"
  by (auto simp: opt_mset_def set_map_filter split: option.splits intro!: bexI [of _ "ss ! p"])

lemma mset_map_filter_update:
  "p < length ss \<Longrightarrow>
   mset (List.map_filter snd (ss[p := s])) =
     mset (List.map_filter snd ss) - opt_mset (snd (ss ! p)) + opt_mset (snd s)"
proof (induction ss arbitrary: p)
  case Nil
  then show ?case by simp
next
  case (Cons t ss)
  show ?case
  proof (cases p)
    case 0
    then have "(t # ss)[p := s] = s # ss" by simp
    then show ?thesis
      using 0 mset_map_filter_snd_Cons [of s ss] mset_map_filter_snd_Cons [of t ss]
      by (simp only: nth_Cons_0 add_diff_cancel_left') (simp add: add.commute)
  next
    case (Suc q)
    with Cons.prems have q: "q < length ss" by simp
    let ?M = "mset (List.map_filter snd ss)"
    have "(t # ss)[p := s] = t # ss[q := s]" using Suc by simp
    then have "mset (List.map_filter snd ((t # ss)[p := s])) =
          opt_mset (snd t) + mset (List.map_filter snd (ss[q := s]))"
      by (simp only: mset_map_filter_snd_Cons)
    also have "\<dots> = opt_mset (snd t) + (?M - opt_mset (snd (ss ! q)) + opt_mset (snd s))"
      by (simp only: Cons.IH [OF q])
    also have "\<dots> = (opt_mset (snd t) + ?M - opt_mset (snd (ss ! q))) + opt_mset (snd s)"
      using opt_mset_subset [OF q] by (metis multiset_diff_union_assoc union_assoc)
    also have "\<dots> = mset (List.map_filter snd (t # ss)) - opt_mset (snd ((t # ss) ! p)) + opt_mset (snd s)"
      using Suc by (simp only: mset_map_filter_snd_Cons nth_Cons_Suc)
    finally show ?thesis .
  qed
qed

lemma sm_values_eq: "sm_values m = List.map_filter snd (sm_slots m)"
  by (simp add: sm_values_def sm_iter_def map_snd_slots_iter)

lemma mset_sm_values_insert:
  assumes "sm_wf m" "sm_insert x m = (k, m')"
  shows "mset (sm_values m') = add_mset x (mset (sm_values m))"
proof (cases "sm_free m")
  case Nil
  with assms(2) show ?thesis
    by (auto simp: sm_insert_def sm_values_eq map_filter_def)
next
  case (Cons i fs)
  with assms have i: "i < length (sm_slots m)" "snd (sm_slots m ! i) = None"
    by (auto simp: sm_wf_def)
  from Cons assms(2) have "sm_slots m' = (sm_slots m)[i := (Suc (fst (sm_slots m ! i)), Some x)]"
    by (auto simp: sm_insert_def Let_def)
  with i show ?thesis
    by (simp add: sm_values_eq mset_map_filter_update opt_mset_def)
qed

lemma mset_sm_values_remove:
  assumes "sm_remove k m = (Some y, m')"
  shows "mset (sm_values m') = mset (sm_values m) - {#y#}"
proof -
  from assms have get: "sm_get m k = Some y"
    and m': "sm_slots m' = (sm_slots m)[k_idx k := (Suc (k_version k), None)]"
    by (auto simp: sm_remove_def split: option.splits)
  from get have "k_idx k < length (sm_slots m)" "snd (sm_slots m ! k_idx k) = Some y"
    by (auto simp: sm_get_def split: if_splits)
  with m' show ?thesis
    by (simp add: sm_values_eq mset_map_filter_update opt_mset_def)
qed

lemma mset_sm_values_set:
  assumes "sm_set k x m = Inr m'" "sm_get m k = Some y"
  shows "mset (sm_values m') = add_mset x (mset (sm_values m) - {#y#})"
proof -
  from assms have m': "sm_slots m' = (sm_slots m)[k_idx k := (k_version k, Some x)]"
    by (auto simp: sm_set_def)
  from assms(2) have "k_idx k < length (sm_slots m)" "snd (sm_slots m ! k_idx k) = Some y"
    by (auto simp: sm_get_def split: if_splits)
  with m' show ?thesis
    by (simp add: sm_values_eq mset_map_filter_update opt_mset_def)
qed

lemma sm_values_map_values [simp]: "sm_values (sm_map_values f m) = map f (sm_values m)"
proof -
  have "List.map_filter snd (map (\<lambda>(ver, xo). (ver, map_option f xo)) ss) = map f (List.map_filter snd ss)"
    for ss :: "(nat \<times> 'a option) list"
    by (induction ss) (auto split: option.splits)
  then show ?thesis by (simp add: sm_values_eq sm_map_values_def)
qed

lemma in_sm_iter: "(k, x) \<in> set (sm_iter m) \<longleftrightarrow> sm_get m k = Some x"
  by (auto simp: sm_iter_def in_slots_iter sm_get_def prod_eq_iff)

lemma distinct_sm_iter: "distinct (map fst (sm_iter m))"
  by (simp add: sm_iter_def distinct_slots_iter)

lemma map_snd_sm_iter: "map snd (sm_iter m) = sm_values m"
  by (simp add: sm_values_def)

lemma in_sm_values: "x \<in> set (sm_values m) \<longleftrightarrow> (\<exists>k. sm_get m k = Some x)"
  by (force simp: sm_values_def simp flip: in_sm_iter)

subsection \<open>Stale keys\<close>

lemma sm_stale_get: "sm_stale m k \<Longrightarrow> sm_get m k = None"
  by (simp add: sm_stale_def sm_get_def)

lemma sm_stale_insert:
  assumes "sm_stale m j" "sm_insert x m = (k, m')"
  shows "sm_stale m' j"
proof (cases "sm_free m")
  case Nil
  with assms show ?thesis by (auto simp: sm_insert_def sm_stale_def nth_append)
next
  case (Cons a fs)
  with assms(2) have m': "sm_slots m' = (sm_slots m)[a := (Suc (fst (sm_slots m ! a)), Some x)]"
    by (auto simp: sm_insert_def Let_def)
  show ?thesis
  proof (cases "k_idx j = a")
    case True
    with assms(1) m' show ?thesis by (simp add: sm_stale_def)
  next
    case False
    with assms(1) m' show ?thesis by (simp add: sm_stale_def)
  qed
qed

lemma sm_stale_remove:
  assumes "sm_remove k m = (xo, m')"
  shows "sm_stale m j \<Longrightarrow> sm_stale m' j" and "xo \<noteq> None \<Longrightarrow> sm_stale m' k"
  using assms
  by (auto simp: sm_remove_def sm_stale_def sm_get_def nth_list_update split: option.splits if_splits)

lemma sm_stale_set: "sm_set k x m = Inr m' \<Longrightarrow> sm_stale m j \<Longrightarrow> sm_stale m' j"
  by (auto simp: sm_set_def sm_stale_def sm_get_def nth_list_update split: option.splits if_splits)

lemma sm_stale_map_values [simp]: "sm_stale (sm_map_values f m) j = sm_stale m j"
  by (auto simp: sm_stale_def sm_map_values_def case_prod_unfold)

lemma sm_get_pair_mset:
  assumes "sm_get m k1 = Some a" "sm_get m k2 = Some b" "k1 \<noteq> k2"
  shows "b \<in># mset (sm_values m) - {#a#}"
proof -
  let ?L = "sm_iter m"
  have in1: "(k1, a) \<in> set ?L" and in2: "(k2, b) \<in> set ?L"
    using assms(1,2) by (simp_all add: in_sm_iter)
  have "distinct ?L" using distinct_sm_iter distinct_map by blast
  then have "(k2, b) \<in> set (remove1 (k1, a) ?L)" using in2 assms(3) by simp
  then have "b \<in> set (map snd (remove1 (k1, a) ?L))" by (metis snd_conv image_eqI set_map)
  then have "b \<in># mset (map snd (remove1 (k1, a) ?L))" by (simp only: set_mset_mset)
  moreover have "mset (map snd (remove1 (k1, a) ?L)) = mset (map snd ?L) - {#a#}"
    using in1 by (simp add: image_mset_Diff)
  ultimately show ?thesis unfolding sm_values_def by metis
qed

end
