(* ===== verification/FreeList.thy ===== *)
theory FreeList
  imports Prelude "HOL-Library.While_Combinator"
begin

text \<open>
  The free list of \<open>SimpleGpuMemory\<close> (\<open>available_ranges: Vec<AddressRange>\<close> in
  \<open>src/simple.rs\<close>) and the two private methods that maintain it:
  \<open>merge_available_ranges\<close> (the merge loop) and \<open>make_range_available\<close> (the
  coalescing insertion used by \<open>free\<close> and by a shrinking \<open>resize\<close>), together with
  the last-fit search of \<open>allocate\<close>. The vector operations the code calls
  (\<open>Vec::remove\<close>, \<open>Vec::insert\<close>, \<open>Iterator::position\<close>) are written out.
  The lemmas show what the insertion keeps (well-formed, in-bounds ranges; no free
  byte is lost) and characterise exactly what it does on a sorted free list. The
  merge loop is also kept as the \<open>while\<close> loop it is (\<open>merge_loop\<close>, with
  \<open>while_option\<close>), which is shown to end on every input with the result of the
  recursive model (C20); the last-fit search is the spec's last-fit policy (C17).
\<close>

section \<open>Vector and iterator operations\<close>

text \<open>\<open>Vec::remove(i)\<close> and \<open>Vec::insert(i, x)\<close> for an index in range (the callers
  below only use such indices).\<close>

definition vec_remove :: "nat \<Rightarrow> 'a list \<Rightarrow> 'a list" where
  "vec_remove i xs = take i xs @ drop (Suc i) xs"

definition vec_insert :: "nat \<Rightarrow> 'a \<Rightarrow> 'a list \<Rightarrow> 'a list" where
  "vec_insert i x xs = take i xs @ x # drop i xs"

text \<open>\<open>Iterator::position\<close>: the index of the first element satisfying the predicate.\<close>

fun position :: "('a \<Rightarrow> bool) \<Rightarrow> 'a list \<Rightarrow> nat option" where
  "position P [] = None"
| "position P (x # xs) = (if P x then Some 0 else map_option Suc (position P xs))"

section \<open>The merge loop and the coalescing insertion\<close>

text \<open>
  \<^verbatim>\<open>
  while index + 1 < len && ranges[index].end >= ranges[index + 1].start {
      let right = ranges.remove(index + 1);
      let left = &mut ranges[index];
      left.start = left.start.min(right.start);
      left.end = left.end.max(right.end);
  }\<close>
  Each iteration removes one element, so the loop ends.
\<close>

function merge_available_ranges :: "nat \<Rightarrow> address_range list \<Rightarrow> address_range list" where
  "merge_available_ranges i rs =
     (if Suc i < length rs \<and> r_start (rs ! Suc i) \<le> r_end (rs ! i)
      then (let right = rs ! Suc i; left = rs ! i;
                rs' = vec_remove (Suc i) rs
            in merge_available_ranges i
                 (rs'[i := mk_range (min (r_start left) (r_start right))
                                    (max (r_end left) (r_end right))]))
      else rs)"
  by pat_completeness auto
termination
  by (relation "measure (\<lambda>(i, rs). length rs)") (auto simp: vec_remove_def)

declare merge_available_ranges.simps [simp del]

text \<open>The same loop kept as a \<open>while\<close> loop: its guard, its body, and the loop as
  \<open>while_option\<close>, which is \<open>None\<close> if the loop does not end.\<close>

definition merge_guard :: "nat \<Rightarrow> address_range list \<Rightarrow> bool" where
  "merge_guard i rs \<longleftrightarrow> Suc i < length rs \<and> r_start (rs ! Suc i) \<le> r_end (rs ! i)"

definition merge_body :: "nat \<Rightarrow> address_range list \<Rightarrow> address_range list" where
  "merge_body i rs =
     (let right = rs ! Suc i; rs' = vec_remove (Suc i) rs; left = rs' ! i
      in rs'[i := mk_range (min (r_start left) (r_start right)) (max (r_end left) (r_end right))])"

definition merge_loop :: "nat \<Rightarrow> address_range list \<Rightarrow> address_range list option" where
  "merge_loop i rs = while_option (merge_guard i) (merge_body i) rs"

text \<open>
  \<^verbatim>\<open>
  if let Some(i) = ranges.iter().position(|o| o.start <= range.end) {
      ranges.insert(i, range);
      self.merge_available_ranges(i);
  } else {
      ranges.push(range);
  }\<close>
\<close>

definition make_range_available :: "address_range \<Rightarrow> address_range list \<Rightarrow> address_range list" where
  "make_range_available r rs =
     (case position (\<lambda>other. r_start other \<le> r_end r) rs of
        Some i \<Rightarrow> merge_available_ranges i (vec_insert i r rs)
      | None \<Rightarrow> rs @ [r])"

text \<open>The last-fit search of \<open>allocate\<close>:
  \<open>ranges.iter().enumerate().rev().find_map(|(i, r)| (r.len() >= size).then_some(i))\<close>.\<close>

definition last_fit :: "nat \<Rightarrow> address_range list \<Rightarrow> nat option" where
  "last_fit sz rs = map_option fst (find (\<lambda>(i, r). sz \<le> range_len r) (rev (enumerate 0 rs)))"

text \<open>The policy the spec names (last fit): the greatest index of a free range of at
  least \<open>sz\<close> bytes.\<close>

definition last_fit_spec :: "nat \<Rightarrow> address_range list \<Rightarrow> nat option" where
  "last_fit_spec sz rs =
     (let fits = filter (\<lambda>i. sz \<le> range_len (rs ! i)) [0..<length rs]
      in if fits = [] then None else Some (last fits))"

section \<open>Properties of the free-list invariants\<close>

text \<open>Every range is well formed and lies below a bound (the length of the byte
  vector).\<close>

definition ranges_in :: "nat \<Rightarrow> address_range list \<Rightarrow> bool" where
  "ranges_in n rs \<longleftrightarrow> (\<forall>r \<in> set rs. range_wf r \<and> r_end r \<le> n)"

text \<open>A free list as the code means to keep it: sorted by start, no two ranges
  overlapping or touching.\<close>

definition coalesced :: "address_range list \<Rightarrow> bool" where
  "coalesced rs \<longleftrightarrow> sorted_wrt (\<lambda>a b. r_end a < r_start b) rs \<and> (\<forall>r \<in> set rs. range_wf r)"

section \<open>Lemmas\<close>

lemma position_SomeD:
  "position P xs = Some i \<Longrightarrow> i < length xs \<and> P (xs ! i) \<and> (\<forall>j < i. \<not> P (xs ! j))"
proof (induction xs arbitrary: i)
  case Nil
  then show ?case by simp
next
  case (Cons x xs)
  then show ?case
    by (auto simp: nth_Cons' split: if_splits)
qed

lemma position_None: "position P xs = None \<longleftrightarrow> (\<forall>x \<in> set xs. \<not> P x)"
  by (induction xs) auto

lemma position_Cons_hit: "P x \<Longrightarrow> position P (x # xs) = Some 0"
  by simp

lemma length_vec_insert [simp]: "i \<le> length xs \<Longrightarrow> length (vec_insert i x xs) = Suc (length xs)"
  by (simp add: vec_insert_def)

lemma set_vec_insert [simp]: "set (vec_insert i x xs) = insert x (set xs)"
  by (auto simp: vec_insert_def dest: in_set_takeD in_set_dropD)
    (metis append_take_drop_id Un_iff set_append)

lemma length_vec_remove [simp]: "i < length xs \<Longrightarrow> length (vec_remove i xs) = length xs - 1"
  by (simp add: vec_remove_def)

lemma set_vec_remove: "set (vec_remove i xs) \<subseteq> set xs"
  by (auto simp: vec_remove_def dest: in_set_takeD in_set_dropD)

lemma vec_remove_nth:
  "i < length xs \<Longrightarrow> vec_remove i xs ! j = (if j < i then xs ! j else xs ! Suc j)"
  by (simp add: vec_remove_def nth_append)

lemma set_vec_remove_nth:
  "i < length xs \<Longrightarrow> set xs = insert (xs ! i) (set (vec_remove i xs))"
  by (simp add: vec_remove_def) (metis append_take_drop_id id_take_nth_drop insert_is_Un list.simps(15) set_append sup_left_commute)


lemma merge_available_ranges_in:
  "ranges_in n rs \<Longrightarrow> ranges_in n (merge_available_ranges i rs)"
proof (induction i rs rule: merge_available_ranges.induct)
  case (1 i rs)
  show ?case
  proof (cases "Suc i < length rs \<and> r_start (rs ! Suc i) \<le> r_end (rs ! i)")
    case True
    let ?m = "mk_range (min (r_start (rs ! i)) (r_start (rs ! Suc i))) (max (r_end (rs ! i)) (r_end (rs ! Suc i)))"
    have "rs ! i \<in> set rs" "rs ! Suc i \<in> set rs" using True by auto
    with "1.prems" have "range_wf ?m \<and> r_end ?m \<le> n"
      by (auto simp: ranges_in_def range_wf_def)
    with "1.prems" True have "ranges_in n ((vec_remove (Suc i) rs)[i := ?m])"
      using set_vec_remove [of "Suc i" rs]
      by (auto simp: ranges_in_def dest!: set_update_subset_insert [THEN subsetD])
    with "1.IH" True show ?thesis
      by (simp add: merge_available_ranges.simps [of i rs] Let_def)
  next
    case False
    with "1.prems" show ?thesis
      by (auto simp: merge_available_ranges.simps [of i rs])
  qed
qed

text \<open>The range at the merge index only grows, and no free byte is lost.\<close>

lemma merge_available_ranges_grows:
  "i < length rs \<Longrightarrow>
   i < length (merge_available_ranges i rs) \<and>
   r_start (merge_available_ranges i rs ! i) \<le> r_start (rs ! i) \<and>
   r_end (rs ! i) \<le> r_end (merge_available_ranges i rs ! i) \<and>
   ranges_set rs \<subseteq> ranges_set (merge_available_ranges i rs)"
proof (induction i rs rule: merge_available_ranges.induct)
  case (1 i rs)
  show ?case
  proof (cases "Suc i < length rs \<and> r_start (rs ! Suc i) \<le> r_end (rs ! i)")
    case True
    let ?m = "mk_range (min (r_start (rs ! i)) (r_start (rs ! Suc i))) (max (r_end (rs ! i)) (r_end (rs ! Suc i)))"
    let ?rs = "(vec_remove (Suc i) rs)[i := ?m]"
    have eq: "merge_available_ranges i rs = merge_available_ranges i ?rs"
      using True by (simp add: merge_available_ranges.simps [of i rs] Let_def)
    have len: "i < length ?rs" using True by auto
    have nth: "?rs ! i = ?m" using len by simp
    have cov: "ranges_set rs \<subseteq> ranges_set ?rs"
    proof
      fix x assume "x \<in> ranges_set rs"
      then obtain j where j: "j < length rs" "x \<in> range_set (rs ! j)"
        by (auto simp: ranges_set_def in_set_conv_nth)
      show "x \<in> ranges_set ?rs"
      proof (cases "j = i \<or> j = Suc i")
        case True
        with j have "x \<in> range_set ?m" by (auto simp: range_set_def)
        moreover have "?m \<in> set ?rs" using len by (metis length_list_update nth nth_mem)
        ultimately show ?thesis unfolding ranges_set_def by (rule UN_I [rotated])
      next
        case False
        let ?j = "if j < i then j else j - 1"
        have jl: "?j < length ?rs" and jn: "?rs ! ?j = rs ! j"
          using False j True by (auto simp: vec_remove_nth)
        then have "rs ! j \<in> set ?rs" by (metis nth_mem)
        with j(2) show ?thesis unfolding ranges_set_def by (rule UN_I [rotated])
      qed
    qed
    from "1.IH" [OF True refl refl refl len] eq nth cov show ?thesis
      by (auto simp: min_def max_def)
  next
    case False
    with "1.prems" show ?thesis
      by (auto simp: merge_available_ranges.simps [of i rs])
  qed
qed


lemma make_range_available_in:
  "ranges_in n rs \<Longrightarrow> range_wf r \<Longrightarrow> r_end r \<le> n \<Longrightarrow>
   ranges_in n (make_range_available r rs)"
  by (auto simp: make_range_available_def ranges_in_def split: option.splits
           intro!: merge_available_ranges_in [unfolded ranges_in_def])

lemma make_range_available_covers:
  "ranges_set rs \<union> range_set r \<subseteq> ranges_set (make_range_available r rs)"
proof (cases "position (\<lambda>other. r_start other \<le> r_end r) rs")
  case None
  then show ?thesis by (simp add: make_range_available_def)
next
  case (Some i)
  then have "i < length rs" by (simp add: position_SomeD)
  then have "i < length (vec_insert i r rs)" by simp
  from merge_available_ranges_grows [OF this] Some show ?thesis
    by (auto simp: make_range_available_def ranges_set_def)
qed

lemma make_range_available_contains:
  "\<exists>r' \<in> set (make_range_available r rs). r_start r' \<le> r_start r \<and> r_end r \<le> r_end r'"
proof (cases "position (\<lambda>other. r_start other \<le> r_end r) rs")
  case None
  then show ?thesis by (auto simp: make_range_available_def)
next
  case (Some i)
  then have "i < length rs" by (simp add: position_SomeD)
  then have i: "i < length (vec_insert i r rs)" and ri: "vec_insert i r rs ! i = r"
    by (simp_all add: vec_insert_def nth_append)
  from merge_available_ranges_grows [OF i] ri Some show ?thesis
    by (auto simp: make_range_available_def intro: nth_mem)
qed

lemma make_range_available_Nil: "make_range_available r [] = [r]"
  by (simp add: make_range_available_def)

text \<open>When the first free range starts at or below the end of the freed range, the
  insertion puts the freed range first and merges it with that range, so every byte
  from the start of the first free range up to the end of the freed range becomes
  free, whatever lies between them.\<close>

lemma make_range_available_sweeps:
  assumes "rs = f # fs" "r_start f \<le> r_end r"
  shows "{min (r_start f) (r_start r) ..< r_end r} \<subseteq> ranges_set (make_range_available r rs)"
proof -
  let ?m = "mk_range (min (r_start r) (r_start f)) (max (r_end r) (r_end f))"
  let ?rs = "(vec_remove (Suc 0) (r # f # fs))[0 := ?m]"
  have res: "make_range_available r rs = merge_available_ranges 0 (r # f # fs)"
    using assms by (simp add: make_range_available_def vec_insert_def)
  also have "\<dots> = merge_available_ranges 0 ?rs"
    using assms by (simp add: merge_available_ranges.simps [of 0 "r # f # fs"])
  finally have eq: "make_range_available r rs = merge_available_ranges 0 ?rs" .
  have len: "0 < length ?rs" by (simp add: vec_remove_def)
  have "?rs ! 0 = ?m" by (simp add: vec_remove_def)
  with merge_available_ranges_grows [OF len]
  have "r_start (merge_available_ranges 0 ?rs ! 0) \<le> min (r_start r) (r_start f)"
    and "max (r_end r) (r_end f) \<le> r_end (merge_available_ranges 0 ?rs ! 0)"
    and "0 < length (merge_available_ranges 0 ?rs)"
    by simp_all
  then have "{min (r_start f) (r_start r) ..< r_end r} \<subseteq> range_set (merge_available_ranges 0 ?rs ! 0)"
    by (auto simp: range_set_def)
  moreover have "merge_available_ranges 0 ?rs ! 0 \<in> set (merge_available_ranges 0 ?rs)"
    using \<open>0 < length (merge_available_ranges 0 ?rs)\<close> by (rule nth_mem)
  ultimately show ?thesis
    unfolding eq ranges_set_def by blast
qed

text \<open>A freed range that lies below every free range (not touching the first) is
  pushed at the end of the list, after all of them.\<close>

lemma make_range_available_pushes:
  assumes "coalesced rs" "rs = f # fs" "r_end r < r_start f"
  shows "make_range_available r rs = rs @ [r]"
proof -
  have "\<forall>x \<in> set rs. r_start f \<le> r_start x"
    using assms(1,2) by (auto simp: coalesced_def range_wf_def)
  with assms(3) have "position (\<lambda>other. r_start other \<le> r_end r) rs = None"
    by (auto simp: position_None)
  then show ?thesis by (simp add: make_range_available_def)
qed

text \<open>The two cases the insertion gets right on a coalesced list: the freed range
  touches the first free range from below, or from above without reaching the next.\<close>

lemma make_range_available_touch_below:
  assumes "coalesced (f # fs)" "range_wf r" "r_end r = r_start f"
  shows "make_range_available r (f # fs) = mk_range (r_start r) (r_end f) # fs"
proof -
  have wf: "range_wf f" using assms(1) by (simp add: coalesced_def)
  let ?m = "mk_range (r_start r) (r_end f)"
  have "make_range_available r (f # fs) = merge_available_ranges 0 (r # f # fs)"
    using assms by (simp add: make_range_available_def vec_insert_def)
  also have "\<dots> = merge_available_ranges 0 (?m # fs)"
    using assms wf by (simp add: merge_available_ranges.simps [of 0 "r # f # fs"] vec_remove_def
        range_wf_def min_def max_def)
  also have "\<dots> = ?m # fs"
    using assms(1) by (cases fs) (auto simp: merge_available_ranges.simps [of 0] coalesced_def)
  finally show ?thesis .
qed

lemma make_range_available_touch_above:
  assumes "coalesced (f # fs)" "range_wf r" "r_start r = r_end f"
    and "fs = [] \<or> r_end r < r_start (hd fs)"
  shows "make_range_available r (f # fs) = mk_range (r_start f) (r_end r) # fs"
proof -
  have wf: "range_wf f" using assms(1) by (simp add: coalesced_def)
  let ?m = "mk_range (r_start f) (r_end r)"
  have "make_range_available r (f # fs) = merge_available_ranges 0 (r # f # fs)"
    using assms wf by (simp add: make_range_available_def vec_insert_def range_wf_def)
  also have "\<dots> = merge_available_ranges 0 (?m # fs)"
    using assms wf by (simp add: merge_available_ranges.simps [of 0 "r # f # fs"] vec_remove_def
        range_wf_def min_def max_def)
  also have "\<dots> = ?m # fs"
    using assms(4) by (cases fs) (auto simp: merge_available_ranges.simps [of 0])
  finally show ?thesis .
qed


lemma last_fit_snoc:
  "last_fit sz (rs @ [r]) = (if sz \<le> range_len r then Some (length rs) else last_fit sz rs)"
  by (simp add: last_fit_def enumerate_append_eq)

lemma last_fit_None: "last_fit sz rs = None \<longleftrightarrow> (\<forall>r \<in> set rs. range_len r < sz)"
  by (induction rs rule: rev_induct) (simp_all add: last_fit_snoc, simp add: last_fit_def)

lemma last_fit_SomeD:
  "last_fit sz rs = Some i \<Longrightarrow>
   i < length rs \<and> sz \<le> range_len (rs ! i) \<and> (\<forall>j. i < j \<and> j < length rs \<longrightarrow> range_len (rs ! j) < sz)"
proof (induction rs arbitrary: i rule: rev_induct)
  case Nil
  then show ?case by (simp add: last_fit_def)
next
  case (snoc r rs)
  show ?case
  proof (cases "sz \<le> range_len r")
    case True
    with snoc.prems show ?thesis by (simp add: last_fit_snoc nth_append)
  next
    case False
    with snoc.prems snoc.IH [of i] show ?thesis
      by (auto simp: last_fit_snoc nth_append less_Suc_eq)
  qed
qed

lemma sorted_vec_remove: "sorted_wrt P xs \<Longrightarrow> sorted_wrt P (vec_remove i xs)"
proof -
  assume a: "sorted_wrt P xs"
  then have "\<forall>x \<in> set (take i xs). \<forall>y \<in> set (drop i xs). P x y"
    using sorted_wrt_append [of P "take i xs" "drop i xs"] by simp
  then show ?thesis
    using a set_drop_subset_set_drop [of i "Suc i" xs]
    by (auto simp: vec_remove_def sorted_wrt_append sorted_wrt_drop sorted_wrt_take)
qed

lemma sorted_before_update:
  assumes "sorted_wrt range_before xs" "i < length xs"
    "r_start x = r_start (xs ! i)" "r_end x \<le> r_end (xs ! i)"
  shows "sorted_wrt range_before (xs[i := x])"
  using assms unfolding sorted_wrt_iff_nth_less range_before_def
  by (force simp: nth_list_update)


text \<open>C17: the search of \<open>allocate\<close> (\<open>enumerate().rev().find_map(..)\<close>) is the
  last-fit policy of the spec: it returns the greatest index of a free range that is
  large enough, and \<open>None\<close> when there is none.\<close>

theorem last_fit_eq_spec: "last_fit sz rs = last_fit_spec sz rs"
proof (induction rs rule: rev_induct)
  case Nil
  then show ?case by (simp add: last_fit_def last_fit_spec_def)
next
  case (snoc r rs)
  have "filter (\<lambda>i. sz \<le> range_len ((rs @ [r]) ! i)) [0..<length rs] =
        filter (\<lambda>i. sz \<le> range_len (rs ! i)) [0..<length rs]"
    by (rule filter_cong) (simp_all add: nth_append)
  with snoc show ?case by (simp add: last_fit_snoc last_fit_spec_def Let_def)
qed

section \<open>The merge loop ends\<close>

lemma merge_body_eq:
  assumes "Suc i < length rs"
  shows "merge_body i rs =
    (vec_remove (Suc i) rs)[i := mk_range (min (r_start (rs ! i)) (r_start (rs ! Suc i)))
                                          (max (r_end (rs ! i)) (r_end (rs ! Suc i)))]"
  using assms by (simp add: merge_body_def Let_def vec_remove_def nth_append)

lemma merge_available_ranges_step:
  "merge_guard i rs \<Longrightarrow> merge_available_ranges i rs = merge_available_ranges i (merge_body i rs)"
  by (simp add: merge_guard_def merge_body_eq merge_available_ranges.simps [of i rs] Let_def)

lemma merge_available_ranges_stop:
  "\<not> merge_guard i rs \<Longrightarrow> merge_available_ranges i rs = rs"
  by (auto simp: merge_guard_def merge_available_ranges.simps [of i rs])

text \<open>C20: the \<open>while\<close> loop of \<open>merge_available_ranges\<close> ends on every input: each
  iteration removes one element of the free list, so \<open>while_option\<close> returns
  \<open>Some\<close>, and the list it returns is the one the recursive model computes.\<close>

theorem merge_loop_terminates: "merge_loop i rs = Some (merge_available_ranges i rs)"
proof (induction i rs rule: merge_available_ranges.induct)
  case (1 i rs)
  show ?case
  proof (cases "merge_guard i rs")
    case True
    then have "merge_loop i (merge_body i rs) = Some (merge_available_ranges i (merge_body i rs))"
      using "1.IH" by (simp add: merge_guard_def merge_body_eq)
    with True show ?thesis
      by (simp add: merge_loop_def while_option_unfold [of _ _ rs] merge_available_ranges_step)
  next
    case False
    then show ?thesis
      by (simp add: merge_loop_def while_option_unfold [of _ _ rs] merge_available_ranges_stop)
  qed
qed

end
