(* ===== verification/GpuMemory.thy ===== *)
theory GpuMemory
  imports Prelude
begin

text \<open>
  The interface of \<open>src/lib.rs\<close>: the \<open>GpuMemory\<close> trait, its two default methods
  (\<open>is_empty\<close>, \<open>size\<close>) and the helper \<open>upload_or_resize\<close>, together with the part
  of the device (wgpu's \<open>Device\<close>, \<open>Queue\<close> and \<open>Buffer\<close>) that the helper and the
  allocators call. The device is an external collaborator: it is modelled from the
  spec's interface (a buffer with a size, usage flags and contents; buffer creation and
  queue writes), and every transfer it performs is recorded in a log, so that a
  property can say how many transfers an operation caused.

  The trait becomes a record of operations over an implementation's state \<open>'s\<close>,
  handle type \<open>'k\<close>, strategy type \<open>'o\<close> and view type \<open>'v\<close> (what \<open>get\<close>
  hands out for \<open>&mut [T]\<close>); an implementation is a value of that
  record (\<open>SimpleGpuMemory\<close> in theory \<open>Simple\<close>), and the decorator of
  \<open>src/auto_drop.rs\<close> is written against the record, as the Rust decorator is generic
  over \<open>M: GpuMemory<T>\<close>. The element type \<open>T\<close> enters only through its size
  \<open>esz = size_of::<T>()\<close>.
\<close>

section \<open>The device collaborator\<close>

type_synonym buffer_usages = "32 word"

text \<open>\<open>wgpu::BufferUsages::COPY_DST\<close> is bit 3.\<close>

definition COPY_DST :: buffer_usages where
  "COPY_DST = 8"

record device_buffer =
  buf_size :: nat
  buf_usage :: buffer_usages
  buf_contents :: "byte list"

datatype transfer = CreateBuffer nat | CreateBufferInit "byte list" | WriteBuffer nat "byte list"

record device =
  dev_log :: "transfer list"

text \<open>\<open>Device::create_buffer\<close> with \<open>mapped_at_creation: false\<close>: a zeroed buffer.\<close>

definition create_buffer :: "device \<Rightarrow> nat \<Rightarrow> buffer_usages \<Rightarrow> device \<times> device_buffer" where
  "create_buffer dev n usage =
     (dev\<lparr>dev_log := dev_log dev @ [CreateBuffer n]\<rparr>,
      \<lparr>buf_size = n, buf_usage = usage, buf_contents = replicate n 0\<rparr>)"

text \<open>\<open>DeviceExt::create_buffer_init\<close>: a buffer holding the given bytes, its size
  rounded up to the copy alignment of 4 bytes (and 0 for no bytes).\<close>

definition padded_size :: "nat \<Rightarrow> nat" where
  "padded_size n = (if n = 0 then 0 else max 4 (((n + 3) div 4) * 4))"

definition create_buffer_init :: "device \<Rightarrow> buffer_usages \<Rightarrow> byte list \<Rightarrow> device \<times> device_buffer" where
  "create_buffer_init dev usage bs =
     (dev\<lparr>dev_log := dev_log dev @ [CreateBufferInit bs]\<rparr>,
      \<lparr>buf_size = padded_size (length bs), buf_usage = usage,
       buf_contents = bs @ replicate (padded_size (length bs) - length bs) 0\<rparr>)"

text \<open>\<open>Queue::write_buffer(buffer, offset, data)\<close>.\<close>

definition write_buffer :: "device \<Rightarrow> device_buffer \<Rightarrow> nat \<Rightarrow> byte list \<Rightarrow> device \<times> device_buffer" where
  "write_buffer dev buf off bs =
     (dev\<lparr>dev_log := dev_log dev @ [WriteBuffer off bs]\<rparr>,
      buf\<lparr>buf_contents := take off (buf_contents buf) @ bs @ drop (off + length bs) (buf_contents buf)\<rparr>)"

section \<open>\<open>upload_or_resize\<close>\<close>

text \<open>Overwrite the buffer in place when it is large enough, otherwise replace it by
  a new buffer with the same usage holding the bytes.\<close>

definition upload_or_resize :: "device \<Rightarrow> device_buffer \<Rightarrow> byte list \<Rightarrow> device \<times> device_buffer" where
  "upload_or_resize dev buf bs =
     (if length bs \<le> buf_size buf then write_buffer dev buf 0 bs
      else create_buffer_init dev (buf_usage buf) bs)"

section \<open>The trait\<close>

record ('s, 'k, 'o, 'v) gpu_memory_ops =
  op_mutated :: "'s \<Rightarrow> bool"
  op_allocate :: "nat \<Rightarrow> 's \<Rightarrow> 'k \<times> 's"
  op_get :: "'k \<Rightarrow> 's \<Rightarrow> ('s \<times> 'v) res"
  op_len :: "'s \<Rightarrow> nat"
  op_len_of :: "'k \<Rightarrow> 's \<Rightarrow> nat res"
  op_resize :: "'k \<Rightarrow> nat \<Rightarrow> 's \<Rightarrow> ('k \<times> 's) res"
  op_free :: "'k \<Rightarrow> 's \<Rightarrow> 's res"
  op_upload :: "device \<Rightarrow> 's \<Rightarrow> (device \<times> 's) res"
  op_optimize :: "'o \<Rightarrow> device \<Rightarrow> 's \<Rightarrow> (device \<times> 's) res"
  op_buffer :: "'s \<Rightarrow> device_buffer"
  op_is_empty :: "'s \<Rightarrow> bool"
  op_size :: "'s \<Rightarrow> nat"

text \<open>The trait's default methods: \<open>is_empty\<close> is \<open>len() == 0\<close>, \<open>size\<close> is
  \<open>len() * size_of::<T>()\<close>.\<close>

definition default_is_empty :: "('s \<Rightarrow> nat) \<Rightarrow> 's \<Rightarrow> bool" where
  "default_is_empty len s \<longleftrightarrow> len s = 0"

definition default_size :: "nat \<Rightarrow> ('s \<Rightarrow> nat) \<Rightarrow> 's \<Rightarrow> nat" where
  "default_size esz len s = len s * esz"

text \<open>A device that has performed no transfer yet.\<close>

definition dev0 :: device where
  "dev0 = \<lparr>dev_log = []\<rparr>"

section \<open>Lemmas\<close>

lemma write_buffer_contents:
  "length bs \<le> length (buf_contents buf) \<Longrightarrow>
   buf_contents (snd (write_buffer dev buf 0 bs)) = bs @ drop (length bs) (buf_contents buf)"
  by (simp add: write_buffer_def)

lemma padded_size_ge: "n \<le> padded_size n"
  by (simp add: padded_size_def) linarith

text \<open>After \<open>upload_or_resize\<close> the buffer starts with the uploaded bytes, and the
  device performed exactly one transfer.\<close>

lemma upload_or_resize_prefix:
  assumes "length (buf_contents buf) = buf_size buf"
  shows "take (length bs) (buf_contents (snd (upload_or_resize dev buf bs))) = bs"
    and "buf_size (snd (upload_or_resize dev buf bs)) = length (buf_contents (snd (upload_or_resize dev buf bs)))"
    and "length bs \<le> buf_size (snd (upload_or_resize dev buf bs))"
  using assms padded_size_ge [of "length bs"]
  by (auto simp: upload_or_resize_def write_buffer_def create_buffer_init_def)

lemma upload_or_resize_log:
  "dev_log (fst (upload_or_resize dev buf bs)) =
     dev_log dev @ [if length bs \<le> buf_size buf then WriteBuffer 0 bs else CreateBufferInit bs]"
  by (simp add: upload_or_resize_def write_buffer_def create_buffer_init_def)

end
