(* ===== verification/Simple.thy ===== *)
theory Simple
  imports SlotMap FreeList GpuMemory
begin

unbundle bit_operations_syntax

text \<open>
  \<open>SimpleGpuMemory<T>\<close> of \<open>src/simple.rs\<close>: its state, its private helpers
  (\<open>fix_sequence\<close>, \<open>sort\<close>; the free-list helpers are in theory \<open>FreeList\<close>) and
  every method of its \<open>GpuMemory\<close> implementation. Each method is a function of the
  element size \<open>esz = size_of::<T>()\<close> where it uses it, of the state, and of the
  device where it talks to it; it returns the new state, or the panic the Rust code
  stops with. \<open>get\<close> returns the byte range that the \<open>&mut [T]\<close> it hands out
  aliases; writing an element through that view is \<open>set_elem\<close>.
\<close>

section \<open>State\<close>

record simple_gpu_memory =
  buffer :: device_buffer
  data :: "byte list"
  available_ranges :: "address_range list"
  used_ranges :: "address_range slot_map"
  allocated_count :: nat
  mutated :: bool

datatype strategy = Truncate | SortSizeDescending | SortSizeAscending

text \<open>\<open>impl Display for Strategy\<close>: the variant's name.\<close>

fun strategy_name :: "strategy \<Rightarrow> string" where
  "strategy_name Truncate = ''Truncate''"
| "strategy_name SortSizeDescending = ''SortSizeDescending''"
| "strategy_name SortSizeAscending = ''SortSizeAscending''"

section \<open>Private helpers\<close>

text \<open>\<open>fix_sequence\<close>: for each free range, from the last to the first, move every
  used range that starts at or after its end down by its length, then remove its
  bytes from \<open>data\<close> (\<open>Vec::drain\<close>, which panics on a range out of bounds).\<close>

definition shift_down :: "address_range \<Rightarrow> address_range \<Rightarrow> address_range" where
  "shift_down g u =
     (if r_end g \<le> r_start u then mk_range (r_start u - range_len g) (r_end u - range_len g) else u)"

fun drain_gaps :: "address_range list \<Rightarrow> address_range slot_map \<Rightarrow> byte list \<Rightarrow>
                   (address_range slot_map \<times> byte list) res" where
  "drain_gaps [] u d = Inr (u, d)"
| "drain_gaps (g # gs) u d =
     (if r_start g \<le> r_end g \<and> r_end g \<le> length d
      then drain_gaps gs (sm_map_values (shift_down g) u) (take (r_start g) d @ drop (r_end g) d)
      else Inl OutOfBounds)"

definition fix_sequence :: "simple_gpu_memory \<Rightarrow> simple_gpu_memory res" where
  "fix_sequence s =
     (case drain_gaps (rev (available_ranges s)) (used_ranges s) (data s) of
        Inl e \<Rightarrow> Inl e
      | Inr (u, d) \<Rightarrow> Inr (s\<lparr>available_ranges := [], used_ranges := u, data := d\<rparr>))"

text \<open>\<open>sort\<close>: the live handles, stably sorted by the key \<open>_sort_desc\<close>
  (\<open>-(len as isize)\<close>) or \<open>_sort_asc\<close> (\<open>len as isize\<close>), are copied one after the
  other into a new byte vector, each handle re-pointed at its copy.\<close>

definition sort_key_of :: "bool \<Rightarrow> key \<times> address_range \<Rightarrow> int" where
  "sort_key_of descending =
     (\<lambda>(k, r). if descending then - int (range_len r) else int (range_len r))"

fun copy_sorted :: "byte list \<Rightarrow> (key \<times> address_range) list \<Rightarrow> address_range slot_map \<Rightarrow>
                    byte list \<Rightarrow> (address_range slot_map \<times> byte list) res" where
  "copy_sorted old [] u nd = Inr (u, nd)"
| "copy_sorted old ((k, r) # kvs) u nd =
     (if r_start r \<le> r_end r \<and> r_end r \<le> length old
      then (let start = length nd; nd' = nd @ sub_slice old r in
            case sm_set k (mk_range start (length nd')) u of
              Inl e \<Rightarrow> Inl e
            | Inr u' \<Rightarrow> copy_sorted old kvs u' nd')
      else Inl OutOfBounds)"

definition sort_ranges :: "bool \<Rightarrow> simple_gpu_memory \<Rightarrow> simple_gpu_memory res" where
  "sort_ranges descending s =
     (case copy_sorted (data s) (sort_key (sort_key_of descending) (sm_iter (used_ranges s)))
             (used_ranges s) [] of
        Inl e \<Rightarrow> Inl e
      | Inr (u, nd) \<Rightarrow> Inr (s\<lparr>used_ranges := u, data := nd, available_ranges := []\<rparr>))"

section \<open>The \<open>GpuMemory\<close> methods\<close>

definition new_simple :: "nat \<Rightarrow> buffer_usages \<Rightarrow> device \<Rightarrow> device \<times> simple_gpu_memory" where
  "new_simple esz usages dev =
     (let (dev', buf) = create_buffer dev esz (usages OR COPY_DST)
      in (dev', \<lparr>buffer = buf, data = [], available_ranges = [], used_ranges = sm_new,
                 allocated_count = 0, mutated = False\<rparr>))"

text \<open>The range \<open>allocate\<close> hands out: the last free range that is long enough,
  whole if it fits exactly and otherwise its tail, the rest staying in the list;
  without such a range, \<open>sz\<close> zero bytes appended to \<open>data\<close>.\<close>

definition claim_range :: "nat \<Rightarrow> simple_gpu_memory \<Rightarrow> address_range \<times> simple_gpu_memory" where
  "claim_range sz s =
     (case last_fit sz (available_ranges s) of
        Some i \<Rightarrow>
          (let r = available_ranges s ! i in
           if range_len r \<noteq> sz
           then (mk_range (r_end r - sz) (r_end r),
                 s\<lparr>available_ranges := (available_ranges s)[i := r\<lparr>r_end := r_end r - sz\<rparr>]\<rparr>)
           else (r, s\<lparr>available_ranges := vec_remove i (available_ranges s)\<rparr>))
      | None \<Rightarrow>
          (mk_range (length (data s)) (length (data s) + sz),
           s\<lparr>data := data s @ replicate sz 0\<rparr>))"

definition allocate :: "nat \<Rightarrow> nat \<Rightarrow> simple_gpu_memory \<Rightarrow> key \<times> simple_gpu_memory" where
  "allocate esz cnt s =
     (let s = s\<lparr>mutated := True\<rparr>;
          (r, s) = claim_range (esz * cnt) s;
          s = s\<lparr>allocated_count := allocated_count s + cnt\<rparr>;
          (k, u) = sm_insert r (used_ranges s)
      in (k, s\<lparr>used_ranges := u\<rparr>))"

definition len :: "simple_gpu_memory \<Rightarrow> nat" where
  "len s = allocated_count s"

text \<open>\<open>get\<close>: the view \<open>&mut data[r.start..r.end]\<close> cast to \<open>&mut [T]\<close>; it panics on
  a key that is not live, on a range out of the bounds of \<open>data\<close>, and (in
  \<open>bytemuck::cast_slice_mut\<close>) on a zero-sized \<open>T\<close> or a length that is not a
  multiple of \<open>size_of::<T>()\<close>. The view is returned as the range it aliases.\<close>

definition get :: "nat \<Rightarrow> key \<Rightarrow> simple_gpu_memory \<Rightarrow> (simple_gpu_memory \<times> address_range) res" where
  "get esz k s =
     (let s = s\<lparr>mutated := True\<rparr> in
      case sm_get (used_ranges s) k of
        None \<Rightarrow> Inl InvalidKey
      | Some r \<Rightarrow>
          if r_start r \<le> r_end r \<and> r_end r \<le> length (data s)
          then (if esz = 0 \<or> range_len r mod esz \<noteq> 0 then Inl CastError else Inr (s, r))
          else Inl OutOfBounds)"

text \<open>\<open>mem.get(&k)[i] = x\<close>: an element written through the view; \<open>x\<close> is the
  \<open>size_of::<T>()\<close> bytes of a \<open>T\<close>, and an index past the view panics.\<close>

definition write_at :: "nat \<Rightarrow> byte list \<Rightarrow> byte list \<Rightarrow> byte list" where
  "write_at off x d = take off d @ x @ drop (off + length x) d"

definition set_elem :: "nat \<Rightarrow> key \<Rightarrow> nat \<Rightarrow> byte list \<Rightarrow> simple_gpu_memory \<Rightarrow> simple_gpu_memory res" where
  "set_elem esz k i x s =
     (case get esz k s of
        Inl e \<Rightarrow> Inl e
      | Inr (s', r) \<Rightarrow>
          if i < range_len r div esz
          then Inr (s'\<lparr>data := write_at (r_start r + i * esz) x (data s')\<rparr>)
          else Inl OutOfBounds)"

definition len_of :: "nat \<Rightarrow> key \<Rightarrow> simple_gpu_memory \<Rightarrow> nat res" where
  "len_of esz k s =
     (case sm_get (used_ranges s) k of
        None \<Rightarrow> Inl InvalidKey
      | Some r \<Rightarrow> if esz = 0 then Inl DivByZero else Inr (range_len r div esz))"

definition free :: "nat \<Rightarrow> key \<Rightarrow> simple_gpu_memory \<Rightarrow> simple_gpu_memory res" where
  "free esz k s =
     (let s = s\<lparr>mutated := True\<rparr> in
      case sm_remove k (used_ranges s) of
        (None, u) \<Rightarrow> Inr (s\<lparr>used_ranges := u\<rparr>)
      | (Some r, u) \<Rightarrow>
          if esz = 0 then Inl DivByZero
          else if allocated_count s < range_len r div esz then Inl Underflow
          else Inr (s\<lparr>used_ranges := u,
                      allocated_count := allocated_count s - range_len r div esz,
                      available_ranges := make_range_available r (available_ranges s)\<rparr>))"

text \<open>\<open>resize\<close>: growing frees the range and allocates a new one (the handle
  changes, the contents are not copied); shrinking returns the leading part of the
  range to the free list and keeps the trailing \<open>new_len\<close> elements.\<close>

definition resize :: "nat \<Rightarrow> key \<Rightarrow> nat \<Rightarrow> simple_gpu_memory \<Rightarrow> (key \<times> simple_gpu_memory) res" where
  "resize esz k new_len s =
     (let sz = new_len * esz in
      case sm_get (used_ranges s) k of
        None \<Rightarrow> Inl InvalidKey
      | Some r \<Rightarrow>
          if range_len r < sz then
            (case free esz k s of Inl e \<Rightarrow> Inl e | Inr s' \<Rightarrow> Inr (allocate esz new_len s'))
          else if range_len r = sz then Inr (k, s)
          else
            (let s = s\<lparr>mutated := True\<rparr>;
                 fr = mk_range (r_start r) (r_end r - sz) in
             if esz = 0 then Inl DivByZero
             else if allocated_count s < range_len fr div esz then Inl Underflow
             else
               (let s = s\<lparr>allocated_count := allocated_count s - range_len fr div esz,
                          available_ranges := make_range_available fr (available_ranges s)\<rparr> in
                case sm_set k (r\<lparr>r_start := r_end r - sz\<rparr>) (used_ranges s) of
                  Inl e \<Rightarrow> Inl e
                | Inr u \<Rightarrow> Inr (k, s\<lparr>used_ranges := u\<rparr>))))"

definition upload :: "device \<Rightarrow> simple_gpu_memory \<Rightarrow> (device \<times> simple_gpu_memory) res" where
  "upload dev s =
     (if \<not> mutated s then Inr (dev, s)
      else case fix_sequence s of
        Inl e \<Rightarrow> Inl e
      | Inr s' \<Rightarrow> (let (dev', buf) = upload_or_resize dev (buffer s') (data s')
                  in Inr (dev', s'\<lparr>buffer := buf, mutated := False\<rparr>)))"

text \<open>\<open>optimize\<close>: \<open>Truncate\<close> compacts and replaces the device buffer by one holding
  exactly the compacted bytes (\<open>shrink_to_fit\<close> only changes the vector's capacity);
  the two sort strategies rebuild \<open>data\<close> in size order.\<close>

definition optimize :: "strategy \<Rightarrow> device \<Rightarrow> simple_gpu_memory \<Rightarrow> (device \<times> simple_gpu_memory) res" where
  "optimize strat dev s =
     (case strat of
        Truncate \<Rightarrow>
          (case fix_sequence s of
             Inl e \<Rightarrow> Inl e
           | Inr s' \<Rightarrow>
               (let (dev', buf) = create_buffer_init dev (buf_usage (buffer s') OR COPY_DST) (data s')
                in Inr (dev', s'\<lparr>buffer := buf\<rparr>)))
      | SortSizeDescending \<Rightarrow>
          (case sort_ranges True s of Inl e \<Rightarrow> Inl e | Inr s' \<Rightarrow> Inr (dev, s'))
      | SortSizeAscending \<Rightarrow>
          (case sort_ranges False s of Inl e \<Rightarrow> Inl e | Inr s' \<Rightarrow> Inr (dev, s')))"

text \<open>\<open>buffer_slice\<close>: the slice \<open>..size()\<close> of the device buffer.\<close>

definition buffer_slice :: "nat \<Rightarrow> simple_gpu_memory \<Rightarrow> device_buffer \<times> nat" where
  "buffer_slice esz s = (buffer s, default_size esz len s)"

text \<open>The implementation as a value of the trait record.\<close>

definition simple_ops ::
  "nat \<Rightarrow> (simple_gpu_memory, key, strategy, address_range) gpu_memory_ops" where
  "simple_ops esz =
     \<lparr>op_mutated = mutated, op_allocate = allocate esz, op_get = get esz, op_len = len,
      op_len_of = len_of esz, op_resize = resize esz, op_free = free esz,
      op_upload = upload, op_optimize = optimize, op_buffer = buffer,
      op_is_empty = default_is_empty len, op_size = default_size esz len\<rparr>"

section \<open>Sequences of operations\<close>

text \<open>A caller's use of the allocator as a sequence of method calls (the tests of
  \<open>tests/simple_gpu_memory.rs\<close> are such sequences); a panic ends the run.\<close>

datatype op = Allocate nat | Get key | SetElem key nat "byte list" | LenOf key
  | Resize key nat | Free key | Upload | Optimize strategy

fun step :: "nat \<Rightarrow> device \<times> simple_gpu_memory \<Rightarrow> op \<Rightarrow> (device \<times> simple_gpu_memory) res" where
  "step esz (dev, s) (Allocate n) = Inr (dev, snd (allocate esz n s))"
| "step esz (dev, s) (Get k) = (case get esz k s of Inl e \<Rightarrow> Inl e | Inr (s', _) \<Rightarrow> Inr (dev, s'))"
| "step esz (dev, s) (SetElem k i x) =
     (case set_elem esz k i x s of Inl e \<Rightarrow> Inl e | Inr s' \<Rightarrow> Inr (dev, s'))"
| "step esz (dev, s) (LenOf k) = (case len_of esz k s of Inl e \<Rightarrow> Inl e | Inr _ \<Rightarrow> Inr (dev, s))"
| "step esz (dev, s) (Resize k n) =
     (case resize esz k n s of Inl e \<Rightarrow> Inl e | Inr (_, s') \<Rightarrow> Inr (dev, s'))"
| "step esz (dev, s) (Free k) = (case free esz k s of Inl e \<Rightarrow> Inl e | Inr s' \<Rightarrow> Inr (dev, s'))"
| "step esz (dev, s) Upload = upload dev s"
| "step esz (dev, s) (Optimize st) = optimize st dev s"

fun run :: "nat \<Rightarrow> device \<times> simple_gpu_memory \<Rightarrow> op list \<Rightarrow> (device \<times> simple_gpu_memory) res" where
  "run esz ds [] = Inr ds"
| "run esz ds (o1 # os) = (case step esz ds o1 of Inl e \<Rightarrow> Inl e | Inr ds' \<Rightarrow> run esz ds' os)"

end
