(* ===== verification/SizeInvariant.thy ===== *)
theory SizeInvariant
  imports Simple
begin

text \<open>
  The size invariant of \<open>SimpleGpuMemory\<close> (spec section 3 and the first testable
  property of section 8): \<open>allocated_count * size_of::<T>()\<close> is the total length of
  the live ranges, and every live range is a whole number of elements. It is stated
  over the multiset of live range lengths (\<open>live_lens\<close>), which compaction and sorting
  leave unchanged, and proved for every operation, then for every run of operations
  from \<open>new\<close>. Its consequences: \<open>size()\<close> is the number of live bytes and \<open>len()\<close>
  the sum of \<open>len_of\<close> over the live handles.
\<close>

text \<open>The lengths of the live ranges, as a multiset.\<close>

definition live_lens :: "address_range slot_map \<Rightarrow> nat multiset" where
  "live_lens u = image_mset range_len (mset (sm_values u))"

definition count_inv :: "nat \<Rightarrow> simple_gpu_memory \<Rightarrow> bool" where
  "count_inv esz s \<longleftrightarrow> sm_wf (used_ranges s) \<and>
     (\<forall>l \<in># live_lens (used_ranges s). esz dvd l) \<and>
     allocated_count s * esz = sum_mset (live_lens (used_ranges s))"

section \<open>Preservation by each operation\<close>

lemma sum_len_mset: "sum_len xs = (\<Sum>r \<in># mset xs. range_len r)"
  by (induction xs) auto

lemma sum_len_add_mset:
  "mset ys = add_mset x (mset xs) \<Longrightarrow> sum_len ys = range_len x + sum_len xs"
  by (simp add: sum_len_mset)

lemma sum_len_diff_mset:
  "mset ys = mset xs - {#x#} \<Longrightarrow> x \<in> set xs \<Longrightarrow> sum_len xs = range_len x + sum_len ys"
  by (simp add: sum_len_mset) (metis insert_DiffM sum_mset.insert in_multiset_in_set)

lemma claim_range_len: "range_len (fst (claim_range sz s)) = sz"
  by (auto simp: claim_range_def Let_def range_len_def dest!: last_fit_SomeD split: option.splits)

lemma claim_range_frame:
  "used_ranges (snd (claim_range sz s)) = used_ranges s"
  "allocated_count (snd (claim_range sz s)) = allocated_count s"
  "mutated (snd (claim_range sz s)) = mutated s"
  "buffer (snd (claim_range sz s)) = buffer s"
  by (auto simp: claim_range_def Let_def split: option.splits)

lemma allocate_eq:
  "allocate esz cnt s =
     (let (r, s1) = claim_range (esz * cnt) s; (k, u) = sm_insert r (used_ranges s)
      in (k, s1\<lparr>mutated := True, allocated_count := allocated_count s + cnt, used_ranges := u\<rparr>))"
  by (simp add: allocate_def claim_range_def Let_def split: option.splits prod.splits)


lemma sum_live_lens: "sum_mset (live_lens u) = sum_len (sm_values u)"
  by (simp add: live_lens_def sum_len_mset)

lemma live_lens_get: "sm_get u k = Some r \<Longrightarrow> range_len r \<in># live_lens u"
proof -
  assume "sm_get u k = Some r"
  then have "r \<in> set (sm_values u)" by (auto simp: in_sm_values)
  then show ?thesis by (simp add: live_lens_def)
qed

lemma count_inv_allocate:
  assumes "count_inv esz s"
  shows "count_inv esz (snd (allocate esz cnt s))"
proof -
  obtain r s1 where cr: "claim_range (esz * cnt) s = (r, s1)" by fastforce
  obtain k u where ins: "sm_insert r (used_ranges s) = (k, u)" by fastforce
  have s': "snd (allocate esz cnt s) = s1\<lparr>mutated := True, allocated_count := allocated_count s + cnt, used_ranges := u\<rparr>"
    by (simp add: allocate_eq cr ins)
  have len: "range_len r = esz * cnt" using claim_range_len [of "esz * cnt" s] cr by simp
  have wf: "sm_wf (used_ranges s)" using assms by (simp add: count_inv_def)
  have "live_lens u = add_mset (esz * cnt) (live_lens (used_ranges s))"
    using mset_sm_values_insert [OF wf ins] len by (simp add: live_lens_def)
  with assms sm_wf_insert [OF wf ins] show ?thesis
    by (auto simp: count_inv_def s' algebra_simps)
qed

lemma free_cases:
  "free esz k s =
     (case sm_remove k (used_ranges s) of
        (None, u) \<Rightarrow> Inr (s\<lparr>mutated := True, used_ranges := u\<rparr>)
      | (Some r, u) \<Rightarrow>
          if esz = 0 then Inl DivByZero
          else if allocated_count s < range_len r div esz then Inl Underflow
          else Inr (s\<lparr>mutated := True, used_ranges := u,
                      allocated_count := allocated_count s - range_len r div esz,
                      available_ranges := make_range_available r (available_ranges s)\<rparr>))"
  by (simp add: free_def split: option.splits prod.splits)

lemma free_Inr:
  assumes "free esz k s = Inr s'"
  shows "sm_get (used_ranges s') j = (if j = k then None else sm_get (used_ranges s) j)"
    and "available_ranges s' = (case sm_get (used_ranges s) k of
           None \<Rightarrow> available_ranges s | Some r \<Rightarrow> make_range_available r (available_ranges s))"
    and "data s' = data s" "buffer s' = buffer s" "mutated s'"
    and "sm_wf (used_ranges s) \<Longrightarrow> sm_wf (used_ranges s')"
proof -
  obtain xo u where rm: "sm_remove k (used_ranges s) = (xo, u)" by fastforce
  note g = sm_get_remove [OF rm]
  have fr: "used_ranges s' = u \<and> data s' = data s \<and> buffer s' = buffer s \<and> mutated s' \<and>
        available_ranges s' = (case xo of None \<Rightarrow> available_ranges s | Some r \<Rightarrow> make_range_available r (available_ranges s))"
    using assms rm by (cases xo) (auto simp: free_cases split: if_splits)
  then show "sm_get (used_ranges s') j = (if j = k then None else sm_get (used_ranges s) j)"
    and "available_ranges s' = (case sm_get (used_ranges s) k of
           None \<Rightarrow> available_ranges s | Some r \<Rightarrow> make_range_available r (available_ranges s))"
    and "data s' = data s" "buffer s' = buffer s" "mutated s'"
    using g by simp_all
  show "sm_wf (used_ranges s) \<Longrightarrow> sm_wf (used_ranges s')" using fr sm_wf_remove [OF _ rm] by simp
qed

lemma claim_range_data: "\<exists>m. data (snd (claim_range sz s)) = data s @ replicate m 0"
  by (auto simp: claim_range_def Let_def split: option.splits intro: exI [of _ 0])

lemma live_lens_remove:
  assumes "sm_remove k u = (Some r, u')"
  shows "live_lens u = add_mset (range_len r) (live_lens u')"
proof -
  have "sm_get u k = Some r" using sm_get_remove(2) [OF assms] by simp
  then have "r \<in># mset (sm_values u)" by (auto simp: in_sm_values)
  with mset_sm_values_remove [OF assms] show ?thesis
    by (simp add: live_lens_def image_mset_Diff)
qed

lemma count_inv_free:
  assumes "count_inv esz s" "free esz k s = Inr s'"
  shows "count_inv esz s'"
proof (cases "sm_remove k (used_ranges s)")
  case (Pair xo u)
  have wf: "sm_wf (used_ranges s)" using assms by (simp add: count_inv_def)
  show ?thesis
  proof (cases xo)
    case None
    with Pair have "u = used_ranges s" by (simp add: sm_remove_def split: option.splits)
    with assms Pair None show ?thesis by (auto simp: free_cases count_inv_def)
  next
    case (Some r)
    with Pair assms(2) have s': "s' = s\<lparr>mutated := True, used_ranges := u,
                      allocated_count := allocated_count s - range_len r div esz,
                      available_ranges := make_range_available r (available_ranges s)\<rparr>"
      by (auto simp: free_cases split: if_splits)
    have ll: "live_lens (used_ranges s) = add_mset (range_len r) (live_lens u)"
      using live_lens_remove Pair Some by simp
    have dvd: "esz dvd range_len r" using assms(1) ll by (simp add: count_inv_def)
    then have rl: "range_len r div esz * esz = range_len r" by simp
    with assms(1) ll sm_wf_remove [OF wf Pair] show ?thesis
      by (auto simp: count_inv_def s' diff_mult_distrib)
  qed
qed


lemma live_lens_set:
  assumes "sm_set k r' u = Inr u'" "sm_get u k = Some r"
  shows "live_lens u' = add_mset (range_len r') (live_lens u - {#range_len r#})"
proof -
  have "r \<in># mset (sm_values u)" using assms(2) by (auto simp: in_sm_values)
  with mset_sm_values_set [OF assms] show ?thesis
    by (simp add: live_lens_def image_mset_Diff)
qed

lemma resize_cases:
  "sm_get (used_ranges s) k = Some r \<Longrightarrow>
   resize esz k new_len s =
     (if range_len r < new_len * esz then
        (case free esz k s of Inl e \<Rightarrow> Inl e | Inr s' \<Rightarrow> Inr (allocate esz new_len s'))
      else if range_len r = new_len * esz then Inr (k, s)
      else if esz = 0 then Inl DivByZero
      else if allocated_count s < (r_end r - new_len * esz - r_start r) div esz then Inl Underflow
      else (case sm_set k (mk_range (r_end r - new_len * esz) (r_end r)) (used_ranges s) of
              Inl e \<Rightarrow> Inl e
            | Inr u \<Rightarrow> Inr (k, s\<lparr>mutated := True,
                 allocated_count := allocated_count s - (r_end r - new_len * esz - r_start r) div esz,
                 available_ranges := make_range_available (mk_range (r_start r) (r_end r - new_len * esz))
                                        (available_ranges s),
                 used_ranges := u\<rparr>)))"
  by (simp add: resize_def Let_def split: sum.splits)

lemma count_inv_resize:
  assumes "count_inv esz s" "resize esz k new_len s = Inr (k', s')"
  shows "count_inv esz s'"
proof -
  from assms(2) obtain r where get: "sm_get (used_ranges s) k = Some r"
    by (auto simp: resize_def Let_def split: option.splits)
  let ?sz = "new_len * esz"
  consider (grow) "range_len r < ?sz" | (same) "range_len r = ?sz" | (shrink) "?sz < range_len r"
    by linarith
  then show ?thesis
  proof cases
    case grow
    with assms(2) get obtain s1 where "free esz k s = Inr s1" "s' = snd (allocate esz new_len s1)"
      by (auto simp: resize_cases split: sum.splits)
    with assms(1) show ?thesis by (metis count_inv_free count_inv_allocate)
  next
    case same
    with assms get show ?thesis by (simp add: resize_cases)
  next
    case shrink
    let ?fl = "r_end r - ?sz - r_start r"
    from shrink have fl: "?fl = range_len r - ?sz" by (simp add: range_len_def)
    from shrink assms(2) get obtain u where esz: "0 < esz"
      and set: "sm_set k (mk_range (r_end r - ?sz) (r_end r)) (used_ranges s) = Inr u"
      and s': "s' = s\<lparr>mutated := True, allocated_count := allocated_count s - ?fl div esz,
                 available_ranges := make_range_available (mk_range (r_start r) (r_end r - ?sz))
                                        (available_ranges s),
                 used_ranges := u\<rparr>"
      by (auto simp: resize_cases split: if_splits sum.splits)
    have wf: "sm_wf (used_ranges s)" using assms(1) by (simp add: count_inv_def)
    have rin: "range_len r \<in># live_lens (used_ranges s)"
      using get by (rule live_lens_get)
    have ll: "live_lens u = add_mset ?sz (live_lens (used_ranges s) - {#range_len r#})"
      using live_lens_set [OF set get] shrink by (simp add: range_len_def)
    have dvdr: "esz dvd range_len r" using assms(1) rin by (simp add: count_inv_def)
    then have dvdf: "esz dvd ?fl" using fl by (simp add: dvd_diff_nat)
    then have flm: "?fl div esz * esz = ?fl" by simp
    have sum: "sum_mset (live_lens (used_ranges s)) = range_len r + sum_mset (live_lens (used_ranges s) - {#range_len r#})"
      using rin by (rule sum_mset.remove)
    have "\<forall>l \<in># live_lens u. esz dvd l"
      using assms(1) ll by (auto simp: count_inv_def dest: in_diffD)
    moreover have "(allocated_count s - ?fl div esz) * esz = sum_mset (live_lens u)"
      using assms(1) ll sum flm fl shrink by (simp add: count_inv_def diff_mult_distrib)
    ultimately show ?thesis
      using sm_wf_set [OF wf set] by (simp add: count_inv_def s')
  qed
qed


lemma range_len_shift_down [simp]: "range_len (shift_down g u) = range_len u"
  by (simp add: shift_down_def range_len_def)

lemma live_lens_map_values:
  "(\<And>r. range_len (f r) = range_len r) \<Longrightarrow> live_lens (sm_map_values f u) = live_lens u"
  by (simp add: live_lens_def image_mset.compositionality comp_def)

lemma drain_gaps_lens:
  "drain_gaps gs u d = Inr (u', d') \<Longrightarrow> live_lens u' = live_lens u \<and> sm_wf u' = sm_wf u"
proof (induction gs arbitrary: u d)
  case Nil
  then show ?case by simp
next
  case (Cons g gs)
  then show ?case
    by (auto simp: live_lens_map_values split: if_splits)
qed

lemma fix_sequence_lens:
  "fix_sequence s = Inr s' \<Longrightarrow>
   live_lens (used_ranges s') = live_lens (used_ranges s) \<and> sm_wf (used_ranges s') = sm_wf (used_ranges s)
   \<and> allocated_count s' = allocated_count s \<and> mutated s' = mutated s \<and> buffer s' = buffer s"
  by (auto simp: fix_sequence_def dest: drain_gaps_lens split: sum.splits)

lemma copy_sorted_lens:
  assumes "copy_sorted old kvs u nd = Inr (u', nd')" "distinct (map fst kvs)"
    and "\<forall>(k, r) \<in> set kvs. sm_get u k = Some r"
  shows "live_lens u' = live_lens u \<and> (sm_wf u \<longrightarrow> sm_wf u')"
  using assms
proof (induction old kvs u nd rule: copy_sorted.induct)
  case (1 old u nd)
  then show ?case by simp
next
  case (2 old k r kvs u nd)
  from "2.prems" have ok: "r_start r \<le> r_end r \<and> r_end r \<le> length old"
    by (auto split: if_splits)
  let ?nr = "mk_range (length nd) (length (nd @ sub_slice old r))"
  from "2.prems"(1) ok obtain u1 where set: "sm_set k ?nr u = Inr u1"
    and rest: "copy_sorted old kvs u1 (nd @ sub_slice old r) = Inr (u', nd')"
    by (auto simp: Let_def split: sum.splits)
  have get: "sm_get u k = Some r" using "2.prems"(3) by simp
  have "\<forall>(k', r') \<in> set kvs. sm_get u1 k' = Some r'"
    using "2.prems"(2,3) sm_set_Inr(1) [OF set] by (force simp: image_iff)
  with "2.IH" [OF ok refl refl set rest] "2.prems"(2)
  have ih: "live_lens u' = live_lens u1 \<and> (sm_wf u1 \<longrightarrow> sm_wf u')"
    by simp
  have "range_len ?nr = range_len r" using ok by (simp add: range_len_def)
  moreover have "range_len r \<in># live_lens u"
    using get by (rule live_lens_get)
  ultimately have "live_lens u1 = live_lens u"
    using live_lens_set [OF set get] by (simp add: insert_DiffM)
  with ih sm_wf_set [OF _ set] show ?case by auto
qed

lemma sort_ranges_lens:
  "sort_ranges descending s = Inr s' \<Longrightarrow>
   live_lens (used_ranges s') = live_lens (used_ranges s) \<and> (sm_wf (used_ranges s) \<longrightarrow> sm_wf (used_ranges s'))
   \<and> allocated_count s' = allocated_count s \<and> mutated s' = mutated s \<and> buffer s' = buffer s"
proof -
  assume a: "sort_ranges descending s = Inr s'"
  let ?kvs = "sort_key (sort_key_of descending) (sm_iter (used_ranges s))"
  from a obtain u nd where c: "copy_sorted (data s) ?kvs (used_ranges s) [] = Inr (u, nd)"
    and s': "s' = s\<lparr>used_ranges := u, data := nd, available_ranges := []\<rparr>"
    by (auto simp: sort_ranges_def split: sum.splits)
  have "distinct (map fst ?kvs)"
    using distinct_sm_iter by (metis mset_eq_imp_distinct_iff mset_map mset_sort)
  moreover have "\<forall>(k, r) \<in> set ?kvs. sm_get (used_ranges s) k = Some r"
    by (auto simp: in_sm_iter)
  ultimately show ?thesis using copy_sorted_lens [OF c] s' by simp
qed


lemma get_Inr: "get esz k s = Inr (s', r) \<Longrightarrow> s' = s\<lparr>mutated := True\<rparr> \<and> sm_get (used_ranges s) k = Some r
   \<and> range_wf r \<and> r_end r \<le> length (data s) \<and> 0 < esz \<and> esz dvd range_len r"
  by (auto simp: get_def Let_def range_wf_def split: option.splits if_splits)

lemma set_elem_Inr:
  "set_elem esz k i x s = Inr s' \<Longrightarrow>
   \<exists>r. sm_get (used_ranges s) k = Some r \<and> range_wf r \<and> r_end r \<le> length (data s) \<and> 0 < esz
     \<and> i < range_len r div esz
     \<and> s' = s\<lparr>mutated := True, data := write_at (r_start r + i * esz) x (data s)\<rparr>"
  by (auto simp: set_elem_def dest!: get_Inr split: sum.splits if_splits)

lemma upload_Inr:
  "upload dev s = Inr (dev', s') \<Longrightarrow>
   (\<not> mutated s \<and> dev' = dev \<and> s' = s) \<or>
   (mutated s \<and> (\<exists>s1 buf. fix_sequence s = Inr s1 \<and> (dev', buf) = upload_or_resize dev (buffer s1) (data s1)
      \<and> s' = s1\<lparr>buffer := buf, mutated := False\<rparr>))"
  by (auto simp: upload_def split: if_splits sum.splits prod.splits)

lemma optimize_Inr:
  "optimize st dev s = Inr (dev', s') \<Longrightarrow>
   (\<exists>s1 buf. fix_sequence s = Inr s1 \<and> st = Truncate \<and> s' = s1\<lparr>buffer := buf\<rparr>) \<or>
   (\<exists>b. sort_ranges b s = Inr s' \<and> dev' = dev)"
  by (cases st) (auto simp: optimize_def split: sum.splits prod.splits)

lemma count_inv_step:
  assumes "count_inv esz s" "step esz (dev, s) o1 = Inr (dev', s')"
  shows "count_inv esz s'"
proof (cases o1)
  case (Allocate n)
  with assms show ?thesis by (auto intro: count_inv_allocate)
next
  case (Get k)
  with assms show ?thesis by (auto simp: count_inv_def dest!: get_Inr split: sum.splits)
next
  case (SetElem k i x)
  with assms show ?thesis by (auto simp: count_inv_def dest!: set_elem_Inr split: sum.splits)
next
  case (LenOf k)
  with assms show ?thesis by (auto split: sum.splits)
next
  case (Resize k n)
  with assms show ?thesis by (auto intro: count_inv_resize split: sum.splits)
next
  case (Free k)
  with assms show ?thesis by (auto intro: count_inv_free split: sum.splits)
next
  case Upload
  with assms show ?thesis
    by (auto simp: count_inv_def dest!: upload_Inr fix_sequence_lens)
next
  case (Optimize st)
  with assms show ?thesis
    by (auto simp: count_inv_def dest!: optimize_Inr fix_sequence_lens sort_ranges_lens)
qed

lemma count_inv_run:
  "count_inv esz (snd ds) \<Longrightarrow> run esz ds ops = Inr ds' \<Longrightarrow> count_inv esz (snd ds')"
proof (induction ops arbitrary: ds)
  case Nil
  then show ?case by simp
next
  case (Cons o1 ops)
  obtain dev s where ds: "ds = (dev, s)" by fastforce
  from Cons.prems obtain ds1 where st: "step esz ds o1 = Inr ds1" and r: "run esz ds1 ops = Inr ds'"
    by (auto split: sum.splits)
  obtain dev1 s1 where ds1: "ds1 = (dev1, s1)" by fastforce
  have "count_inv esz s1" using count_inv_step Cons.prems(1) st ds ds1 by simp
  then show ?case using Cons.IH [of ds1] r ds1 by simp
qed

lemma count_inv_new: "count_inv esz (snd (new_simple esz usages dev))"
  by (simp add: count_inv_def new_simple_def create_buffer_def live_lens_def sm_values_def sm_iter_def
      sm_new_def sm_wf_def)

section \<open>Consequences\<close>

lemma count_inv_size:
  "count_inv esz s \<Longrightarrow> default_size esz len s = sum_len (sm_values (used_ranges s))"
  by (simp add: count_inv_def default_size_def len_def sum_live_lens)

lemma count_inv_len:
  assumes "count_inv esz s" "0 < esz"
  shows "len s = (\<Sum>r \<leftarrow> sm_values (used_ranges s). range_len r div esz)"
proof -
  have dv: "\<forall>r \<in> set (sm_values (used_ranges s)). esz dvd range_len r"
    using assms(1) by (auto simp: count_inv_def live_lens_def)
  have "(\<Sum>r \<leftarrow> xs. range_len r div esz) * esz = sum_len xs"
    if "\<forall>r \<in> set xs. esz dvd range_len r" for xs
    using that by (induction xs) (auto simp: algebra_simps)
  with dv have "(\<Sum>r \<leftarrow> sm_values (used_ranges s). range_len r div esz) * esz = allocated_count s * esz"
    using assms(1) by (simp add: count_inv_def sum_live_lens)
  with assms(2) show ?thesis by (simp add: len_def)
qed

lemma live_len_le_count:
  assumes "count_inv esz s" "sm_get (used_ranges s) k = Some r"
  shows "range_len r \<le> allocated_count s * esz"
proof -
  have "range_len r \<in># live_lens (used_ranges s)" using assms(2) by (rule live_lens_get)
  then have "range_len r \<le> sum_mset (live_lens (used_ranges s))"
    using sum_mset.remove [of "range_len r" "live_lens (used_ranges s)"] by simp
  with assms(1) show ?thesis by (simp add: count_inv_def)
qed

lemma live_div_le_count:
  assumes "count_inv esz s" "sm_get (used_ranges s) k = Some r" "0 < esz"
  shows "(r_end r - sz - r_start r) div esz \<le> allocated_count s"
proof -
  have "r_end r - sz - r_start r \<le> range_len r" by (simp add: range_len_def)
  then have "(r_end r - sz - r_start r) div esz \<le> range_len r div esz" by (rule div_le_mono)
  also have "\<dots> \<le> allocated_count s * esz div esz"
    using live_len_le_count [OF assms(1,2)] by (rule div_le_mono)
  finally show ?thesis using assms(3) by simp
qed

lemma len_of_live:
  "sm_get (used_ranges s) k = Some r \<Longrightarrow> 0 < esz \<Longrightarrow> len_of esz k s = Inr (range_len r div esz)"
  by (simp add: len_of_def)

text \<open>C2: after any run from a new allocator, \<open>size()\<close> is the number of live bytes.\<close>

theorem size_is_live_bytes:
  assumes "run esz (new_simple esz usages dev) ops = Inr (dev', s)"
  shows "default_size esz len s = sum_len (sm_values (used_ranges s))"
proof -
  obtain d0 s0 where n: "new_simple esz usages dev = (d0, s0)" by fastforce
  have "count_inv esz s0" using count_inv_new [of esz usages dev] n by simp
  with count_inv_run [of esz "(d0, s0)" ops "(dev', s)"] assms n have "count_inv esz s" by simp
  then show ?thesis by (rule count_inv_size)
qed

theorem size_is_live_bytes_witness:
  "case run 4 (new_simple 4 0 dev0) [Allocate 1, Allocate 3, Resize (Key 1 1) 1, Free (Key 0 1)] of
     Inr (d, s) \<Rightarrow> default_size 4 len s = sum_len (sm_values (used_ranges s)) \<and> default_size 4 len s = 4
   | Inl _ \<Rightarrow> False"
proof -
  let ?r = "run 4 (new_simple 4 0 dev0) [Allocate 1, Allocate 3, Resize (Key 1 1) 1, Free (Key 0 1)]"
  have ev: "case ?r of Inr (d, s) \<Rightarrow> sum_len (sm_values (used_ranges s)) = 4 | Inl _ \<Rightarrow> False"
    by code_simp
  then obtain d s where r: "?r = Inr (d, s)" by (auto split: sum.splits)
  with ev size_is_live_bytes [OF r] show ?thesis by simp
qed


text \<open>C3: after any run from a new allocator, \<open>len()\<close> is the sum of \<open>len_of\<close> over
  the live handles, each of which \<open>len_of\<close> answers without panicking.\<close>

theorem len_is_sum_of_len_of:
  assumes "run esz (new_simple esz usages dev) ops = Inr (dev', s)" "0 < esz"
  shows "(\<forall>k \<in> set (map fst (sm_iter (used_ranges s))). \<exists>n. len_of esz k s = Inr n) \<and>
         len s = (\<Sum>k \<leftarrow> map fst (sm_iter (used_ranges s)). case len_of esz k s of Inr n \<Rightarrow> n | Inl _ \<Rightarrow> 0)"
proof -
  obtain d0 s0 where n: "new_simple esz usages dev = (d0, s0)" by fastforce
  have "count_inv esz s0" using count_inv_new [of esz usages dev] n by simp
  with count_inv_run [of esz "(d0, s0)" ops "(dev', s)"] assms n have inv: "count_inv esz s" by simp
  let ?xs = "sm_iter (used_ranges s)"
  have live: "\<And>k r. (k, r) \<in> set ?xs \<Longrightarrow> len_of esz k s = Inr (range_len r div esz)"
    using assms(2) by (simp add: in_sm_iter len_of_live)
  have "(\<Sum>k \<leftarrow> map fst ?xs. case len_of esz k s of Inr n \<Rightarrow> n | Inl _ \<Rightarrow> 0)
        = (\<Sum>kr \<leftarrow> ?xs. range_len (snd kr) div esz)"
    by (simp add: comp_def) (rule arg_cong [where f = sum_list], rule map_cong, auto simp: live)
  also have "\<dots> = len s"
    using count_inv_len [OF inv assms(2)] by (simp add: sm_values_def comp_def)
  finally show ?thesis using live by auto
qed

theorem len_is_sum_of_len_of_witness:
  "case run 4 (new_simple 4 0 dev0) [Allocate 2, Allocate 3, Free (Key 0 1), Allocate 1] of
     Inr (d, s) \<Rightarrow>
       (\<forall>k \<in> set (map fst (sm_iter (used_ranges s))). \<exists>n. len_of 4 k s = Inr n) \<and>
       len s = (\<Sum>k \<leftarrow> map fst (sm_iter (used_ranges s)). case len_of 4 k s of Inr n \<Rightarrow> n | Inl _ \<Rightarrow> 0)
       \<and> len s = 4
   | Inl _ \<Rightarrow> False"
proof -
  let ?r = "run 4 (new_simple 4 0 dev0) [Allocate 2, Allocate 3, Free (Key 0 1), Allocate 1]"
  have ev: "case ?r of Inr (d, s) \<Rightarrow> len s = 4 | Inl _ \<Rightarrow> False"
    by code_simp
  then obtain d s where r: "?r = Inr (d, s)" by (auto split: sum.splits)
  have "(0::nat) < 4" by simp
  with ev r len_is_sum_of_len_of [OF r] show ?thesis by simp
qed

end
