(* ===== verification/Layout.thy ===== *)
theory Layout
  imports SizeInvariant
begin

text \<open>
  The layout invariant of \<open>SimpleGpuMemory\<close> (spec section 3: the live ranges and
  the free ranges partition \<open>data\<close>) and the functional correctness it buys:
  compaction (\<open>fix_sequence\<close>, used by \<open>upload\<close> and \<open>Truncate\<close>) keeps every
  handle's bytes, \<open>upload\<close> puts them on the device, writing an element through one
  handle is invisible through every other handle, and \<open>allocate\<close> hands out a range
  that overlaps nothing. The invariant holds for \<open>new\<close> and is kept by every method
  except \<open>free\<close> and a shrinking \<open>resize\<close> on a non-empty free list: there
  \<open>make_range_available\<close> may merge a free range across a live one (theory
  \<open>Spec2Isabelle\<close> shows it happening); theory \<open>Runs\<close> states the run-level results
  for runs in which those calls find the free list empty, as it is after every
  \<open>upload\<close>.
\<close>

section \<open>The invariant\<close>

text \<open>A multiset of ranges no two of which overlap (an empty range at the boundary of
  another does not overlap it).\<close>

definition disj_mset :: "address_range multiset \<Rightarrow> bool" where
  "disj_mset M \<longleftrightarrow> (\<forall>x \<in># M. \<forall>y \<in># M - {#x#}. range_disj x y)"

text \<open>The layout invariant: the slot map is well formed; every live and every free
  range is well formed and inside \<open>data\<close>; the free list is sorted by address; no two
  of the ranges, live or free, overlap; together they cover \<open>data\<close> exactly (their
  lengths add up to its length); and the device buffer's contents have its size.\<close>

definition layout_inv :: "simple_gpu_memory \<Rightarrow> bool" where
  "layout_inv s \<longleftrightarrow> sm_wf (used_ranges s) \<and>
     ranges_in (length (data s)) (sm_values (used_ranges s) @ available_ranges s) \<and>
     sorted_wrt range_before (available_ranges s) \<and>
     disj_mset (mset (sm_values (used_ranges s)) + mset (available_ranges s)) \<and>
     sum_len (sm_values (used_ranges s)) + sum_len (available_ranges s) = length (data s) \<and>
     length (buf_contents (buffer s)) = buf_size (buffer s)"

text \<open>The same conditions on a multiset \<open>V\<close> of live ranges, a free list \<open>F\<close> and a
  length \<open>n\<close>, for the proofs about the free list.\<close>

definition layout_parts :: "nat \<Rightarrow> address_range multiset \<Rightarrow> address_range list \<Rightarrow> bool" where
  "layout_parts n V F \<longleftrightarrow> (\<forall>r \<in># V. range_wf r \<and> r_end r \<le> n) \<and> ranges_in n F \<and>
     sorted_wrt range_before F \<and> disj_mset (V + mset F) \<and> (\<Sum>r \<in># V. range_len r) + sum_len F = n"

section \<open>Compaction\<close>

text \<open>Facts on one gap of \<open>fix_sequence\<close>.\<close>

lemma shift_down_below: "r_end r \<le> r_start g \<Longrightarrow> range_len g = 0 \<or> \<not> r_end g \<le> r_start r \<Longrightarrow> shift_down g r = r"
  by (auto simp: shift_down_def range_len_def)

lemma shift_down_gap:
  assumes "range_disj g r" "range_wf g" "range_wf r" "r_end g \<le> length d" "r_end r \<le> length d"
  defines "d1 \<equiv> take (r_start g) d @ drop (r_end g) d"
  shows "sub_slice d1 (shift_down g r) = sub_slice d r"
    and "range_wf (shift_down g r)"
    and "r_end (shift_down g r) \<le> length d1"
    and "\<And>g'. range_before g' g \<Longrightarrow> range_before g' r \<Longrightarrow> range_before g' (shift_down g r)"
    and "\<And>g'. range_before g' g \<Longrightarrow> range_disj g' r \<Longrightarrow> range_disj g' (shift_down g r)"
proof -
  have ld1: "length d1 = length d - range_len g"
    using assms(2,4) by (simp add: d1_def range_len_def range_wf_def)
  consider (above) "r_end g \<le> r_start r" | (below) "\<not> r_end g \<le> r_start r" "r_end r \<le> r_start g"
    using assms(1) by (auto simp: range_disj_def)
  then have all: "sub_slice d1 (shift_down g r) = sub_slice d r \<and> range_wf (shift_down g r) \<and>
    r_end (shift_down g r) \<le> length d1 \<and>
    (\<forall>g'. range_before g' g \<longrightarrow> range_disj g' r \<longrightarrow> range_disj g' (shift_down g r)) \<and>
    (\<forall>g'. range_before g' g \<longrightarrow> range_before g' r \<longrightarrow> range_before g' (shift_down g r))"
  proof cases
    case above
    then have sd: "shift_down g r = mk_range (r_start r - range_len g) (r_end r - range_len g)"
      by (simp add: shift_down_def)
    have "sub_slice d1 (shift_down g r) = sub_slice d r"
      unfolding sd d1_def using above assms(2,4) by (rule sub_slice_drain_above)
    moreover have "range_wf (shift_down g r)" using assms(3) above
      by (simp add: sd range_wf_def range_len_def)
    moreover have "r_end (shift_down g r) \<le> length d1"
      using assms(5) ld1 by (simp add: sd)
    moreover have "range_before g' (shift_down g r)" if "range_before g' g" for g'
      using that above assms(2,3) by (simp add: sd range_before_def range_len_def range_wf_def)
    ultimately show ?thesis by (simp add: range_disj_def range_before_def)
  next
    case below
    then have sd: "shift_down g r = r" by (simp add: shift_down_def)
    have "sub_slice d1 r = sub_slice d r"
      unfolding d1_def using below(2) by (rule sub_slice_drain_below) (use assms(2,4) in \<open>simp add: range_wf_def\<close>)
    moreover have "r_end r \<le> length d1"
      using below assms(2,4) by (simp add: ld1 range_len_def range_wf_def)
    ultimately show ?thesis using assms(3) by (simp add: sd)
  qed
  then show "sub_slice d1 (shift_down g r) = sub_slice d r" "range_wf (shift_down g r)"
    "r_end (shift_down g r) \<le> length d1"
    "\<And>g'. range_before g' g \<Longrightarrow> range_before g' r \<Longrightarrow> range_before g' (shift_down g r)"
    "\<And>g'. range_before g' g \<Longrightarrow> range_disj g' r \<Longrightarrow> range_disj g' (shift_down g r)"
    by blast+
qed

lemma shift_down_disj:
  assumes "range_disj g r1" "range_disj g r2" "range_disj r1 r2" "range_wf g" "range_wf r1" "range_wf r2"
  shows "range_disj (shift_down g r1) (shift_down g r2)"
  using assms by (auto simp: shift_down_def range_disj_def range_len_def range_wf_def)

lemma drain_gaps_correct:
  assumes "sorted_wrt (\<lambda>a b. range_before b a) gs" "ranges_in (length d) gs"
    and "\<forall>r \<in> set (sm_values u). range_wf r \<and> r_end r \<le> length d \<and> (\<forall>g \<in> set gs. range_disj g r)"
  shows "\<exists>f d'. drain_gaps gs u d = Inr (sm_map_values f u, d') \<and> length d' = length d - sum_len gs \<and>
     (\<forall>r \<in> set (sm_values u). sub_slice d' (f r) = sub_slice d r \<and> range_wf (f r) \<and>
        r_end (f r) \<le> length d' \<and> range_len (f r) = range_len r) \<and>
     (\<forall>r1 \<in> set (sm_values u). \<forall>r2 \<in> set (sm_values u). range_disj r1 r2 \<longrightarrow> range_disj (f r1) (f r2))"
  using assms
proof (induction gs arbitrary: u d)
  case Nil
  then show ?case by (intro exI [of _ id]) auto
next
  case (Cons g gs)
  let ?u1 = "sm_map_values (shift_down g) u"
  let ?d1 = "take (r_start g) d @ drop (r_end g) d"
  have g: "range_wf g" "r_end g \<le> length d" using Cons.prems(2) by (auto simp: ranges_in_def)
  have below: "\<forall>g' \<in> set gs. range_before g' g" using Cons.prems(1) by simp
  have ld1: "length ?d1 = length d - range_len g"
    using g by (simp add: range_len_def range_wf_def)
  have h1: "sorted_wrt (\<lambda>a b. range_before b a) gs" using Cons.prems(1) by simp
  have h2: "ranges_in (length ?d1) gs"
    using Cons.prems(2) below g by (auto simp: ranges_in_def range_before_def range_wf_def ld1 range_len_def)
  have h3: "\<forall>r \<in> set (sm_values ?u1). range_wf r \<and> r_end r \<le> length ?d1 \<and> (\<forall>g' \<in> set gs. range_disj g' r)"
    using Cons.prems(3) below shift_down_gap [OF _ g(1) _ g(2)] by auto
  from Cons.IH [OF h1 h2 h3] obtain f d' where
    dr: "drain_gaps gs ?u1 ?d1 = Inr (sm_map_values f ?u1, d')"
    and len: "length d' = length ?d1 - sum_len gs"
    and pt: "\<forall>r \<in> set (sm_values ?u1). sub_slice d' (f r) = sub_slice ?d1 r \<and> range_wf (f r) \<and>
        r_end (f r) \<le> length d' \<and> range_len (f r) = range_len r"
    and pw: "\<forall>r1 \<in> set (sm_values ?u1). \<forall>r2 \<in> set (sm_values ?u1). range_disj r1 r2 \<longrightarrow> range_disj (f r1) (f r2)"
    by blast
  show ?case
  proof (intro exI conjI)
    show "drain_gaps (g # gs) u d = Inr (sm_map_values (f \<circ> shift_down g) u, d')"
      using g dr by (simp add: range_wf_def)
    show "length d' = length d - sum_len (g # gs)" using len ld1 by simp
    show "\<forall>r \<in> set (sm_values u). sub_slice d' ((f \<circ> shift_down g) r) = sub_slice d r \<and>
        range_wf ((f \<circ> shift_down g) r) \<and> r_end ((f \<circ> shift_down g) r) \<le> length d' \<and>
        range_len ((f \<circ> shift_down g) r) = range_len r"
      using pt Cons.prems(3) shift_down_gap(1) [OF _ g(1) _ g(2)] by auto
    show "\<forall>r1 \<in> set (sm_values u). \<forall>r2 \<in> set (sm_values u).
        range_disj r1 r2 \<longrightarrow> range_disj ((f \<circ> shift_down g) r1) ((f \<circ> shift_down g) r2)"
      using pw Cons.prems(3) g(1) by (auto intro!: shift_down_disj)
  qed
qed

lemma disj_mset_add:
  "disj_mset (add_mset x M) \<longleftrightarrow> disj_mset M \<and> (\<forall>y \<in># M. range_disj x y)"
proof
  assume a: "disj_mset (add_mset x M)"
  have "\<forall>y \<in># M. range_disj x y" using a by (simp add: disj_mset_def)
  moreover have "disj_mset M"
    unfolding disj_mset_def
  proof (intro ballI)
    fix y z assume y: "y \<in># M" and z: "z \<in># M - {#y#}"
    have "y \<in># add_mset x M" using y by simp
    moreover have "z \<in># add_mset x M - {#y#}"
      using y z by simp
    ultimately show "range_disj y z" using a unfolding disj_mset_def by blast
  qed
  ultimately show "disj_mset M \<and> (\<forall>y \<in># M. range_disj x y)" by simp
next
  assume a: "disj_mset M \<and> (\<forall>y \<in># M. range_disj x y)"
  show "disj_mset (add_mset x M)"
    unfolding disj_mset_def
  proof (intro ballI)
    fix y z assume y: "y \<in># add_mset x M" and z: "z \<in># add_mset x M - {#y#}"
    show "range_disj y z"
    proof (cases "y = x")
      case True
      with z a show ?thesis by simp
    next
      case False
      with y have yM: "y \<in># M" by simp
      with False z have "z = x \<or> z \<in># M - {#y#}"
        by (metis diff_union_swap2 insert_iff set_mset_add_mset_insert)
      with a yM show ?thesis using range_disj_sym by (auto simp: disj_mset_def)
    qed
  qed
qed

lemma disj_mset_union_left: "disj_mset (A + B) \<Longrightarrow> disj_mset A"
  by (induction B) (simp_all add: disj_mset_add)

lemma disj_mset_union_cross: "disj_mset (A + B) \<Longrightarrow> x \<in># A \<Longrightarrow> y \<in># B \<Longrightarrow> range_disj x y"
proof (induction B)
  case empty
  then show ?case by simp
next
  case (add b B)
  then show ?case using range_disj_sym by (auto simp: disj_mset_add)
qed

lemma disj_mset_map:
  "disj_mset (mset xs) \<Longrightarrow> (\<forall>r1 \<in> set xs. \<forall>r2 \<in> set xs. range_disj r1 r2 \<longrightarrow> range_disj (f r1) (f r2)) \<Longrightarrow>
   disj_mset (mset (map f xs))"
  by (induction xs) (auto simp: disj_mset_add)

text \<open>Compaction is correct on a state whose ranges partition \<open>data\<close>: it succeeds,
  empties the free list, leaves exactly the live bytes, keeps the invariant, and every
  live handle sees the bytes it saw before.\<close>

lemma fix_sequence_correct:
  assumes "layout_inv s"
  shows "\<exists>s'. fix_sequence s = Inr s' \<and> available_ranges s' = [] \<and>
     length (data s') = sum_len (sm_values (used_ranges s)) \<and> layout_inv s' \<and>
     (\<forall>k r. sm_get (used_ranges s) k = Some r \<longrightarrow>
        (\<exists>r'. sm_get (used_ranges s') k = Some r' \<and> sub_slice (data s') r' = sub_slice (data s) r)) \<and>
     (\<forall>k. sm_get (used_ranges s') k = None \<longleftrightarrow> sm_get (used_ranges s) k = None) \<and>
     buffer s' = buffer s \<and> allocated_count s' = allocated_count s \<and> mutated s' = mutated s \<and>
     live_lens (used_ranges s') = live_lens (used_ranges s)"
proof -
  let ?u = "used_ranges s" and ?fr = "available_ranges s" and ?d = "data s"
  have inv: "sm_wf ?u" "ranges_in (length ?d) (sm_values ?u @ ?fr)" "sorted_wrt range_before ?fr"
    "disj_mset (mset (sm_values ?u) + mset ?fr)" "sum_len (sm_values ?u) + sum_len ?fr = length ?d"
    "length (buf_contents (buffer s)) = buf_size (buffer s)"
    using assms by (simp_all add: layout_inv_def)
  have h1: "sorted_wrt (\<lambda>a b. range_before b a) (rev ?fr)"
    using inv(3) by (simp add: sorted_wrt_rev)
  have h2: "ranges_in (length ?d) (rev ?fr)" using inv(2) by (simp add: ranges_in_def)
  have h3: "\<forall>r \<in> set (sm_values ?u). range_wf r \<and> r_end r \<le> length ?d \<and> (\<forall>g \<in> set (rev ?fr). range_disj g r)"
    using inv(2) disj_mset_union_cross [OF inv(4)] range_disj_sym by (auto simp: ranges_in_def)
  obtain f d' where dr: "drain_gaps (rev ?fr) ?u ?d = Inr (sm_map_values f ?u, d')"
    and len: "length d' = length ?d - sum_len (rev ?fr)"
    and pt: "\<forall>r \<in> set (sm_values ?u). sub_slice d' (f r) = sub_slice ?d r \<and> range_wf (f r) \<and>
        r_end (f r) \<le> length d' \<and> range_len (f r) = range_len r"
    and pw: "\<forall>r1 \<in> set (sm_values ?u). \<forall>r2 \<in> set (sm_values ?u). range_disj r1 r2 \<longrightarrow> range_disj (f r1) (f r2)"
    using drain_gaps_correct [OF h1 h2 h3] by blast
  let ?s' = "s\<lparr>available_ranges := [], used_ranges := sm_map_values f ?u, data := d'\<rparr>"
  have fs: "fix_sequence s = Inr ?s'" using dr by (simp add: fix_sequence_def)
  have ld: "length d' = sum_len (sm_values ?u)" using len inv(5) by simp
  have "layout_inv ?s'"
  proof -
    have "disj_mset (mset (map f (sm_values ?u)))"
      using disj_mset_map [OF disj_mset_union_left [OF inv(4)] pw] .
    moreover have "sum_len (map f (sm_values ?u)) = length d'"
      using pt ld by (simp add: sum_len_map_len)
    ultimately show ?thesis
      using inv(1,6) pt by (auto simp: layout_inv_def ranges_in_def)
  qed
  moreover have "live_lens (sm_map_values f ?u) = live_lens ?u"
  proof -
    have "map (range_len \<circ> f) (sm_values ?u) = map range_len (sm_values ?u)"
      using pt by (intro map_cong) auto
    then show ?thesis
      by (simp only: live_lens_def sm_values_map_values mset_map [symmetric] map_map)
  qed
  ultimately show ?thesis
    using fs ld pt by (auto intro!: exI [of _ ?s'] simp: in_sm_values)
qed

section \<open>Handles and element writes\<close>

lemma layout_keys_disj:
  assumes "layout_inv s" "sm_get (used_ranges s) k1 = Some a" "sm_get (used_ranges s) k2 = Some b" "k1 \<noteq> k2"
  shows "range_disj a b"
proof -
  let ?V = "mset (sm_values (used_ranges s))" and ?F = "mset (available_ranges s)"
  have aV: "a \<in># ?V" using assms(2) by (auto simp: in_sm_values)
  then have "?V + ?F - {#a#} = (?V - {#a#}) + ?F" by (metis add.commute diff_union_single_conv)
  then have "b \<in># ?V + ?F - {#a#}" using sm_get_pair_mset [OF assms(2-4)] by simp
  moreover have "a \<in># ?V + ?F" using aV by simp
  ultimately show ?thesis using assms(1) by (auto simp: layout_inv_def disj_mset_def)
qed

lemma layout_get_bounds:
  "layout_inv s \<Longrightarrow> sm_get (used_ranges s) k = Some r \<Longrightarrow> range_wf r \<and> r_end r \<le> length (data s)"
proof -
  assume "layout_inv s" "sm_get (used_ranges s) k = Some r"
  moreover have "r \<in> set (sm_values (used_ranges s))" using calculation(2) by (auto simp: in_sm_values)
  ultimately show ?thesis by (simp add: layout_inv_def ranges_in_def)
qed

lemma length_write_at [simp]: "off + length x \<le> length d \<Longrightarrow> length (write_at off x d) = length d"
  by (simp add: write_at_def)

lemma sub_slice_write_at_here:
  "off + length x \<le> length d \<Longrightarrow> sub_slice (write_at off x d) (mk_range off (off + length x)) = x"
  by (simp add: write_at_def sub_slice_def)

lemma sub_slice_write_at_outside:
  assumes "range_disj r (mk_range off (off + length x))" "off + length x \<le> length d"
  shows "sub_slice (write_at off x d) r = sub_slice d r"
proof (cases "r_end r \<le> off")
  case True
  then have "sub_slice ((take off d) @ (x @ drop (off + length x) d)) r = sub_slice (take off d) r"
    using assms(2) by (intro sub_slice_append_left) simp
  with True show ?thesis by (simp add: write_at_def)
next
  case False
  with assms(1) have le: "off + length x \<le> r_start r" by (simp add: range_disj_def)
  have "write_at off x d = (take off d @ x) @ drop (off + length x) d" by (simp add: write_at_def)
  moreover have "length (take off d @ x) = off + length x" using assms(2) by simp
  ultimately have "sub_slice (write_at off x d) r =
      sub_slice (drop (off + length x) d) (mk_range (r_start r - (off + length x)) (r_end r - (off + length x)))"
    using le by (simp add: sub_slice_append_right del: append_assoc)
  then show ?thesis using le by (simp add: sub_slice_drop_shift)
qed

lemma elem_in_range:
  assumes "i < range_len r div esz" "0 < esz" "range_wf r"
  shows "r_start r + i * esz + esz \<le> r_end r"
proof -
  have "Suc i * esz \<le> range_len r div esz * esz"
    using assms(1) by (intro mult_le_mono1) simp
  also have "\<dots> \<le> range_len r" by (simp add: div_times_less_eq_dividend)
  finally show ?thesis using assms(3) by (simp add: range_len_def range_wf_def)
qed

lemma set_elem_write:
  assumes "set_elem esz k i x s = Inr s'" "length x = esz"
  obtains r where "sm_get (used_ranges s) k = Some r"
    "s' = s\<lparr>mutated := True, data := write_at (r_start r + i * esz) x (data s)\<rparr>"
    "r_start r + i * esz + length x \<le> r_end r" "r_end r \<le> length (data s)"
proof -
  obtain r where r: "sm_get (used_ranges s) k = Some r" "range_wf r" "r_end r \<le> length (data s)" "0 < esz"
    "i < range_len r div esz" and s': "s' = s\<lparr>mutated := True, data := write_at (r_start r + i * esz) x (data s)\<rparr>"
    using set_elem_Inr [OF assms(1)] by blast
  have "r_start r + i * esz + length x \<le> r_end r" using elem_in_range [OF r(5,4,2)] assms(2) by simp
  with r s' that show ?thesis by blast
qed

lemma set_elem_layout:
  "layout_inv s \<Longrightarrow> set_elem esz k i x s = Inr s' \<Longrightarrow> length x = esz \<Longrightarrow> layout_inv s'"
  by (erule set_elem_write) (auto simp: layout_inv_def)

text \<open>C8: writing an element through a handle changes that element and nothing another
  live handle can see.\<close>

theorem set_elem_isolated:
  assumes "layout_inv s" "set_elem esz k i x s = Inr s'" "length x = esz"
  shows "used_ranges s' = used_ranges s \<and> available_ranges s' = available_ranges s \<and>
    (\<exists>r. sm_get (used_ranges s) k = Some r \<and>
       sub_slice (data s') (mk_range (r_start r + i * esz) (r_start r + i * esz + esz)) = x \<and>
       (\<forall>k' r'. k' \<noteq> k \<longrightarrow> sm_get (used_ranges s) k' = Some r' \<longrightarrow>
          sub_slice (data s') r' = sub_slice (data s) r'))"
proof -
  obtain r where r: "sm_get (used_ranges s) k = Some r"
    and s': "s' = s\<lparr>mutated := True, data := write_at (r_start r + i * esz) x (data s)\<rparr>"
    and fit: "r_start r + i * esz + length x \<le> r_end r" and rd: "r_end r \<le> length (data s)"
    using set_elem_write [OF assms(2,3)] by blast
  let ?off = "r_start r + i * esz"
  have fitd: "?off + length x \<le> length (data s)" using fit rd by linarith
  have "sub_slice (data s') r' = sub_slice (data s) r'"
    if "k' \<noteq> k" "sm_get (used_ranges s) k' = Some r'" for k' r'
  proof -
    have "range_disj r' r" using layout_keys_disj [OF assms(1) that(2) r that(1)] .
    then have "range_disj r' (mk_range ?off (?off + length x))"
      using fit by (auto simp: range_disj_def)
    then show ?thesis using fitd by (simp add: s' sub_slice_write_at_outside)
  qed
  moreover have "sub_slice (data s') (mk_range ?off (?off + esz)) = x"
    using sub_slice_write_at_here [OF fitd] assms(3) by (simp add: s')
  ultimately show ?thesis using r by (auto simp: s')
qed

theorem set_elem_isolated_witness:
  "case run 4 (new_simple 4 0 dev0) [Allocate 1, Allocate 2] of
     Inr (d, s) \<Rightarrow> layout_inv s \<and>
       (case set_elem 4 (Key 1 1) 1 [5, 6, 7, 8] s of
          Inr s' \<Rightarrow> sub_slice (data s') (mk_range 0 4) = sub_slice (data s) (mk_range 0 4) \<and>
                   sub_slice (data s') (mk_range 8 12) = [5, 6, 7, 8]
        | Inl _ \<Rightarrow> False)
   | Inl _ \<Rightarrow> False"
proof -
  have "case run 4 (new_simple 4 0 dev0) [Allocate 1, Allocate 2] of
     Inr (d, s) \<Rightarrow> layout_inv s \<and> sm_get (used_ranges s) (Key 0 1) = Some (mk_range 0 4) \<and>
        sm_get (used_ranges s) (Key 1 1) = Some (mk_range 4 12) \<and>
        \<not> isl (set_elem 4 (Key 1 1) 1 [5, 6, 7, 8] s)
   | Inl _ \<Rightarrow> False"
    by code_simp
  then obtain d s where r: "run 4 (new_simple 4 0 dev0) [Allocate 1, Allocate 2] = Inr (d, s)"
    and h: "layout_inv s" "sm_get (used_ranges s) (Key 0 1) = Some (mk_range 0 4)"
      "sm_get (used_ranges s) (Key 1 1) = Some (mk_range 4 12)"
    and c: "\<not> isl (set_elem 4 (Key 1 1) 1 [5, 6, 7, 8] s)"
    by (auto split: sum.splits)
  from c obtain s' where e: "set_elem 4 (Key 1 1) 1 [5, 6, 7, 8] s = Inr s'"
    by (cases "set_elem 4 (Key 1 1) 1 [5, 6, 7, 8] s") simp_all
  have "length [5, 6, 7, 8 :: byte] = 4" by simp
  from set_elem_isolated [OF h(1) e this] h show ?thesis using r e by auto
qed

section \<open>Upload\<close>

text \<open>C7: an upload of a changed allocator compacts it, hands the compacted bytes to the
  device in one transfer, and leaves the device buffer holding every live handle's
  bytes where the handle now points; a second upload does nothing.\<close>

theorem upload_correct:
  assumes "layout_inv s" "mutated s"
  shows "\<exists>dev' s'. upload dev s = Inr (dev', s') \<and> \<not> mutated s' \<and> layout_inv s' \<and>
    available_ranges s' = [] \<and> length (data s') = sum_len (sm_values (used_ranges s)) \<and>
    take (length (data s')) (buf_contents (buffer s')) = data s' \<and>
    (\<forall>k r. sm_get (used_ranges s) k = Some r \<longrightarrow>
       (\<exists>r'. sm_get (used_ranges s') k = Some r' \<and> sub_slice (data s') r' = sub_slice (data s) r \<and>
             sub_slice (buf_contents (buffer s')) r' = sub_slice (data s) r)) \<and>
    (\<exists>t. dev_log dev' = dev_log dev @ [t]) \<and> upload dev' s' = Inr (dev', s')"
proof -
  obtain s1 where fs: "fix_sequence s = Inr s1" "available_ranges s1 = []"
    "length (data s1) = sum_len (sm_values (used_ranges s))" "layout_inv s1"
    and keep: "\<forall>k r. sm_get (used_ranges s) k = Some r \<longrightarrow>
        (\<exists>r'. sm_get (used_ranges s1) k = Some r' \<and> sub_slice (data s1) r' = sub_slice (data s) r)"
    and fr: "buffer s1 = buffer s"
    using fix_sequence_correct [OF assms(1)] by blast
  obtain dev' buf where ur: "upload_or_resize dev (buffer s1) (data s1) = (dev', buf)" by fastforce
  let ?s' = "s1\<lparr>buffer := buf, mutated := False\<rparr>"
  have up: "upload dev s = Inr (dev', ?s')" using assms(2) fs(1) ur by (simp add: upload_def)
  have bw: "length (buf_contents (buffer s1)) = buf_size (buffer s1)"
    using fs(4) by (simp add: layout_inv_def)
  have pre: "take (length (data s1)) (buf_contents buf) = data s1"
    and bw': "buf_size buf = length (buf_contents buf)"
    using upload_or_resize_prefix [OF bw, where bs="data s1" and dev=dev] ur by simp_all
  have "layout_inv ?s'" using fs(4) bw' by (simp add: layout_inv_def)
  moreover have "\<exists>r'. sm_get (used_ranges ?s') k = Some r' \<and> sub_slice (data ?s') r' = sub_slice (data s) r \<and>
             sub_slice (buf_contents (buffer ?s')) r' = sub_slice (data s) r"
    if kr: "sm_get (used_ranges s) k = Some r" for k r
  proof -
    obtain r' where r': "sm_get (used_ranges s1) k = Some r'" "sub_slice (data s1) r' = sub_slice (data s) r"
      using keep kr by blast
    have "r_end r' \<le> length (data s1)" using layout_get_bounds [OF fs(4) r'(1)] by simp
    then have "sub_slice (buf_contents buf) r' = sub_slice (data s1) r'" by (rule sub_slice_prefix [OF pre])
    then show ?thesis using r' by simp
  qed
  moreover have "\<exists>t. dev_log dev' = dev_log dev @ [t]"
    using upload_or_resize_log [of dev "buffer s1" "data s1"] ur by simp
  ultimately show ?thesis using up fs pre by (auto simp: upload_def)
qed

theorem upload_correct_witness:
  "case run 4 (new_simple 4 0 dev0) [Allocate 1, Allocate 2, Free (Key 0 1)] of
     Inr (d, s) \<Rightarrow> layout_inv s \<and> mutated s \<and>
       (\<exists>dev' s'. upload d s = Inr (dev', s') \<and> \<not> mutated s' \<and> available_ranges s' = [] \<and>
          length (data s') = 8 \<and> upload dev' s' = Inr (dev', s'))
   | Inl _ \<Rightarrow> False"
proof -
  have "case run 4 (new_simple 4 0 dev0) [Allocate 1, Allocate 2, Free (Key 0 1)] of
     Inr (d, s) \<Rightarrow> layout_inv s \<and> mutated s \<and> sum_len (sm_values (used_ranges s)) = 8 | Inl _ \<Rightarrow> False"
    by code_simp
  then obtain d s where r: "run 4 (new_simple 4 0 dev0) [Allocate 1, Allocate 2, Free (Key 0 1)] = Inr (d, s)"
    and h: "layout_inv s" "mutated s" "sum_len (sm_values (used_ranges s)) = 8"
    by (auto split: sum.splits)
  show ?thesis using upload_correct [OF h(1,2), of d] r h by auto
qed

section \<open>Allocation, free and resize\<close>

lemma layout_inv_parts:
  "layout_inv s \<longleftrightarrow> sm_wf (used_ranges s) \<and>
     layout_parts (length (data s)) (mset (sm_values (used_ranges s))) (available_ranges s) \<and>
     length (buf_contents (buffer s)) = buf_size (buffer s)"
  by (auto simp: layout_inv_def layout_parts_def ranges_in_def sum_len_mset)

lemma disj_mset_split:
  assumes "disj_mset (add_mset r M)" "range_disj a b"
    "r_start r \<le> r_start a" "r_end a \<le> r_end r" "r_start r \<le> r_start b" "r_end b \<le> r_end r"
  shows "disj_mset (add_mset a (add_mset b M))"
  using assms range_disj_mono [of r _ a] range_disj_mono [of r _ b] by (auto simp: disj_mset_add)

lemma mset_vec_remove: "i < length xs \<Longrightarrow> mset xs = add_mset (xs ! i) (mset (vec_remove i xs))"
proof -
  assume "i < length xs"
  from id_take_nth_drop [OF this] have "mset xs = mset (take i xs @ xs ! i # drop (Suc i) xs)"
    by (rule arg_cong)
  then show ?thesis by (simp add: vec_remove_def)
qed

lemma claim_range_parts:
  assumes inv: "layout_parts (length (data s)) V (available_ranges s)"
    and cr: "claim_range sz s = (t, s1)"
  shows "layout_parts (length (data s1)) (add_mset t V) (available_ranges s1) \<and>
    take (length (data s)) (data s1) = data s"
proof -
  let ?F = "available_ranges s" and ?n = "length (data s)"
  have vb: "\<forall>r \<in># V. range_wf r \<and> r_end r \<le> ?n" and fin: "ranges_in ?n ?F"
    and srt: "sorted_wrt range_before ?F" and dj: "disj_mset (V + mset ?F)"
    and sm: "(\<Sum>r \<in># V. range_len r) + sum_len ?F = ?n"
    using inv by (simp_all add: layout_parts_def)
  show ?thesis
  proof (cases "last_fit sz ?F")
    case None
    then have t: "t = mk_range ?n (?n + sz)" and s1: "s1 = s\<lparr>data := data s @ replicate sz 0\<rparr>"
      using cr by (auto simp: claim_range_def)
    have "\<forall>y \<in># V + mset ?F. range_disj t y"
      using vb fin by (auto simp: t range_disj_def ranges_in_def)
    then have "disj_mset (add_mset t V + mset ?F)" using dj by (simp add: disj_mset_add)
    moreover have "ranges_in (?n + sz) ?F" using fin by (auto simp: ranges_in_def)
    ultimately show ?thesis using vb srt sm by (auto simp: layout_parts_def s1 t)
  next
    case (Some i)
    let ?r = "?F ! i"
    have i: "i < length ?F" "sz \<le> range_len ?r" using last_fit_SomeD [OF Some] by simp_all
    then have rF: "?r \<in> set ?F" by simp
    then have rwf: "range_wf ?r" "r_end ?r \<le> ?n" using fin by (auto simp: ranges_in_def)
    have split: "V + mset ?F = add_mset ?r (V + (mset ?F - {#?r#}))" using rF by simp
    show ?thesis
    proof (cases "range_len ?r = sz")
      case True
      then have t: "t = ?r" and s1: "s1 = s\<lparr>available_ranges := vec_remove i ?F\<rparr>"
        using cr Some by (auto simp: claim_range_def Let_def)
      have ms: "mset ?F = add_mset ?r (mset (vec_remove i ?F))" using mset_vec_remove [OF i(1)] .
      have "disj_mset (add_mset t V + mset (vec_remove i ?F))" using dj ms by (simp add: t)
      moreover have "sum_len ?F = range_len ?r + sum_len (vec_remove i ?F)"
        using sum_len_add_mset [OF ms] .
      moreover have "ranges_in ?n (vec_remove i ?F)"
        using fin set_vec_remove [of i ?F] by (auto simp: ranges_in_def)
      ultimately show ?thesis
        using vb srt sm dj rwf sorted_vec_remove [OF srt, of i]
        by (auto simp: layout_parts_def s1 t)
    next
      case False
      let ?r1 = "mk_range (r_start ?r) (r_end ?r - sz)"
      have t: "t = mk_range (r_end ?r - sz) (r_end ?r)" and s1: "s1 = s\<lparr>available_ranges := ?F[i := ?r1]\<rparr>"
        using cr Some False by (auto simp: claim_range_def Let_def)
      have lr: "range_len ?r = range_len ?r1 + sz" using i(2) rwf(1) by (simp add: range_len_def range_wf_def)
      have "disj_mset (add_mset t (add_mset ?r1 (V + (mset ?F - {#?r#}))))"
        using dj [unfolded split] by (rule disj_mset_split) (use i(2) rwf(1) in \<open>auto simp: t range_disj_def range_len_def range_wf_def\<close>)
      moreover have "add_mset t V + mset (?F[i := ?r1]) = add_mset t (add_mset ?r1 (V + (mset ?F - {#?r#})))"
        using i(1) by (simp add: mset_update)
      ultimately have "disj_mset (add_mset t V + mset (?F[i := ?r1]))" by metis
      moreover have su: "sum_len (?F[i := ?r1]) + range_len ?r = sum_len ?F + range_len ?r1"
        using sum_len_update [OF i(1)] .
      moreover have "ranges_in ?n (?F[i := ?r1])"
      proof -
        have "range_wf ?r1 \<and> r_end ?r1 \<le> ?n" using i(2) rwf unfolding range_len_def range_wf_def by auto
        then show ?thesis using fin
          by (auto simp: ranges_in_def dest!: set_update_subset_insert [THEN subsetD])
      qed
      moreover have "sorted_wrt range_before (?F[i := ?r1])"
        using srt i(1) by (rule sorted_before_update) simp_all
      moreover have "(\<Sum>r \<in># add_mset t V. range_len r) + sum_len (?F[i := ?r1]) = ?n"
      proof -
        have "range_len t = sz" using i(2) by (simp add: t range_len_def)
        then show ?thesis using sm lr su by simp
      qed
      moreover have "range_wf t \<and> r_end t \<le> ?n" using rwf by (simp add: t)
      ultimately show ?thesis
        using vb by (simp add: layout_parts_def s1)
    qed
  qed
qed

text \<open>Allocation keeps the layout: the new handle is fresh, its range has the
  requested number of bytes and overlaps no other live or free range, and every other
  handle keeps its range and its bytes.\<close>

lemma allocate_layout:
  assumes "layout_inv s" "allocate esz cnt s = (k, s')"
  shows "layout_inv s' \<and> sm_get (used_ranges s) k = None \<and> allocated_count s' = allocated_count s + cnt \<and>
    (\<exists>r. sm_get (used_ranges s') k = Some r \<and> range_len r = esz * cnt) \<and>
    (\<forall>k'. k' \<noteq> k \<longrightarrow> sm_get (used_ranges s') k' = sm_get (used_ranges s) k') \<and>
    (\<forall>k' r'. sm_get (used_ranges s) k' = Some r' \<longrightarrow>
       sm_get (used_ranges s') k' = Some r' \<and> sub_slice (data s') r' = sub_slice (data s) r')"
proof -
  let ?u = "used_ranges s"
  obtain t s1 where cr: "claim_range (esz * cnt) s = (t, s1)" by fastforce
  obtain k1 u1 where ins: "sm_insert t ?u = (k1, u1)" by fastforce
  have s': "k = k1" "s' = s1\<lparr>mutated := True, allocated_count := allocated_count s + cnt, used_ranges := u1\<rparr>"
    using assms(2) cr ins by (simp_all add: allocate_eq)
  have inv: "sm_wf ?u" "layout_parts (length (data s)) (mset (sm_values ?u)) (available_ranges s)"
    "length (buf_contents (buffer s)) = buf_size (buffer s)"
    using assms(1) by (simp_all add: layout_inv_parts)
  have cp: "layout_parts (length (data s1)) (add_mset t (mset (sm_values ?u))) (available_ranges s1)"
    and pre: "take (length (data s)) (data s1) = data s"
    using claim_range_parts [OF inv(2) cr] by simp_all
  have fr: "buffer s1 = buffer s" "used_ranges s1 = ?u"
    using claim_range_frame [of "esz * cnt" s] cr by simp_all
  have "layout_inv s'"
    using cp inv(1,3) fr mset_sm_values_insert [OF inv(1) ins] sm_wf_insert [OF inv(1) ins]
    by (simp add: layout_inv_parts s')
  moreover have "sub_slice (data s') r' = sub_slice (data s) r'" if "sm_get ?u k' = Some r'" for k' r'
    using sub_slice_prefix [OF pre] layout_get_bounds [OF assms(1) that] by (simp add: s')
  moreover have "range_len t = esz * cnt" using claim_range_len [of "esz * cnt" s] cr by simp
  ultimately show ?thesis
    using sm_insert_fresh [OF inv(1) ins] sm_get_insert [OF inv(1) ins] by (auto simp: s')
qed

lemma layout_parts_free_single:
  assumes "layout_parts n (add_mset r V) []"
  shows "layout_parts n V [r]"
  using assms by (simp add: layout_parts_def ranges_in_def add.commute)

lemma free_layout:
  assumes "layout_inv s" "available_ranges s = []" "free esz k s = Inr s'"
  shows "layout_inv s' \<and> data s' = data s \<and>
    (\<forall>k'. sm_get (used_ranges s') k' = (if k' = k then None else sm_get (used_ranges s) k'))"
proof (cases "sm_remove k (used_ranges s)")
  case (Pair xo u)
  have inv: "sm_wf (used_ranges s)" "layout_parts (length (data s)) (mset (sm_values (used_ranges s))) []"
    "length (buf_contents (buffer s)) = buf_size (buffer s)"
    using assms(1,2) by (simp_all add: layout_inv_parts)
  have get: "sm_get u k' = (if k' = k then None else sm_get (used_ranges s) k')" for k'
    using sm_get_remove(1) [OF Pair] by simp
  show ?thesis
  proof (cases xo)
    case None
    with Pair have "u = used_ranges s" by (simp add: sm_remove_def split: option.splits)
    with assms(1,3) Pair None sm_get_remove(2) [OF Pair] show ?thesis
      by (auto simp: free_cases layout_inv_def)
  next
    case (Some r)
    with Pair assms(2,3) have s': "s' = s\<lparr>mutated := True, used_ranges := u,
                      allocated_count := allocated_count s - range_len r div esz,
                      available_ranges := [r]\<rparr>"
      by (auto simp: free_cases make_range_available_Nil split: if_splits)
    have "sm_get (used_ranges s) k = Some r" using sm_get_remove(2) [OF Pair] Some by simp
    then have "r \<in># mset (sm_values (used_ranges s))" by (auto simp: in_sm_values)
    then have "mset (sm_values (used_ranges s)) = add_mset r (mset (sm_values u))"
      using mset_sm_values_remove [OF Pair [unfolded Some]] by simp
    then have "layout_parts (length (data s)) (mset (sm_values u)) [r]"
      using inv(2) by (simp add: layout_parts_free_single)
    then show ?thesis
      using inv sm_wf_remove [OF inv(1) Pair] get by (simp add: s' layout_inv_parts)
  qed
qed

lemma resize_layout:
  assumes "layout_inv s" "available_ranges s = []" "resize esz k new_len s = Inr (k', s')"
  shows "layout_inv s'"
proof -
  from assms(3) obtain r where get: "sm_get (used_ranges s) k = Some r"
    by (auto simp: resize_def Let_def split: option.splits)
  let ?sz = "new_len * esz"
  consider (grow) "range_len r < ?sz" | (same) "range_len r = ?sz" | (shrink) "?sz < range_len r"
    by linarith
  then show ?thesis
  proof cases
    case grow
    with assms(3) get obtain s1 where f: "free esz k s = Inr s1" and a: "allocate esz new_len s1 = (k', s')"
      by (auto simp: resize_cases split: sum.splits)
    have "layout_inv s1" using free_layout [OF assms(1,2) f] by simp
    then show ?thesis using allocate_layout [OF _ a] by simp
  next
    case same
    with assms get show ?thesis by (simp add: resize_cases)
  next
    case shrink
    let ?t = "mk_range (r_end r - ?sz) (r_end r)" and ?fr = "mk_range (r_start r) (r_end r - ?sz)"
    from shrink assms(2,3) get obtain u where set: "sm_set k ?t (used_ranges s) = Inr u"
      and s': "s' = s\<lparr>mutated := True, allocated_count := allocated_count s - (r_end r - ?sz - r_start r) div esz,
                 available_ranges := [?fr], used_ranges := u\<rparr>"
      by (auto simp: resize_cases make_range_available_Nil split: if_splits sum.splits)
    have inv: "sm_wf (used_ranges s)" "layout_parts (length (data s)) (mset (sm_values (used_ranges s))) []"
      "length (buf_contents (buffer s)) = buf_size (buffer s)"
      using assms(1,2) by (simp_all add: layout_inv_parts)
    have rwf: "range_wf r" "r_end r \<le> length (data s)" using layout_get_bounds [OF assms(1) get] by simp_all
    have rV: "r \<in># mset (sm_values (used_ranges s))" using get by (auto simp: in_sm_values)
    have mu: "mset (sm_values u) = add_mset ?t (mset (sm_values (used_ranges s)) - {#r#})"
      using mset_sm_values_set [OF set get] .
    let ?M = "mset (sm_values (used_ranges s)) - {#r#}"
    have dj: "disj_mset (add_mset r ?M)" using inv(2) rV by (simp add: layout_parts_def)
    have "disj_mset (add_mset ?t (add_mset ?fr ?M))"
      using dj by (rule disj_mset_split) (use shrink rwf(1) in \<open>auto simp: range_disj_def range_len_def range_wf_def\<close>)
    then have dj': "disj_mset (mset (sm_values u) + mset [?fr])" by (simp add: mu add_mset_commute)
    have "(\<Sum>x \<in># add_mset r ?M. range_len x) = length (data s)"
      using inv(2) rV by (simp add: layout_parts_def)
    moreover have "range_len r = range_len ?t + range_len ?fr"
      using shrink rwf(1) by (simp add: range_len_def range_wf_def)
    ultimately have sm: "(\<Sum>x \<in># mset (sm_values u). range_len x) + sum_len [?fr] = length (data s)"
      by (simp add: mu)
    have "\<forall>x \<in># ?M. range_wf x \<and> r_end x \<le> length (data s)"
      using inv(2) by (auto simp: layout_parts_def dest: in_diffD)
    then have bd: "\<forall>x \<in># mset (sm_values u). range_wf x \<and> r_end x \<le> length (data s)"
      using rwf by (simp add: mu)
    have "ranges_in (length (data s)) [?fr]" using rwf shrink unfolding ranges_in_def range_len_def range_wf_def by auto
    with dj' sm bd have "layout_parts (length (data s)) (mset (sm_values u)) [?fr]"
      by (simp only: layout_parts_def sorted_wrt1 simp_thms)
    then show ?thesis using inv sm_wf_set [OF inv(1) set] by (simp add: s' layout_inv_parts)
  qed
qed

section \<open>Preservation by upload and \<open>Truncate\<close>\<close>

lemma upload_layout:
  assumes "layout_inv s" "upload dev s = Inr (dev', s')"
  shows "layout_inv s'"
proof (cases "mutated s")
  case False
  with assms show ?thesis by (simp add: upload_def)
next
  case True
  obtain s1 where fs: "fix_sequence s = Inr s1" "layout_inv s1"
    using fix_sequence_correct [OF assms(1)] by blast
  obtain buf where ur: "upload_or_resize dev (buffer s1) (data s1) = (dev', buf)"
    and s': "s' = s1\<lparr>buffer := buf, mutated := False\<rparr>"
    using assms(2) True fs(1) by (auto simp: upload_def split: prod.splits)
  have "length (buf_contents (buffer s1)) = buf_size (buffer s1)" using fs(2) by (simp add: layout_inv_def)
  then have "buf_size buf = length (buf_contents buf)"
    using upload_or_resize_prefix(2) [where bs = "data s1" and dev = dev and buf = "buffer s1"] ur by simp
  then show ?thesis using fs(2) by (simp add: s' layout_inv_def)
qed

lemma create_buffer_init_wf:
  "length (buf_contents (snd (create_buffer_init dev u bs))) = buf_size (snd (create_buffer_init dev u bs))"
  using padded_size_ge [of "length bs"] by (simp add: create_buffer_init_def)

lemma truncate_layout:
  assumes "layout_inv s" "optimize Truncate dev s = Inr (dev', s')"
  shows "layout_inv s'"
proof -
  obtain s1 where fs: "fix_sequence s = Inr s1" "layout_inv s1"
    using fix_sequence_correct [OF assms(1)] by blast
  then have "s' = s1\<lparr>buffer := snd (create_buffer_init dev (buf_usage (buffer s1) OR COPY_DST) (data s1))\<rparr>"
    using assms(2) by (auto simp: optimize_def split: prod.splits)
  then show ?thesis using fs(2) create_buffer_init_wf by (simp add: layout_inv_def)
qed

text \<open>C9: \<open>Truncate\<close> compacts (spec section 8, round-trip compaction): afterwards \<open>data\<close> holds exactly the live bytes, the
  free list is empty, the device buffer is a new buffer that starts with \<open>data\<close> and
  allows copies into it, and every live handle reads the bytes it read before, on the
  CPU and on the device.\<close>

theorem optimize_truncate_correct:
  assumes "layout_inv s"
  shows "\<exists>dev' s'. optimize Truncate dev s = Inr (dev', s') \<and> available_ranges s' = [] \<and>
    length (data s') = sum_len (sm_values (used_ranges s)) \<and>
    take (length (data s')) (buf_contents (buffer s')) = data s' \<and>
    buf_usage (buffer s') AND COPY_DST = COPY_DST \<and>
    dev_log dev' = dev_log dev @ [CreateBufferInit (data s')] \<and>
    (\<forall>k r. sm_get (used_ranges s) k = Some r \<longrightarrow>
       (\<exists>r'. sm_get (used_ranges s') k = Some r' \<and> sub_slice (data s') r' = sub_slice (data s) r \<and>
             sub_slice (buf_contents (buffer s')) r' = sub_slice (data s) r))"
proof -
  obtain s1 where fs: "fix_sequence s = Inr s1" "available_ranges s1 = []"
    "length (data s1) = sum_len (sm_values (used_ranges s))" "layout_inv s1"
    and keep: "\<forall>k r. sm_get (used_ranges s) k = Some r \<longrightarrow>
        (\<exists>r'. sm_get (used_ranges s1) k = Some r' \<and> sub_slice (data s1) r' = sub_slice (data s) r)"
    using fix_sequence_correct [OF assms(1)] by blast
  let ?u = "buf_usage (buffer s1) OR COPY_DST"
  let ?s' = "s1\<lparr>buffer := snd (create_buffer_init dev ?u (data s1))\<rparr>"
  have opt: "optimize Truncate dev s = Inr (fst (create_buffer_init dev ?u (data s1)), ?s')"
    using fs(1) by (simp add: optimize_def split: prod.splits)
  have pre: "take (length (data s1)) (buf_contents (buffer ?s')) = data s1"
    by (simp add: create_buffer_init_def)
  have "\<exists>r'. sm_get (used_ranges ?s') k = Some r' \<and> sub_slice (data ?s') r' = sub_slice (data s) r \<and>
             sub_slice (buf_contents (buffer ?s')) r' = sub_slice (data s) r"
    if kr: "sm_get (used_ranges s) k = Some r" for k r
  proof -
    obtain r' where r': "sm_get (used_ranges s1) k = Some r'" "sub_slice (data s1) r' = sub_slice (data s) r"
      using keep kr by blast
    have "r_end r' \<le> length (data s1)" using layout_get_bounds [OF fs(4) r'(1)] by simp
    then have "sub_slice (buf_contents (buffer ?s')) r' = sub_slice (data s1) r'" by (rule sub_slice_prefix [OF pre])
    then show ?thesis using r' by simp
  qed
  moreover have "?u AND COPY_DST = COPY_DST" by (simp add: bit.conj_disj_distrib2)
  ultimately show ?thesis using opt fs(2,3) pre by (auto simp: create_buffer_init_def)
qed

theorem optimize_truncate_correct_witness:
  "case run 4 (new_simple 4 0 dev0) [Allocate 1, Allocate 2, Free (Key 0 1)] of
     Inr (d, s) \<Rightarrow> layout_inv s \<and> length (data s) = 12 \<and>
       (\<exists>dev' s'. optimize Truncate d s = Inr (dev', s') \<and> length (data s') = 8 \<and>
          available_ranges s' = [])
   | Inl _ \<Rightarrow> False"
proof -
  have "case run 4 (new_simple 4 0 dev0) [Allocate 1, Allocate 2, Free (Key 0 1)] of
     Inr (d, s) \<Rightarrow> layout_inv s \<and> length (data s) = 12 \<and> sum_len (sm_values (used_ranges s)) = 8
   | Inl _ \<Rightarrow> False"
    by code_simp
  then obtain d s where r: "run 4 (new_simple 4 0 dev0) [Allocate 1, Allocate 2, Free (Key 0 1)] = Inr (d, s)"
    and h: "layout_inv s" "length (data s) = 12" "sum_len (sm_values (used_ranges s)) = 8"
    by (auto split: sum.splits)
  show ?thesis using optimize_truncate_correct [OF h(1), of d] r h by auto
qed

lemma layout_new: "layout_inv (snd (new_simple esz usages dev))"
  by (simp add: new_simple_def create_buffer_def layout_inv_def sm_values_def sm_iter_def sm_new_def
      ranges_in_def disj_mset_def sm_wf_def split: prod.splits)

end
