(* ===== verification/Sorting.thy ===== *)
theory Sorting
  imports Layout
begin

text \<open>
  Correctness of \<open>sort\<close> (\<open>optimize\<close> with \<open>SortSizeDescending\<close> or
  \<open>SortSizeAscending\<close>) on a state with the layout invariant: the copy loop succeeds,
  lays the live allocations out one after the other in the order of the sorted handle
  list, with no free space, and every handle reads the bytes it read before; the
  allocations in \<open>data\<close> appear by size (largest first for \<open>SortSizeDescending\<close>).
\<close>

section \<open>The copy loop\<close>

lemma copy_sorted_correct:
  assumes "distinct (map fst kvs)"
    and "\<forall>(k, r) \<in> set kvs. sm_get u k = Some r \<and> range_wf r \<and> r_end r \<le> length old"
  shows "\<exists>u'. copy_sorted old kvs u nd = Inr (u', nd @ concat (map (sub_slice old \<circ> snd) kvs)) \<and>
    (\<forall>k. k \<notin> fst ` set kvs \<longrightarrow> sm_get u' k = sm_get u k) \<and>
    (\<forall>k r. (k, r) \<in> set kvs \<longrightarrow> (\<exists>r'. sm_get u' k = Some r' \<and> range_wf r' \<and>
        range_len r' = range_len r \<and> length nd \<le> r_start r' \<and>
        r_end r' \<le> length nd + sum_len (map snd kvs) \<and>
        sub_slice (nd @ concat (map (sub_slice old \<circ> snd) kvs)) r' = sub_slice old r)) \<and>
    (\<forall>k1 k2 r1 r2. k1 \<noteq> k2 \<longrightarrow> k1 \<in> fst ` set kvs \<longrightarrow> k2 \<in> fst ` set kvs \<longrightarrow>
        sm_get u' k1 = Some r1 \<longrightarrow> sm_get u' k2 = Some r2 \<longrightarrow> range_disj r1 r2)"
  using assms
proof (induction kvs arbitrary: u nd)
  case Nil
  then show ?case by simp
next
  case (Cons kr kvs)
  obtain k r where kr: "kr = (k, r)" by fastforce
  have r: "sm_get u k = Some r" "range_wf r" "r_end r \<le> length old"
    using Cons.prems(2) kr by auto
  let ?t = "mk_range (length nd) (length nd + range_len r)"
  let ?nd = "nd @ sub_slice old r"
  have lnd: "length ?nd = length nd + range_len r" using r(3) by simp
  obtain u1 where set: "sm_set k ?t u = Inr u1" using r(1) by (simp add: sm_set_def)
  have get1: "sm_get u1 j = (if j = k then Some ?t else sm_get u j)" for j
    using sm_set_Inr(1) [OF set] by simp
  have nk: "k \<notin> fst ` set kvs" using Cons.prems(1) kr by auto
  have "\<forall>(k', r') \<in> set kvs. sm_get u1 k' = Some r' \<and> range_wf r' \<and> r_end r' \<le> length old"
    using Cons.prems(2) nk get1 by (force simp: kr)
  moreover have "distinct (map fst kvs)" using Cons.prems(1) by simp
  ultimately obtain u' where c: "copy_sorted old kvs u1 ?nd = Inr (u', ?nd @ concat (map (sub_slice old \<circ> snd) kvs))"
    and oth: "\<forall>j. j \<notin> fst ` set kvs \<longrightarrow> sm_get u' j = sm_get u1 j"
    and new: "\<forall>k r. (k, r) \<in> set kvs \<longrightarrow> (\<exists>r'. sm_get u' k = Some r' \<and> range_wf r' \<and>
        range_len r' = range_len r \<and> length ?nd \<le> r_start r' \<and>
        r_end r' \<le> length ?nd + sum_len (map snd kvs) \<and>
        sub_slice (?nd @ concat (map (sub_slice old \<circ> snd) kvs)) r' = sub_slice old r)"
    and dj: "\<forall>k1 k2 r1 r2. k1 \<noteq> k2 \<longrightarrow> k1 \<in> fst ` set kvs \<longrightarrow> k2 \<in> fst ` set kvs \<longrightarrow>
        sm_get u' k1 = Some r1 \<longrightarrow> sm_get u' k2 = Some r2 \<longrightarrow> range_disj r1 r2"
    using Cons.IH by blast
  have res: "copy_sorted old (kr # kvs) u nd = Inr (u', nd @ concat (map (sub_slice old \<circ> snd) (kr # kvs)))"
    using c set r lnd by (simp add: kr range_len_def range_wf_def Let_def)
  have gk: "sm_get u' k = Some ?t" using oth nk get1 by simp
  have "sub_slice (?nd @ concat (map (sub_slice old \<circ> snd) kvs)) ?t = sub_slice old r"
    using r(3) by (simp add: sub_slice_def range_len_def)
  then have tk: "sub_slice (nd @ concat (map (sub_slice old \<circ> snd) (kr # kvs))) ?t = sub_slice old r"
    by (simp add: kr)
  have p2: "\<forall>j. j \<notin> fst ` set (kr # kvs) \<longrightarrow> sm_get u' j = sm_get u j"
    using oth get1 by (auto simp: kr)
  have p3: "\<exists>r''. sm_get u' k' = Some r'' \<and> range_wf r'' \<and> range_len r'' = range_len r' \<and>
        length nd \<le> r_start r'' \<and> r_end r'' \<le> length nd + sum_len (map snd (kr # kvs)) \<and>
        sub_slice (nd @ concat (map (sub_slice old \<circ> snd) (kr # kvs))) r'' = sub_slice old r'"
    if kr': "(k', r') \<in> set (kr # kvs)" for k' r'
  proof (cases "(k', r') = (k, r)")
    case True
    then show ?thesis using gk tk by (simp add: kr)
  next
    case False
    with kr' have "(k', r') \<in> set kvs" by (auto simp: kr)
    with new lnd show ?thesis by (fastforce simp: kr)
  qed
  have p4: "range_disj r1 r2"
    if ne: "k1 \<noteq> k2" and in1: "k1 \<in> fst ` set (kr # kvs)" and in2: "k2 \<in> fst ` set (kr # kvs)"
      and g1: "sm_get u' k1 = Some r1" and g2: "sm_get u' k2 = Some r2" for k1 k2 r1 r2
  proof -
    have far: "length ?nd \<le> r_start r'" if "j \<in> fst ` set kvs" "sm_get u' j = Some r'" for j r'
      using that new by fastforce
    show ?thesis
    proof (cases "k1 = k \<or> k2 = k")
      case True
      with ne in1 in2 have "(k1 = k \<and> k2 \<in> fst ` set kvs) \<or> (k2 = k \<and> k1 \<in> fst ` set kvs)"
        by (auto simp: kr)
      then show ?thesis
      proof
        assume a: "k1 = k \<and> k2 \<in> fst ` set kvs"
        then have "length ?nd \<le> r_start r2" using far g2 by blast
        moreover have "r1 = ?t" using a g1 gk by simp
        ultimately show ?thesis using lnd by (simp add: range_disj_def)
      next
        assume a: "k2 = k \<and> k1 \<in> fst ` set kvs"
        then have "length ?nd \<le> r_start r1" using far g1 by blast
        moreover have "r2 = ?t" using a g2 gk by simp
        ultimately show ?thesis using lnd by (simp add: range_disj_def)
      qed
    next
      case False
      with in1 in2 have "k1 \<in> fst ` set kvs" "k2 \<in> fst ` set kvs" by (auto simp: kr)
      with dj ne g1 g2 show ?thesis by blast
    qed
  qed
  show ?case using res p2 p3 p4 by blast
qed

lemma disj_mset_pairs:
  "distinct (map fst L) \<Longrightarrow> (\<forall>(k1, r1) \<in> set L. \<forall>(k2, r2) \<in> set L. k1 \<noteq> k2 \<longrightarrow> range_disj r1 r2) \<Longrightarrow>
   disj_mset (mset (map snd L))"
proof (induction L)
  case Nil
  then show ?case by (simp add: disj_mset_def)
next
  case (Cons kr L)
  then show ?case by (cases kr) (force simp: disj_mset_add)
qed

lemma disj_mset_values:
  "(\<forall>k1 k2 r1 r2. k1 \<noteq> k2 \<longrightarrow> sm_get u k1 = Some r1 \<longrightarrow> sm_get u k2 = Some r2 \<longrightarrow> range_disj r1 r2) \<Longrightarrow>
   disj_mset (mset (sm_values u))"
  unfolding sm_values_def by (rule disj_mset_pairs) (auto simp: distinct_sm_iter in_sm_iter)

lemma length_concat_slices:
  "\<forall>(k, r) \<in> set kvs. r_end r \<le> length old \<Longrightarrow>
   length (concat (map (sub_slice old \<circ> snd) kvs)) = sum_len (map snd kvs)"
  by (induction kvs) auto

lemma sum_len_perm: "mset xs = mset ys \<Longrightarrow> sum_len xs = sum_len ys"
  by (simp add: sum_len_mset)

section \<open>\<open>sort\<close>\<close>

lemma sort_ranges_correct:
  fixes b :: bool
  assumes "layout_inv s"
  defines "kvs \<equiv> sort_key (sort_key_of b) (sm_iter (used_ranges s))"
  shows "\<exists>s'. sort_ranges b s = Inr s' \<and> layout_inv s' \<and> available_ranges s' = [] \<and>
    data s' = concat (map (sub_slice (data s) \<circ> snd) kvs) \<and>
    length (data s') = sum_len (sm_values (used_ranges s)) \<and>
    (\<forall>k. sm_get (used_ranges s') k = None \<longleftrightarrow> sm_get (used_ranges s) k = None) \<and>
    (\<forall>k r. sm_get (used_ranges s) k = Some r \<longrightarrow>
       (\<exists>r'. sm_get (used_ranges s') k = Some r' \<and> sub_slice (data s') r' = sub_slice (data s) r)) \<and>
    buffer s' = buffer s \<and> mutated s' = mutated s \<and> allocated_count s' = allocated_count s"
proof -
  let ?u = "used_ranges s" and ?d = "data s"
  have ms: "mset kvs = mset (sm_iter ?u)" by (simp add: kvs_def)
  have dist: "distinct (map fst kvs)"
    using distinct_sm_iter ms by (metis mset_eq_imp_distinct_iff mset_map)
  have setk: "set kvs = set (sm_iter ?u)" using ms by (metis set_mset_mset)
  have pre: "\<forall>(k, r) \<in> set kvs. sm_get ?u k = Some r \<and> range_wf r \<and> r_end r \<le> length ?d"
  proof (clarify)
    fix k r assume "(k, r) \<in> set kvs"
    then have g: "sm_get ?u k = Some r" using setk by (simp add: in_sm_iter)
    then show "sm_get ?u k = Some r \<and> range_wf r \<and> r_end r \<le> length ?d"
      using layout_get_bounds [OF assms(1) g] by simp
  qed
  obtain u' where cs: "copy_sorted ?d kvs ?u [] = Inr (u', [] @ concat (map (sub_slice ?d \<circ> snd) kvs)) \<and>
    (\<forall>k. k \<notin> fst ` set kvs \<longrightarrow> sm_get u' k = sm_get ?u k) \<and>
    (\<forall>k r. (k, r) \<in> set kvs \<longrightarrow> (\<exists>r'. sm_get u' k = Some r' \<and> range_wf r' \<and>
        range_len r' = range_len r \<and> length ([] :: byte list) \<le> r_start r' \<and>
        r_end r' \<le> length ([] :: byte list) + sum_len (map snd kvs) \<and>
        sub_slice ([] @ concat (map (sub_slice ?d \<circ> snd) kvs)) r' = sub_slice ?d r)) \<and>
    (\<forall>k1 k2 r1 r2. k1 \<noteq> k2 \<longrightarrow> k1 \<in> fst ` set kvs \<longrightarrow> k2 \<in> fst ` set kvs \<longrightarrow>
        sm_get u' k1 = Some r1 \<longrightarrow> sm_get u' k2 = Some r2 \<longrightarrow> range_disj r1 r2)"
    using copy_sorted_correct [OF dist pre, of "[]"] by (elim exE) (rule that)
  then have c: "copy_sorted ?d kvs ?u [] = Inr (u', concat (map (sub_slice ?d \<circ> snd) kvs))"
    and oth: "\<forall>k. k \<notin> fst ` set kvs \<longrightarrow> sm_get u' k = sm_get ?u k"
    and new: "\<forall>k r. (k, r) \<in> set kvs \<longrightarrow> (\<exists>r'. sm_get u' k = Some r' \<and> range_wf r' \<and>
        range_len r' = range_len r \<and> r_end r' \<le> sum_len (map snd kvs) \<and>
        sub_slice (concat (map (sub_slice ?d \<circ> snd) kvs)) r' = sub_slice ?d r)"
    and dj: "\<forall>k1 k2 r1 r2. k1 \<noteq> k2 \<longrightarrow> k1 \<in> fst ` set kvs \<longrightarrow> k2 \<in> fst ` set kvs \<longrightarrow>
        sm_get u' k1 = Some r1 \<longrightarrow> sm_get u' k2 = Some r2 \<longrightarrow> range_disj r1 r2"
    by simp_all
  let ?nd = "concat (map (sub_slice ?d \<circ> snd) kvs)"
  let ?s' = "s\<lparr>used_ranges := u', data := ?nd, available_ranges := []\<rparr>"
  have sr: "sort_ranges b s = Inr ?s'" using c by (simp add: sort_ranges_def kvs_def)
  have live: "k \<in> fst ` set kvs \<longleftrightarrow> sm_get ?u k \<noteq> None" for k
  proof
    assume "k \<in> fst ` set kvs"
    then obtain r where "(k, r) \<in> set kvs" by auto
    then show "sm_get ?u k \<noteq> None" using setk by (simp add: in_sm_iter)
  next
    assume "sm_get ?u k \<noteq> None"
    then obtain r where "sm_get ?u k = Some r" by auto
    then have "(k, r) \<in> set kvs" using setk by (simp add: in_sm_iter)
    then show "k \<in> fst ` set kvs" by force
  qed
  have l1: "length ?nd = sum_len (map snd kvs)"
    by (rule length_concat_slices) (use pre in auto)
  have "mset (map snd kvs) = mset (sm_values ?u)"
    using ms by (simp add: sm_values_def)
  then have "sum_len (map snd kvs) = sum_len (sm_values ?u)" by (rule sum_len_perm)
  with l1 have len: "length ?nd = sum_len (sm_values ?u)" by simp
  have none: "sm_get u' k = None \<longleftrightarrow> sm_get ?u k = None" for k
  proof (cases "sm_get ?u k")
    case None
    then have "k \<notin> fst ` set kvs" using live by simp
    with oth None show ?thesis by simp
  next
    case (Some r)
    then have "(k, r) \<in> set kvs" using setk by (simp add: in_sm_iter)
    with new Some show ?thesis by fastforce
  qed
  have keep: "\<exists>r'. sm_get u' k = Some r' \<and> sub_slice ?nd r' = sub_slice ?d r" if "sm_get ?u k = Some r" for k r
  proof -
    have "(k, r) \<in> set kvs" using that setk by (simp add: in_sm_iter)
    with new show ?thesis by blast
  qed
  have lens: "live_lens u' = live_lens ?u" "sm_wf u'"
    using sort_ranges_lens [OF sr] assms(1) by (simp_all add: layout_inv_def)
  have "layout_inv ?s'"
  proof -
    have "disj_mset (mset (sm_values u'))"
    proof (rule disj_mset_values, intro allI impI)
      fix k1 k2 r1 r2 assume ne: "k1 \<noteq> k2" and g1: "sm_get u' k1 = Some r1" and g2: "sm_get u' k2 = Some r2"
      have "k1 \<in> fst ` set kvs" using live [of k1] none [of k1] g1 by simp
      moreover have "k2 \<in> fst ` set kvs" using live [of k2] none [of k2] g2 by simp
      ultimately show "range_disj r1 r2" using dj ne g1 g2 by blast
    qed
    moreover have "range_wf r' \<and> r_end r' \<le> length ?nd" if rin: "r' \<in> set (sm_values u')" for r'
    proof -
      obtain k where k: "sm_get u' k = Some r'" using rin by (auto simp: in_sm_values)
      then have "sm_get ?u k \<noteq> None" using none [of k] by simp
      then obtain r where "sm_get ?u k = Some r" by blast
      then have "(k, r) \<in> set kvs" using setk by (simp add: in_sm_iter)
      then obtain r'' where "sm_get u' k = Some r''" "range_wf r''" "r_end r'' \<le> sum_len (map snd kvs)"
        using new by blast
      moreover have "sum_len (map snd kvs) = length ?nd" using l1 by simp
      ultimately show ?thesis using k by simp
    qed
    moreover have "sum_len (sm_values u') = length ?nd"
      using lens(1) len sum_live_lens [of u'] sum_live_lens [of ?u] by simp
    ultimately show ?thesis using lens(2) assms(1) by (auto simp: layout_inv_def ranges_in_def)
  qed
  with sr len none keep show ?thesis by auto
qed

lemma optimize_sort_facts:
  assumes "layout_inv s" "st \<noteq> Truncate" "optimize st dev s = Inr (dev', s')"
  shows "dev' = dev \<and> layout_inv s' \<and> length (data s') \<le> length (data s) \<and>
    mutated s' = mutated s \<and> buffer s' = buffer s \<and>
    (\<forall>k. sm_get (used_ranges s') k = None \<longleftrightarrow> sm_get (used_ranges s) k = None) \<and>
    (\<forall>k r. sm_get (used_ranges s) k = Some r \<longrightarrow>
       (\<exists>r'. sm_get (used_ranges s') k = Some r' \<and> sub_slice (data s') r' = sub_slice (data s) r))"
proof -
  obtain s1 where s1: "sort_ranges (st = SortSizeDescending) s = Inr s1" "layout_inv s1"
      "length (data s1) = sum_len (sm_values (used_ranges s))"
    and rest: "(\<forall>k. sm_get (used_ranges s1) k = None \<longleftrightarrow> sm_get (used_ranges s) k = None) \<and>
    (\<forall>k r. sm_get (used_ranges s) k = Some r \<longrightarrow>
       (\<exists>r'. sm_get (used_ranges s1) k = Some r' \<and> sub_slice (data s1) r' = sub_slice (data s) r))"
      "mutated s1 = mutated s" "buffer s1 = buffer s"
    using sort_ranges_correct [OF assms(1), of "st = SortSizeDescending"] by blast
  have "optimize st dev s = Inr (dev, s1)" using s1(1) assms(2) by (cases st) (simp_all add: optimize_def)
  with assms(3) have "dev' = dev" "s' = s1" by simp_all
  moreover have "sum_len (sm_values (used_ranges s)) \<le> length (data s)"
    using assms(1) by (simp add: layout_inv_def)
  ultimately show ?thesis using s1 rest by simp
qed

section \<open>Properties\<close>

text \<open>C19: on a state with the layout invariant, \<open>optimize\<close> with \<open>SortSizeDescending\<close>
  or \<open>SortSizeAscending\<close> succeeds without touching the device, leaves \<open>data\<close> as the
  live allocations' bytes laid end to end, largest first (smallest first for
  \<open>SortSizeAscending\<close>), with an empty free list and the layout invariant, and every
  handle reads the bytes it read before. It leaves \<open>mutated\<close> as it was (see C5).\<close>

theorem optimize_sort_correct:
  assumes "layout_inv s" "st \<noteq> Truncate"
  shows "\<exists>s' vs. optimize st dev s = Inr (dev, s') \<and> layout_inv s' \<and> available_ranges s' = [] \<and>
    mutated s' = mutated s \<and> buffer s' = buffer s \<and> data s' = concat vs \<and>
    mset vs = mset (map (sub_slice (data s) \<circ> snd) (sm_iter (used_ranges s))) \<and>
    sorted_wrt (\<lambda>a c. if st = SortSizeDescending then length c \<le> length a else length a \<le> length c) vs \<and>
    (\<forall>k r. sm_get (used_ranges s) k = Some r \<longrightarrow>
       (\<exists>r'. sm_get (used_ranges s') k = Some r' \<and> sub_slice (data s') r' = sub_slice (data s) r))"
proof -
  let ?b = "st = SortSizeDescending" and ?u = "used_ranges s" and ?d = "data s"
  let ?kvs = "sort_key (sort_key_of ?b) (sm_iter ?u)"
  obtain s' where s': "sort_ranges ?b s = Inr s'" "layout_inv s'" "available_ranges s' = []"
      "data s' = concat (map (sub_slice ?d \<circ> snd) ?kvs)"
    and keep: "\<forall>k r. sm_get ?u k = Some r \<longrightarrow>
       (\<exists>r'. sm_get (used_ranges s') k = Some r' \<and> sub_slice (data s') r' = sub_slice ?d r)"
    and fr: "buffer s' = buffer s" "mutated s' = mutated s"
    using sort_ranges_correct [OF assms(1), of ?b] by blast
  have opt: "optimize st dev s = Inr (dev, s')" using s'(1) assms(2) by (cases st) (simp_all add: optimize_def)
  have "mset (map (sub_slice ?d \<circ> snd) ?kvs) = mset (map (sub_slice ?d \<circ> snd) (sm_iter ?u))"
    by (simp only: mset_map mset_sort)
  moreover have "sorted_wrt (\<lambda>a c. if ?b then length c \<le> length a else length a \<le> length c)
      (map (sub_slice ?d \<circ> snd) ?kvs)"
  proof -
    have srt: "sorted_wrt (\<lambda>x y. sort_key_of ?b x \<le> sort_key_of ?b y) ?kvs"
      using sorted_sort_key [of "sort_key_of ?b" "sm_iter ?u"] by (simp add: sorted_map)
    have bd: "r_end r \<le> length ?d" if kr: "(k, r) \<in> set ?kvs" for k r
    proof -
      have "sm_get ?u k = Some r" using kr by (simp add: in_sm_iter)
      then show ?thesis using layout_get_bounds [OF assms(1)] by blast
    qed
    have "sorted_wrt (\<lambda>x y. if ?b then length (sub_slice ?d (snd y)) \<le> length (sub_slice ?d (snd x))
                         else length (sub_slice ?d (snd x)) \<le> length (sub_slice ?d (snd y))) ?kvs"
    proof (rule sorted_wrt_mono_rel [OF _ srt])
      fix x y assume "x \<in> set ?kvs" "y \<in> set ?kvs" "sort_key_of ?b x \<le> sort_key_of ?b y"
      moreover obtain k r k' r' where "x = (k, r)" "y = (k', r')" by fastforce
      ultimately show "if ?b then length (sub_slice ?d (snd y)) \<le> length (sub_slice ?d (snd x))
                         else length (sub_slice ?d (snd x)) \<le> length (sub_slice ?d (snd y))"
        using bd [of k r] bd [of k' r'] by (auto simp: sort_key_of_def split: if_splits)
    qed
    then show ?thesis by (simp only: sorted_wrt_map comp_def)
  qed
  ultimately show ?thesis using opt s' keep fr by blast
qed

theorem optimize_sort_correct_witness:
  "case run 4 (new_simple 4 0 dev0) [Allocate 1, Allocate 2, SetElem (Key 1 1) 0 [1, 2, 3, 4]] of
     Inr (d, s) \<Rightarrow> layout_inv s \<and> SortSizeDescending \<noteq> Truncate \<and>
       (\<exists>s'. optimize SortSizeDescending d s = Inr (d, s') \<and> layout_inv s' \<and> available_ranges s' = [])
   | Inl _ \<Rightarrow> False"
proof -
  have "case run 4 (new_simple 4 0 dev0) [Allocate 1, Allocate 2, SetElem (Key 1 1) 0 [1, 2, 3, 4]] of
     Inr (d, s) \<Rightarrow> layout_inv s | Inl _ \<Rightarrow> False"
    by code_simp
  then obtain d s where r: "run 4 (new_simple 4 0 dev0) [Allocate 1, Allocate 2, SetElem (Key 1 1) 0 [1, 2, 3, 4]] = Inr (d, s)"
    and h: "layout_inv s"
    by (auto split: sum.splits)
  have t: "SortSizeDescending \<noteq> Truncate" by simp
  from optimize_sort_correct [OF h t, of d] obtain s' where
    "optimize SortSizeDescending d s = Inr (d, s')" "layout_inv s'" "available_ranges s' = []"
    by blast
  with r h show ?thesis by auto
qed

end
