(* ===== verification/Runs.thy ===== *)
theory Runs
  imports Sorting
begin

text \<open>
  Runs of \<open>SimpleGpuMemory\<close> that keep the layout invariant. \<open>op_ok\<close> admits every
  call except \<open>free\<close> and \<open>resize\<close> on a non-empty free list (where the coalescing
  bug of \<open>make_range_available\<close> can break the invariant) and element writes of the
  wrong width; \<open>run_ok\<close> checks each call of a run in the state it is made in. Every
  admitted step keeps the layout invariant and \<open>sync_inv\<close> (the device buffer holds at
  least \<open>data\<close> while \<open>mutated\<close> is clear).
\<close>

text \<open>The calls the run-level results cover: an element write of exactly
  \<open>size_of::<T>()\<close> bytes, and \<open>free\<close> and \<open>resize\<close> on an empty free list; every
  other call (all three strategies of \<open>optimize\<close> included) without restriction.\<close>

definition op_ok :: "nat \<Rightarrow> simple_gpu_memory \<Rightarrow> op \<Rightarrow> bool" where
  "op_ok esz s o1 =
     (case o1 of
        SetElem k i x \<Rightarrow> length x = esz
      | Free k \<Rightarrow> available_ranges s = []
      | Resize k n \<Rightarrow> available_ranges s = []
      | _ \<Rightarrow> True)"

text \<open>The device buffer is at least as large as \<open>data\<close> whenever \<open>mutated\<close> is clear.\<close>

definition sync_inv :: "simple_gpu_memory \<Rightarrow> bool" where
  "sync_inv s \<longleftrightarrow> (\<not> mutated s \<longrightarrow> length (data s) \<le> buf_size (buffer s))"

text \<open>Every call of a run is covered, each checked in the state it is made in.\<close>

fun run_ok :: "nat \<Rightarrow> device \<times> simple_gpu_memory \<Rightarrow> op list \<Rightarrow> bool" where
  "run_ok esz ds [] = True"
| "run_ok esz (dev, s) (o1 # os) =
     (op_ok esz s o1 \<and> (case step esz (dev, s) o1 of Inl _ \<Rightarrow> True | Inr ds' \<Rightarrow> run_ok esz ds' os))"


section \<open>Runs\<close>

lemma layout_step:
  assumes "layout_inv s" "op_ok esz s o1" "step esz (dev, s) o1 = Inr (dev', s')"
  shows "layout_inv s'"
proof (cases o1)
  case (Allocate n)
  with assms show ?thesis using allocate_layout [of s esz n] by (auto simp: prod_eq_iff)
next
  case (Get k)
  with assms show ?thesis by (auto simp: layout_inv_def dest!: get_Inr split: sum.splits)
next
  case (SetElem k i x)
  with assms show ?thesis by (auto simp: op_ok_def intro: set_elem_layout split: sum.splits)
next
  case (LenOf k)
  with assms show ?thesis by (simp split: sum.splits)
next
  case (Resize k n)
  with assms show ?thesis by (auto simp: op_ok_def intro: resize_layout split: sum.splits)
next
  case (Free k)
  with assms show ?thesis using free_layout [of s esz k] by (auto simp: op_ok_def split: sum.splits)
next
  case Upload
  with assms show ?thesis by (auto intro: upload_layout)
next
  case (Optimize st)
  show ?thesis
  proof (cases "st = Truncate")
    case True
    with Optimize assms show ?thesis by (auto intro: truncate_layout)
  next
    case False
    with Optimize assms(3) have "optimize st dev s = Inr (dev', s')" by simp
    from optimize_sort_facts [OF assms(1) False this] show ?thesis by simp
  qed
qed

lemma layout_run:
  "layout_inv s \<Longrightarrow> run_ok esz (dev, s) ops \<Longrightarrow> run esz (dev, s) ops = Inr (dev', s') \<Longrightarrow> layout_inv s'"
proof (induction ops arbitrary: dev s)
  case Nil
  then show ?case by simp
next
  case (Cons o1 os)
  then obtain dev1 s1 where st: "step esz (dev, s) o1 = Inr (dev1, s1)"
    by (auto split: sum.splits)
  with Cons.prems have "layout_inv s1" "run_ok esz (dev1, s1) os" "run esz (dev1, s1) os = Inr (dev', s')"
    using layout_step [of s esz o1 dev dev1 s1] by auto
  then show ?case by (rule Cons.IH)
qed

section \<open>The device buffer after an upload\<close>

lemma sync_step:
  assumes "layout_inv s" "op_ok esz s o1" "sync_inv s" "step esz (dev, s) o1 = Inr (dev', s')"
  shows "sync_inv s'"
proof (cases o1)
  case (Allocate n)
  with assms(4) show ?thesis by (auto simp: sync_inv_def allocate_eq Let_def split: prod.splits)
next
  case (Get k)
  with assms(4) show ?thesis by (auto simp: sync_inv_def dest!: get_Inr split: sum.splits)
next
  case (SetElem k i x)
  with assms(4) show ?thesis by (auto simp: sync_inv_def dest!: set_elem_Inr split: sum.splits)
next
  case (LenOf k)
  with assms(3,4) show ?thesis by (auto split: sum.splits)
next
  case (Resize k n)
  with assms(3,4) show ?thesis
    by (auto simp: sync_inv_def resize_def free_cases allocate_eq Let_def
             split: sum.splits option.splits if_splits prod.splits)
next
  case (Free k)
  with assms(4) show ?thesis by (auto simp: sync_inv_def free_cases split: sum.splits prod.splits option.splits if_splits)
next
  case Upload
  show ?thesis
  proof (cases "mutated s")
    case False
    with Upload assms(3,4) show ?thesis by (simp add: upload_def)
  next
    case True
    obtain s1 where fs: "fix_sequence s = Inr s1" "layout_inv s1"
      using fix_sequence_correct [OF assms(1)] by blast
    obtain buf where ur: "upload_or_resize dev (buffer s1) (data s1) = (dev', buf)"
      and s': "s' = s1\<lparr>buffer := buf, mutated := False\<rparr>"
      using assms(4) Upload True fs(1) by (auto simp: upload_def split: prod.splits)
    have "length (buf_contents (buffer s1)) = buf_size (buffer s1)" using fs(2) by (simp add: layout_inv_def)
    then have "length (data s1) \<le> buf_size buf"
      using upload_or_resize_prefix(3) [where bs = "data s1" and dev = dev and buf = "buffer s1"] ur by simp
    then show ?thesis by (simp add: s' sync_inv_def)
  qed
next
  case (Optimize st)
  show ?thesis
  proof (cases "st = Truncate")
    case True
    with Optimize assms(4) obtain s1 where "fix_sequence s = Inr s1"
      "s' = s1\<lparr>buffer := snd (create_buffer_init dev (buf_usage (buffer s1) OR COPY_DST) (data s1))\<rparr>"
      by (auto simp: optimize_def split: sum.splits prod.splits)
    then show ?thesis using padded_size_ge [of "length (data s1)"] by (simp add: sync_inv_def create_buffer_init_def)
  next
    case False
    with Optimize assms(4) have "optimize st dev s = Inr (dev', s')" by simp
    then have "length (data s') \<le> length (data s)" "mutated s' = mutated s" "buffer s' = buffer s"
      using optimize_sort_facts [OF assms(1) False] by simp_all
    with assms(3) show ?thesis by (auto simp: sync_inv_def)
  qed
qed

lemma sync_run:
  "layout_inv s \<Longrightarrow> sync_inv s \<Longrightarrow> run_ok esz (dev, s) ops \<Longrightarrow> run esz (dev, s) ops = Inr (dev', s') \<Longrightarrow>
   sync_inv s'"
proof (induction ops arbitrary: dev s)
  case Nil then show ?case by simp
next
  case (Cons o1 os)
  then obtain dev1 s1 where st: "step esz (dev, s) o1 = Inr (dev1, s1)"
    by (auto split: sum.splits)
  with Cons.prems have ok: "op_ok esz s o1" "run_ok esz (dev1, s1) os" "run esz (dev1, s1) os = Inr (dev', s')"
    by auto
  have "layout_inv s1" using layout_step [OF Cons.prems(1) ok(1) st] .
  moreover have "sync_inv s1" using sync_step [OF Cons.prems(1) ok(1) Cons.prems(2) st] .
  ultimately show ?case using Cons.IH ok(2,3) by blast
qed

lemma sync_new: "sync_inv (snd (new_simple esz usages dev))"
  by (simp add: sync_inv_def new_simple_def create_buffer_def split: prod.splits)
end
