(* ===== verification/Refinement.thy ===== *)
theory Refinement
  imports Runs
begin

text \<open>
  An abstract specification of the allocator (spec sections 3 and 4) and the proof that
  \<open>SimpleGpuMemory\<close> refines it. The abstract memory maps each live handle to the
  bytes of its allocation, \<open>key \<Rightarrow> byte list option\<close>; the abstract step relation
  \<open>astep\<close> says what each call may do to it: \<open>allocate\<close> adds a fresh handle with
  \<open>count\<close> elements of unspecified contents, an element write changes exactly that
  element of that handle, \<open>free\<close> removes the handle, a growing \<open>resize\<close> replaces the
  handle by a fresh one of the new size, a shrinking one keeps the trailing elements,
  and \<open>get\<close>, \<open>len_of\<close>, \<open>upload\<close> and \<open>optimize\<close> change nothing a handle can see. The
  abstraction function \<open>view\<close> reads each live handle's range of \<open>data\<close>. The
  simulation holds on every state with the layout invariant, for every call that
  \<open>op_ok\<close> admits (theory \<open>Layout\<close>).
\<close>

section \<open>The abstract memory\<close>

type_synonym amem = "key \<Rightarrow> byte list option"

definition view :: "simple_gpu_memory \<Rightarrow> amem" where
  "view s k = map_option (sub_slice (data s)) (sm_get (used_ranges s) k)"

inductive astep :: "nat \<Rightarrow> amem \<Rightarrow> op \<Rightarrow> amem \<Rightarrow> bool" where
  a_alloc: "m k = None \<Longrightarrow> length v = esz * n \<Longrightarrow> astep esz m (Allocate n) (m(k \<mapsto> v))"
| a_get: "astep esz m (Get k) m"
| a_set: "m k = Some v \<Longrightarrow> i * esz + length x \<le> length v \<Longrightarrow>
    astep esz m (SetElem k i x) (m(k \<mapsto> write_at (i * esz) x v))"
| a_len_of: "astep esz m (LenOf k) m"
| a_grow: "m k = Some v \<Longrightarrow> length v < n * esz \<Longrightarrow> (m(k := None)) k' = None \<Longrightarrow> length v' = n * esz \<Longrightarrow>
    astep esz m (Resize k n) ((m(k := None))(k' \<mapsto> v'))"
| a_same: "m k = Some v \<Longrightarrow> length v = n * esz \<Longrightarrow> astep esz m (Resize k n) m"
| a_shrink: "m k = Some v \<Longrightarrow> n * esz < length v \<Longrightarrow>
    astep esz m (Resize k n) (m(k \<mapsto> drop (length v - n * esz) v))"
| a_free: "astep esz m (Free k) (m(k := None))"
| a_upload: "astep esz m Upload m"
| a_optimize: "astep esz m (Optimize st) m"

inductive aruns :: "nat \<Rightarrow> amem \<Rightarrow> op list \<Rightarrow> amem \<Rightarrow> bool" where
  ar_nil: "aruns esz m [] m"
| ar_cons: "astep esz m o1 m1 \<Longrightarrow> aruns esz m1 os m2 \<Longrightarrow> aruns esz m (o1 # os) m2"

section \<open>Slices of updated vectors\<close>

lemma sub_slice_write_at_inside:
  assumes "r_start r \<le> off" "off + length x \<le> r_end r" "r_end r \<le> length d"
  shows "sub_slice (write_at off x d) r = write_at (off - r_start r) x (sub_slice d r)"
proof -
  let ?a = "r_start r" and ?b = "r_end r" and ?L = "length x"
  have "drop ?a (write_at off x d) = take (off - ?a) (drop ?a d) @ x @ drop (off + ?L) d"
    using assms by (simp add: write_at_def drop_append drop_take)
  then have l: "sub_slice (write_at off x d) r =
      take (off - ?a) (drop ?a d) @ x @ take (?b - off - ?L) (drop (off + ?L) d)"
    using assms by (simp add: sub_slice_def range_len_def take_append)
  have "drop (off - ?a + ?L) (take (?b - ?a) (drop ?a d)) = take (?b - off - ?L) (drop (off + ?L) d)"
    using assms by (simp add: drop_take)
  then have "write_at (off - ?a) x (sub_slice d r) =
      take (off - ?a) (drop ?a d) @ x @ take (?b - off - ?L) (drop (off + ?L) d)"
    using assms by (simp add: write_at_def sub_slice_def range_len_def min_def)
  with l show ?thesis by simp
qed

lemma sub_slice_tail:
  assumes "sz \<le> range_len r" "range_wf r"
  shows "sub_slice d (mk_range (r_end r - sz) (r_end r)) = drop (range_len r - sz) (sub_slice d r)"
  using assms by (simp add: sub_slice_def range_len_def range_wf_def drop_take)

section \<open>What each call does to the view\<close>

lemma view_frame [simp]:
  "view (s\<lparr>buffer := b\<rparr>) = view s" "view (s\<lparr>mutated := m\<rparr>) = view s"
  by (simp add: view_def fun_eq_iff)+

lemma view_new: "view (snd (new_simple esz usages dev)) = Map.empty"
  by (simp add: view_def new_simple_def create_buffer_def fun_eq_iff split: prod.splits)

lemma view_get: "get esz k s = Inr (s', r) \<Longrightarrow> view s' = view s"
  by (auto simp: view_def dest!: get_Inr)

lemma view_set_elem:
  assumes "layout_inv s" "set_elem esz k i x s = Inr s'" "length x = esz"
  shows "\<exists>v. view s k = Some v \<and> i * esz + length x \<le> length v \<and>
    view s' = (view s)(k \<mapsto> write_at (i * esz) x v)"
proof -
  obtain r where r: "sm_get (used_ranges s) k = Some r"
    and s': "s' = s\<lparr>mutated := True, data := write_at (r_start r + i * esz) x (data s)\<rparr>"
    and fit: "r_start r + i * esz + length x \<le> r_end r" and rd: "r_end r \<le> length (data s)"
    using set_elem_write [OF assms(2,3)] by blast
  let ?off = "r_start r + i * esz"
  have fitd: "?off + length x \<le> length (data s)" using fit rd by linarith
  have "view s' k' = ((view s)(k \<mapsto> write_at (i * esz) x (sub_slice (data s) r))) k'" for k'
  proof (cases "k' = k")
    case True
    then show ?thesis using r fit rd by (simp add: view_def s' sub_slice_write_at_inside)
  next
    case False
    show ?thesis
    proof (cases "sm_get (used_ranges s) k'")
      case None
      with False show ?thesis by (simp add: view_def s')
    next
      case (Some r')
      have "range_disj r' r" using layout_keys_disj [OF assms(1) Some r False] .
      then have "range_disj r' (mk_range ?off (?off + length x))" using fit by (auto simp: range_disj_def)
      with Some False fitd show ?thesis by (simp add: view_def s' sub_slice_write_at_outside)
    qed
  qed
  moreover have "i * esz + length x \<le> length (sub_slice (data s) r)" using fit rd by (simp add: range_len_def)
  ultimately show ?thesis using r by (auto simp: view_def)
qed

lemma view_allocate:
  assumes "layout_inv s" "allocate esz n s = (k, s')"
  shows "\<exists>v. view s k = None \<and> length v = esz * n \<and> view s' = (view s)(k \<mapsto> v)"
proof -
  have a: "layout_inv s'" "sm_get (used_ranges s) k = None"
    "\<exists>r. sm_get (used_ranges s') k = Some r \<and> range_len r = esz * n"
    "\<forall>k'. k' \<noteq> k \<longrightarrow> sm_get (used_ranges s') k' = sm_get (used_ranges s) k'"
    "\<forall>k' r'. sm_get (used_ranges s) k' = Some r' \<longrightarrow> sub_slice (data s') r' = sub_slice (data s) r'"
    using allocate_layout [OF assms] by simp_all
  obtain r where r: "sm_get (used_ranges s') k = Some r" "range_len r = esz * n" using a(3) by blast
  have "r_end r \<le> length (data s')" using layout_get_bounds [OF a(1) r(1)] by simp
  then have len: "length (sub_slice (data s') r) = esz * n" using r(2) by simp
  have "view s' k' = ((view s)(k \<mapsto> sub_slice (data s') r)) k'" for k'
    using a(4,5) r(1) by (cases "k' = k"; cases "sm_get (used_ranges s) k'") (auto simp: view_def)
  then have "view s' = (view s)(k \<mapsto> sub_slice (data s') r)" by (rule ext)
  with len a(2) show ?thesis by (auto simp: view_def)
qed

lemma view_free:
  assumes "layout_inv s" "available_ranges s = []" "free esz k s = Inr s'"
  shows "view s' = (view s)(k := None)"
  using free_layout [OF assms] by (auto simp: view_def)

lemma view_fix_sequence:
  assumes "layout_inv s" "fix_sequence s = Inr s'"
  shows "view s' = view s \<and> layout_inv s'"
proof -
  obtain s1 where fs: "fix_sequence s = Inr s1" "layout_inv s1"
    and keep: "\<forall>k r. sm_get (used_ranges s) k = Some r \<longrightarrow>
        (\<exists>r'. sm_get (used_ranges s1) k = Some r' \<and> sub_slice (data s1) r' = sub_slice (data s) r)"
    and none: "\<forall>k. sm_get (used_ranges s1) k = None \<longleftrightarrow> sm_get (used_ranges s) k = None"
    using fix_sequence_correct [OF assms(1)] by blast
  have "view s1 k = view s k" for k
    using keep none by (cases "sm_get (used_ranges s) k") (auto simp: view_def)
  with fs assms(2) show ?thesis by auto
qed

lemma view_upload:
  assumes "layout_inv s" "upload dev s = Inr (dev', s')"
  shows "view s' = view s"
  using upload_Inr [OF assms(2)] view_fix_sequence [OF assms(1)] by (auto simp: view_def)

lemma view_truncate:
  assumes "layout_inv s" "optimize Truncate dev s = Inr (dev', s')"
  shows "view s' = view s"
proof -
  obtain s1 where "fix_sequence s = Inr s1"
    "s' = s1\<lparr>buffer := snd (create_buffer_init dev (buf_usage (buffer s1) OR COPY_DST) (data s1))\<rparr>"
    using assms(2) by (auto simp: optimize_def split: sum.splits prod.splits)
  with view_fix_sequence [OF assms(1)] show ?thesis by (auto simp: view_def)
qed

lemma view_sort:
  assumes "layout_inv s" "st \<noteq> Truncate" "optimize st dev s = Inr (dev', s')"
  shows "view s' = view s"
proof -
  have none: "\<forall>k. sm_get (used_ranges s') k = None \<longleftrightarrow> sm_get (used_ranges s) k = None"
    and keep: "\<forall>k r. sm_get (used_ranges s) k = Some r \<longrightarrow>
       (\<exists>r'. sm_get (used_ranges s') k = Some r' \<and> sub_slice (data s') r' = sub_slice (data s) r)"
    using optimize_sort_facts [OF assms] by simp_all
  have "view s' k = view s k" for k
    using none keep by (cases "sm_get (used_ranges s) k") (auto simp: view_def)
  then show ?thesis by (rule ext)
qed

lemma view_resize:
  assumes "layout_inv s" "available_ranges s = []" "resize esz k n s = Inr (k', s')"
  shows "astep esz (view s) (Resize k n) (view s')"
proof -
  from assms(3) obtain r where get: "sm_get (used_ranges s) k = Some r"
    by (auto simp: resize_def Let_def split: option.splits)
  have rb: "range_wf r" "r_end r \<le> length (data s)" using layout_get_bounds [OF assms(1) get] by simp_all
  let ?v = "sub_slice (data s) r"
  have vk: "view s k = Some ?v" and lv: "length ?v = range_len r" using get rb by (simp_all add: view_def)
  consider (grow) "range_len r < n * esz" | (same) "range_len r = n * esz" | (shrink) "n * esz < range_len r"
    by linarith
  then show ?thesis
  proof cases
    case grow
    with assms(3) get obtain s1 where f: "free esz k s = Inr s1" and a: "allocate esz n s1 = (k', s')"
      by (auto simp: resize_cases split: sum.splits)
    have s1: "layout_inv s1" "view s1 = (view s)(k := None)"
      using free_layout [OF assms(1,2) f] view_free [OF assms(1,2) f] by simp_all
    obtain v where "view s1 k' = None" "length v = esz * n" "view s' = (view s1)(k' \<mapsto> v)"
      using view_allocate [OF s1(1) a] by blast
    with s1(2) vk lv grow show ?thesis by (auto intro: a_grow simp: mult.commute)
  next
    case same
    with assms(3) get have "s' = s" by (simp add: resize_cases)
    with same vk lv show ?thesis by (auto intro: a_same)
  next
    case shrink
    let ?t = "mk_range (r_end r - n * esz) (r_end r)"
    from shrink assms(2,3) get obtain u where set: "sm_set k ?t (used_ranges s) = Inr u"
      and s': "data s' = data s" "used_ranges s' = u"
      by (auto simp: resize_cases make_range_available_Nil split: if_splits sum.splits)
    have "view s' = (view s)(k \<mapsto> sub_slice (data s) ?t)"
      using sm_set_Inr(1) [OF set] s' by (auto simp: view_def fun_eq_iff)
    moreover have "sub_slice (data s) ?t = drop (length ?v - n * esz) ?v"
      using sub_slice_tail [of "n * esz" r "data s"] shrink rb(1) lv by simp
    ultimately show ?thesis
      using a_shrink [where m = "view s" and k = k and v = ?v and n = n and esz = esz] vk lv shrink by simp
  qed
qed

section \<open>Simulation\<close>

lemma astep_step:
  assumes "layout_inv s" "op_ok esz s o1" "step esz (dev, s) o1 = Inr (dev', s')"
  shows "astep esz (view s) o1 (view s')"
proof (cases o1)
  case (Allocate n)
  with assms(3) have "allocate esz n s = (fst (allocate esz n s), s')" by (simp add: prod_eq_iff)
  from view_allocate [OF assms(1) this] Allocate show ?thesis by (auto intro: a_alloc)
next
  case (Get k)
  with assms(3) show ?thesis
    using a_get [of esz "view s" k] by (auto dest!: view_get split: sum.splits)
next
  case (SetElem k i x)
  with assms(2,3) obtain s1 where "set_elem esz k i x s = Inr s1" "s' = s1" "length x = esz"
    by (auto simp: op_ok_def split: sum.splits)
  with view_set_elem [OF assms(1)] SetElem show ?thesis by (force intro: a_set)
next
  case (LenOf k)
  with assms(3) show ?thesis by (auto intro: a_len_of split: sum.splits)
next
  case (Resize k n)
  with assms(2,3) show ?thesis by (auto simp: op_ok_def intro: view_resize [OF assms(1)] split: sum.splits)
next
  case (Free k)
  with assms(2,3) have "available_ranges s = []" "free esz k s = Inr s'"
    by (auto simp: op_ok_def split: sum.splits)
  with Free show ?thesis using view_free [OF assms(1)] a_free [of esz "view s" k] by simp
next
  case Upload
  with assms(3) view_upload [OF assms(1)] show ?thesis by (auto intro: a_upload)
next
  case (Optimize st)
  with assms(3) view_truncate [OF assms(1)] view_sort [OF assms(1)] show ?thesis
    by (cases "st = Truncate") (auto intro: a_optimize)
qed

lemma astep_run:
  "layout_inv s \<Longrightarrow> run_ok esz (dev, s) ops \<Longrightarrow> run esz (dev, s) ops = Inr (dev', s') \<Longrightarrow>
   aruns esz (view s) ops (view s')"
proof (induction ops arbitrary: dev s)
  case Nil then show ?case by (simp add: ar_nil)
next
  case (Cons o1 os)
  then obtain dev1 s1 where st: "step esz (dev, s) o1 = Inr (dev1, s1)"
    by (auto split: sum.splits)
  with Cons.prems have ok: "op_ok esz s o1" "run_ok esz (dev1, s1) os" "run esz (dev1, s1) os = Inr (dev', s')"
    by auto
  have "layout_inv s1" using layout_step [OF Cons.prems(1) ok(1) st] .
  with Cons.IH ok(2,3) have "aruns esz (view s1) os (view s')" by blast
  with astep_step [OF Cons.prems(1) ok(1) st] show ?case by (rule ar_cons)
qed

section \<open>Properties\<close>

text \<open>C13: every run from \<open>new\<close> that \<open>run_ok\<close> admits (each \<open>free\<close> and \<open>resize\<close> on
  an empty free list, element writes of the element size) refines the abstract memory: read through \<open>view\<close>, it is a run of
  \<open>astep\<close> from the empty memory.\<close>

theorem run_refines_amem:
  assumes "run_ok esz (new_simple esz usages dev) ops"
    and "run esz (new_simple esz usages dev) ops = Inr (dev', s)"
  shows "aruns esz Map.empty ops (view s)"
proof -
  obtain d0 s0 where n: "new_simple esz usages dev = (d0, s0)" by fastforce
  have "layout_inv s0" using layout_new [of esz usages dev] n by simp
  from astep_run [OF this] assms n have "aruns esz (view s0) ops (view s)" by simp
  with view_new [of esz usages dev] n show ?thesis by simp
qed

theorem run_refines_amem_witness:
  "case run 4 (new_simple 4 0 dev0) [Allocate 1, Allocate 2, SetElem (Key 1 1) 1 [5, 6, 7, 8], Free (Key 0 1), Upload] of
     Inr (d, s) \<Rightarrow> aruns 4 Map.empty [Allocate 1, Allocate 2, SetElem (Key 1 1) 1 [5, 6, 7, 8], Free (Key 0 1), Upload] (view s)
                  \<and> view s (Key 1 1) = Some [0, 0, 0, 0, 5, 6, 7, 8] \<and> view s (Key 0 1) = None
   | Inl _ \<Rightarrow> False"
proof -
  have "run_ok 4 (new_simple 4 0 dev0) [Allocate 1, Allocate 2, SetElem (Key 1 1) 1 [5, 6, 7, 8], Free (Key 0 1), Upload] \<and>
    (case run 4 (new_simple 4 0 dev0) [Allocate 1, Allocate 2, SetElem (Key 1 1) 1 [5, 6, 7, 8], Free (Key 0 1), Upload] of
       Inr (d, s) \<Rightarrow> view s (Key 1 1) = Some [0, 0, 0, 0, 5, 6, 7, 8] \<and> view s (Key 0 1) = None
     | Inl _ \<Rightarrow> False)"
    by code_simp
  then obtain d s where ok: "run_ok 4 (new_simple 4 0 dev0) [Allocate 1, Allocate 2, SetElem (Key 1 1) 1 [5, 6, 7, 8], Free (Key 0 1), Upload]"
    and r: "run 4 (new_simple 4 0 dev0) [Allocate 1, Allocate 2, SetElem (Key 1 1) 1 [5, 6, 7, 8], Free (Key 0 1), Upload] = Inr (d, s)"
    and v: "view s (Key 1 1) = Some [0, 0, 0, 0, 5, 6, 7, 8]" "view s (Key 0 1) = None"
    by (auto split: sum.splits)
  from run_refines_amem [OF ok r] r v show ?thesis by simp
qed

text \<open>C14: an allocation of \<open>cnt\<close> elements reads back as \<open>cnt\<close> elements: after
  \<open>allocate\<close>, \<open>len_of\<close> on the new handle returns \<open>cnt\<close>, and the handle's view has
  \<open>cnt * size_of::<T>()\<close> bytes.\<close>

theorem allocate_len_of_roundtrip:
  assumes "layout_inv s" "0 < esz" "allocate esz cnt s = (k, s')"
  shows "len_of esz k s' = Inr cnt \<and> (\<exists>v. view s' k = Some v \<and> length v = esz * cnt)"
proof -
  obtain v where v: "view s k = None" "length v = esz * cnt" "view s' = (view s)(k \<mapsto> v)"
    using view_allocate [OF assms(1,3)] by blast
  obtain r where r: "sm_get (used_ranges s') k = Some r" "range_len r = esz * cnt"
    using allocate_layout [OF assms(1,3)] by blast
  have "len_of esz k s' = Inr cnt" using r assms(2) by (simp add: len_of_def)
  with v show ?thesis by simp
qed

theorem allocate_len_of_roundtrip_witness:
  "case run 4 (new_simple 4 0 dev0) [Allocate 2] of
     Inr (d, s) \<Rightarrow> layout_inv s \<and> len_of 4 (fst (allocate 4 3 s)) (snd (allocate 4 3 s)) = Inr 3
   | Inl _ \<Rightarrow> False"
proof -
  have "case run 4 (new_simple 4 0 dev0) [Allocate 2] of Inr (d, s) \<Rightarrow> layout_inv s | Inl _ \<Rightarrow> False"
    by code_simp
  then obtain d s where r: "run 4 (new_simple 4 0 dev0) [Allocate 2] = Inr (d, s)" and h: "layout_inv s"
    by (auto split: sum.splits)
  have "(0::nat) < 4" by simp
  from allocate_len_of_roundtrip [OF h this, of 3 "fst (allocate 4 3 s)" "snd (allocate 4 3 s)"] r h
  show ?thesis by simp
qed

end
