(* ===== verification/Transport.thy ===== *)
theory Transport
  imports Layout
begin

text \<open>
  The transfers \<open>SimpleGpuMemory\<close> asks of the device, checked against the copy rules
  of \<open>wgpu\<close>, and the element alignment of the allocator that decides whether they
  hold. \<open>Queue::write_buffer\<close> rejects (a validation error, fatal under the default
  error handler) an offset or a byte count that is not a multiple of
  \<open>COPY_BUFFER_ALIGNMENT\<close> (4 bytes); buffer creation has no such rule for a buffer
  that is not mapped at creation, and \<open>create_buffer_init\<close> pads its contents itself.
  The allocator keeps every offset it hands out, every free range and the length of
  \<open>data\<close> a multiple of \<open>size_of::<T>()\<close> (\<open>aligned\<close>), in every run, even the
  runs where the coalescing bug of \<open>make_range_available\<close> strikes. So every upload
  writes a whole number of elements, which is a valid transfer when
  \<open>size_of::<T>()\<close> is a multiple of 4, and is not for a 2-byte \<open>T\<close>. A queue write
  also needs \<open>COPY_DST\<close> among the usage flags of its target: \<open>new\<close> and \<open>Truncate\<close>
  add it and \<open>upload_or_resize\<close> keeps the flags, so the buffer always has it.
\<close>

section \<open>The copy rules of the device\<close>

definition COPY_BUFFER_ALIGNMENT :: nat where
  "COPY_BUFFER_ALIGNMENT = 4"

text \<open>A transfer the device accepts: a queue write at an aligned offset of an aligned
  number of bytes; buffer creation always.\<close>

fun transfer_ok :: "transfer \<Rightarrow> bool" where
  "transfer_ok (WriteBuffer off bs) \<longleftrightarrow>
     COPY_BUFFER_ALIGNMENT dvd off \<and> COPY_BUFFER_ALIGNMENT dvd length bs"
| "transfer_ok (CreateBuffer n) = True"
| "transfer_ok (CreateBufferInit bs) = True"

text \<open>The usage a queue write needs on its target buffer: \<open>COPY_DST\<close> among the flags.\<close>

definition has_copy_dst :: "device_buffer \<Rightarrow> bool" where
  "has_copy_dst b \<longleftrightarrow> buf_usage b AND COPY_DST = COPY_DST"

section \<open>Element alignment\<close>

definition r_aligned :: "nat \<Rightarrow> address_range \<Rightarrow> bool" where
  "r_aligned esz r \<longleftrightarrow> esz dvd r_start r \<and> esz dvd r_end r"

text \<open>Every byte offset the allocator holds is a whole number of elements: the length of
  \<open>data\<close>, both ends of every free range and of every live range.\<close>

definition aligned :: "nat \<Rightarrow> simple_gpu_memory \<Rightarrow> bool" where
  "aligned esz s \<longleftrightarrow> sm_wf (used_ranges s) \<and> esz dvd length (data s) \<and>
     (\<forall>r \<in> set (available_ranges s). r_aligned esz r) \<and>
     (\<forall>r \<in> set (sm_values (used_ranges s)). r_aligned esz r)"

text \<open>The element writes of a run carry \<open>size_of::<T>()\<close> bytes each: the byte form of
  a value of type \<open>T\<close>.\<close>

definition ops_typed :: "nat \<Rightarrow> op list \<Rightarrow> bool" where
  "ops_typed esz ops \<longleftrightarrow> (\<forall>o1 \<in> set ops. case o1 of SetElem k i x \<Rightarrow> length x = esz | _ \<Rightarrow> True)"

section \<open>Alignment is kept by every call\<close>

lemma r_aligned_merge:
  "r_aligned esz a \<Longrightarrow> r_aligned esz b \<Longrightarrow>
   r_aligned esz (mk_range (min (r_start a) (r_start b)) (max (r_end a) (r_end b)))"
  by (simp add: r_aligned_def min_def max_def)

lemma r_aligned_len: "r_aligned esz r \<Longrightarrow> esz dvd range_len r"
  by (simp add: r_aligned_def range_len_def dvd_diff_nat)

lemma vals_aligned_get:
  "(\<forall>r \<in> set (sm_values u). r_aligned esz r) \<longleftrightarrow> (\<forall>k r. sm_get u k = Some r \<longrightarrow> r_aligned esz r)"
  by (auto simp: in_sm_values)

lemma merge_available_ranges_aligned:
  "\<forall>r \<in> set rs. r_aligned esz r \<Longrightarrow> \<forall>r \<in> set (merge_available_ranges i rs). r_aligned esz r"
proof (induction i rs rule: merge_available_ranges.induct)
  case (1 i rs)
  show ?case
  proof (cases "Suc i < length rs \<and> r_start (rs ! Suc i) \<le> r_end (rs ! i)")
    case True
    let ?m = "mk_range (min (r_start (rs ! i)) (r_start (rs ! Suc i))) (max (r_end (rs ! i)) (r_end (rs ! Suc i)))"
    have "r_aligned esz ?m" using "1.prems" True by (intro r_aligned_merge) auto
    have "set ((vec_remove (Suc i) rs)[i := ?m]) \<subseteq> insert ?m (set rs)"
      using set_update_subset_insert [of "vec_remove (Suc i) rs" i ?m] set_vec_remove [of "Suc i" rs]
      by blast
    with \<open>r_aligned esz ?m\<close> "1.prems" have "\<forall>r \<in> set ((vec_remove (Suc i) rs)[i := ?m]). r_aligned esz r"
      by blast
    with "1.IH" True show ?thesis by (simp add: merge_available_ranges.simps [of i rs] Let_def)
  next
    case False
    then have "merge_available_ranges i rs = rs" by (simp add: merge_available_ranges_stop merge_guard_def)
    with "1.prems" show ?thesis by simp
  qed
qed

lemma make_range_available_aligned:
  assumes "\<forall>r \<in> set rs. r_aligned esz r" "r_aligned esz r"
  shows "\<forall>r' \<in> set (make_range_available r rs). r_aligned esz r'"
proof (cases "position (\<lambda>other. r_start other \<le> r_end r) rs")
  case None
  with assms show ?thesis by (simp add: make_range_available_def)
next
  case (Some i)
  have "\<forall>r' \<in> set (vec_insert i r rs). r_aligned esz r'" using assms by simp
  from merge_available_ranges_aligned [OF this] Some show ?thesis by (simp add: make_range_available_def)
qed

lemma claim_range_Some:
  assumes "last_fit sz (available_ranges s) = Some i"
  shows "claim_range sz s =
    (if range_len (available_ranges s ! i) \<noteq> sz
     then (mk_range (r_end (available_ranges s ! i) - sz) (r_end (available_ranges s ! i)),
           s\<lparr>available_ranges := (available_ranges s)[i :=
              mk_range (r_start (available_ranges s ! i)) (r_end (available_ranges s ! i) - sz)]\<rparr>)
     else (available_ranges s ! i, s\<lparr>available_ranges := vec_remove i (available_ranges s)\<rparr>))"
  using assms by (simp add: claim_range_def Let_def)

lemma claim_range_aligned:
  assumes "aligned esz s" "esz dvd sz" "claim_range sz s = (r, s1)"
  shows "r_aligned esz r \<and> esz dvd length (data s1) \<and> (\<forall>r' \<in> set (available_ranges s1). r_aligned esz r')"
proof (cases "last_fit sz (available_ranges s)")
  case None
  with assms show ?thesis by (auto simp: claim_range_def r_aligned_def aligned_def)
next
  case (Some i)
  let ?av = "available_ranges s"
  let ?r = "?av ! i"
  have i: "i < length ?av" using last_fit_SomeD [OF Some] by simp
  then have ra: "r_aligned esz ?r" using assms(1) by (simp add: aligned_def)
  have av: "\<forall>r' \<in> set ?av. r_aligned esz r'" "esz dvd length (data s)" using assms(1) by (simp_all add: aligned_def)
  show ?thesis
  proof (cases "range_len ?r = sz")
    case True
    with assms(3) have e: "r = ?r" "s1 = s\<lparr>available_ranges := vec_remove i ?av\<rparr>"
      by (simp_all add: claim_range_Some [OF Some])
    have "\<forall>r' \<in> set (vec_remove i ?av). r_aligned esz r'"
      using av(1) set_vec_remove [of i ?av] by blast
    moreover from e(2) have "available_ranges s1 = vec_remove i ?av" "data s1 = data s" by simp_all
    ultimately show ?thesis using e(1) ra av(2) by (simp only:)
  next
    case False
    with assms(3) have e: "r = mk_range (r_end ?r - sz) (r_end ?r)"
      "s1 = s\<lparr>available_ranges := ?av[i := mk_range (r_start ?r) (r_end ?r - sz)]\<rparr>"
      by (simp_all add: claim_range_Some [OF Some])
    have a1: "r_aligned esz (mk_range (r_start ?r) (r_end ?r - sz))"
      and a2: "r_aligned esz (mk_range (r_end ?r - sz) (r_end ?r))"
      using ra assms(2) by (simp_all add: r_aligned_def dvd_diff_nat)
    have "\<forall>r' \<in> set (?av[i := mk_range (r_start ?r) (r_end ?r - sz)]). r_aligned esz r'"
      using av(1) a1 set_update_subset_insert [of ?av i] by blast
    moreover from e(2) have "available_ranges s1 = ?av[i := mk_range (r_start ?r) (r_end ?r - sz)]"
      "data s1 = data s" by simp_all
    ultimately show ?thesis using e(1) a2 av(2) by (simp only:)
  qed
qed

lemma allocate_aligned:
  assumes "aligned esz s"
  shows "aligned esz (snd (allocate esz cnt s))"
proof -
  obtain r s1 where cr: "claim_range (esz * cnt) s = (r, s1)" by fastforce
  obtain k u where ins: "sm_insert r (used_ranges s) = (k, u)" by fastforce
  have s': "snd (allocate esz cnt s) = s1\<lparr>mutated := True, allocated_count := allocated_count s + cnt, used_ranges := u\<rparr>"
    by (simp add: allocate_eq cr ins)
  have wf: "sm_wf (used_ranges s)" using assms by (simp add: aligned_def)
  have c: "r_aligned esz r \<and> esz dvd length (data s1) \<and> (\<forall>r' \<in> set (available_ranges s1). r_aligned esz r')"
    using claim_range_aligned [OF assms _ cr] by simp
  have "\<forall>r' \<in> set (sm_values u). r_aligned esz r'"
    using assms c sm_get_insert [OF wf ins] by (auto simp: vals_aligned_get aligned_def)
  with c sm_wf_insert [OF wf ins] show ?thesis by (simp add: aligned_def s')
qed


lemma free_aligned:
  assumes "aligned esz s" "free esz k s = Inr s'"
  shows "aligned esz s'"
proof (cases "sm_remove k (used_ranges s)")
  case (Pair xo u)
  have wf: "sm_wf (used_ranges s)" and vs: "\<forall>k r. sm_get (used_ranges s) k = Some r \<longrightarrow> r_aligned esz r"
    using assms(1) by (simp_all add: aligned_def vals_aligned_get)
  have u: "\<forall>k r. sm_get u k = Some r \<longrightarrow> r_aligned esz r"
    using vs sm_get_remove(1) [OF Pair] by simp
  show ?thesis
  proof (cases xo)
    case None
    with Pair assms(2) have "s' = s\<lparr>mutated := True, used_ranges := u\<rparr>" by (simp add: free_cases)
    with assms(1) u sm_wf_remove [OF wf Pair] show ?thesis by (simp add: aligned_def vals_aligned_get)
  next
    case (Some r)
    with Pair assms(2) have s': "s' = s\<lparr>mutated := True, used_ranges := u,
                      allocated_count := allocated_count s - range_len r div esz,
                      available_ranges := make_range_available r (available_ranges s)\<rparr>"
      by (auto simp: free_cases split: if_splits)
    have "r_aligned esz r" using vs sm_get_remove(2) [OF Pair] Some by simp
    with assms(1) have "\<forall>r' \<in> set (make_range_available r (available_ranges s)). r_aligned esz r'"
      by (intro make_range_available_aligned) (simp_all add: aligned_def)
    then have "\<forall>r' \<in> set (available_ranges s'). r_aligned esz r'" using s' by simp
    with assms(1) u sm_wf_remove [OF wf Pair] s' show ?thesis by (simp add: aligned_def vals_aligned_get)
  qed
qed

lemma resize_aligned:
  assumes "aligned esz s" "resize esz k new_len s = Inr (k', s')"
  shows "aligned esz s'"
proof -
  from assms(2) obtain r where get: "sm_get (used_ranges s) k = Some r"
    by (auto simp: resize_def Let_def split: option.splits)
  have wf: "sm_wf (used_ranges s)" and vs: "\<forall>k r. sm_get (used_ranges s) k = Some r \<longrightarrow> r_aligned esz r"
    using assms(1) by (simp_all add: aligned_def vals_aligned_get)
  have ra: "r_aligned esz r" using vs get by simp
  let ?sz = "new_len * esz"
  consider (grow) "range_len r < ?sz" | (same) "range_len r = ?sz" | (shrink) "?sz < range_len r"
    by linarith
  then show ?thesis
  proof cases
    case grow
    with assms(2) get obtain s1 where "free esz k s = Inr s1" "s' = snd (allocate esz new_len s1)"
      by (auto simp: resize_cases split: sum.splits)
    with assms(1) show ?thesis by (metis free_aligned allocate_aligned)
  next
    case same
    with assms get show ?thesis by (simp add: resize_cases)
  next
    case shrink
    let ?fr = "mk_range (r_start r) (r_end r - ?sz)" and ?nr = "mk_range (r_end r - ?sz) (r_end r)"
    from shrink assms(2) get obtain u where
      set: "sm_set k ?nr (used_ranges s) = Inr u"
      and s': "s' = s\<lparr>mutated := True, allocated_count := allocated_count s - (r_end r - ?sz - r_start r) div esz,
                 available_ranges := make_range_available ?fr (available_ranges s), used_ranges := u\<rparr>"
      by (auto simp: resize_cases split: if_splits sum.splits)
    have fa: "r_aligned esz ?fr" and na: "r_aligned esz ?nr" using ra by (simp_all add: r_aligned_def dvd_diff_nat)
    have "\<forall>j r'. sm_get u j = Some r' \<longrightarrow> r_aligned esz r'"
      using vs sm_set_Inr [OF set] na by simp
    moreover from assms(1) fa have "\<forall>r' \<in> set (make_range_available ?fr (available_ranges s)). r_aligned esz r'"
      by (intro make_range_available_aligned) (simp_all add: aligned_def)
    moreover have "sm_wf u" "esz dvd length (data s)" using sm_wf_set [OF wf set] assms(1) by (simp_all add: aligned_def)
    ultimately show ?thesis using s' by (simp add: aligned_def vals_aligned_get)
  qed
qed

lemma set_elem_aligned:
  assumes "aligned esz s" "set_elem esz k i x s = Inr s'" "length x = esz"
  shows "aligned esz s'"
proof -
  obtain r where r: "sm_get (used_ranges s) k = Some r" "range_wf r" "r_end r \<le> length (data s)" "0 < esz"
      "i < range_len r div esz" "s' = s\<lparr>mutated := True, data := write_at (r_start r + i * esz) x (data s)\<rparr>"
    using set_elem_Inr [OF assms(2)] by blast
  have "r_start r + i * esz + length x \<le> length (data s)"
    using elem_in_range [OF r(5,4,2)] r(3) assms(3) by simp
  with assms(1) r(6) show ?thesis by (simp add: aligned_def)
qed

lemma shift_down_aligned:
  assumes "r_aligned esz g" "r_aligned esz u"
  shows "r_aligned esz (shift_down g u)"
proof -
  have "esz dvd range_len g" using assms(1) by (rule r_aligned_len)
  with assms(2) show ?thesis by (simp add: shift_down_def r_aligned_def dvd_diff_nat)
qed

lemma drain_gaps_aligned:
  "drain_gaps gs u d = Inr (u', d') \<Longrightarrow> \<forall>g \<in> set gs. r_aligned esz g \<Longrightarrow>
   \<forall>k r. sm_get u k = Some r \<longrightarrow> r_aligned esz r \<Longrightarrow> esz dvd length d \<Longrightarrow>
   (\<forall>k r. sm_get u' k = Some r \<longrightarrow> r_aligned esz r) \<and> esz dvd length d'"
proof (induction gs arbitrary: u d)
  case Nil
  then show ?case by simp
next
  case (Cons g gs)
  from Cons.prems(1) have ok: "r_start g \<le> r_end g" "r_end g \<le> length d" by (simp_all split: if_splits)
  with Cons.prems(1) have rest: "drain_gaps gs (sm_map_values (shift_down g) u) (take (r_start g) d @ drop (r_end g) d) = Inr (u', d')"
    by simp
  have ga: "r_aligned esz g" and gs: "\<forall>g \<in> set gs. r_aligned esz g" using Cons.prems(2) by simp_all
  have "sm_get (sm_map_values (shift_down g) u) k = Some r \<Longrightarrow> r_aligned esz r" for k r
  proof -
    assume "sm_get (sm_map_values (shift_down g) u) k = Some r"
    then obtain r0 where "sm_get u k = Some r0" "r = shift_down g r0" by auto
    with Cons.prems(3) show ?thesis using shift_down_aligned [OF ga] by simp
  qed
  moreover have "length (take (r_start g) d @ drop (r_end g) d) = r_start g + (length d - r_end g)"
    using ok by simp
  then have "esz dvd length (take (r_start g) d @ drop (r_end g) d)"
    using ga Cons.prems(4) by (simp add: r_aligned_def dvd_diff_nat)
  ultimately show ?case using Cons.IH [OF rest gs] by blast
qed

lemma fix_sequence_aligned:
  assumes "aligned esz s" "fix_sequence s = Inr s'"
  shows "aligned esz s'"
proof -
  obtain u d where dg: "drain_gaps (rev (available_ranges s)) (used_ranges s) (data s) = Inr (u, d)"
    and s': "s' = s\<lparr>available_ranges := [], used_ranges := u, data := d\<rparr>"
    using assms(2) by (cases "drain_gaps (rev (available_ranges s)) (used_ranges s) (data s)")
                      (auto simp: fix_sequence_def)
  have a: "\<forall>g \<in> set (rev (available_ranges s)). r_aligned esz g"
    "\<forall>k r. sm_get (used_ranges s) k = Some r \<longrightarrow> r_aligned esz r" "esz dvd length (data s)"
    "sm_wf (used_ranges s)"
    using assms(1) by (simp_all add: aligned_def vals_aligned_get)
  have "(\<forall>k r. sm_get u k = Some r \<longrightarrow> r_aligned esz r) \<and> esz dvd length d"
    using drain_gaps_aligned [OF dg a(1-3)] .
  moreover have "sm_wf u" using drain_gaps_lens [OF dg] a(4) by simp
  ultimately show ?thesis using s' by (simp add: aligned_def vals_aligned_get)
qed

lemma copy_sorted_aligned:
  "copy_sorted old kvs u nd = Inr (u', nd') \<Longrightarrow> \<forall>(k, r) \<in> set kvs. r_aligned esz r \<Longrightarrow>
   \<forall>k r. sm_get u k = Some r \<longrightarrow> r_aligned esz r \<Longrightarrow> esz dvd length nd \<Longrightarrow>
   (\<forall>k r. sm_get u' k = Some r \<longrightarrow> r_aligned esz r) \<and> esz dvd length nd'"
proof (induction old kvs u nd rule: copy_sorted.induct)
  case (1 old u nd)
  then show ?case by simp
next
  case (2 old k r kvs u nd)
  from "2.prems"(1) have ok: "r_start r \<le> r_end r \<and> r_end r \<le> length old"
    by (simp split: if_splits)
  let ?nr = "mk_range (length nd) (length (nd @ sub_slice old r))"
  from "2.prems"(1) ok obtain u1 where set: "sm_set k ?nr u = Inr u1"
    and rest: "copy_sorted old kvs u1 (nd @ sub_slice old r) = Inr (u', nd')"
    by (cases "sm_set k ?nr u") (simp_all add: Let_def)
  have ra: "r_aligned esz r" and kvs: "\<forall>(k, r) \<in> set kvs. r_aligned esz r" using "2.prems"(2) by simp_all
  have len: "esz dvd length (nd @ sub_slice old r)"
    using ok r_aligned_len [OF ra] "2.prems"(4) by simp
  then have "r_aligned esz ?nr" using "2.prems"(4) by (simp add: r_aligned_def)
  then have "\<forall>j r'. sm_get u1 j = Some r' \<longrightarrow> r_aligned esz r'"
    using "2.prems"(3) sm_set_Inr [OF set] by simp
  with "2.IH" [OF ok refl refl set rest kvs] len show ?case by simp
qed

lemma sort_ranges_aligned:
  assumes "aligned esz s" "sort_ranges b s = Inr s'"
  shows "aligned esz s'"
proof -
  let ?kvs = "sort_key (sort_key_of b) (sm_iter (used_ranges s))"
  from assms(2) obtain u nd where c: "copy_sorted (data s) ?kvs (used_ranges s) [] = Inr (u, nd)"
    and s': "s' = s\<lparr>used_ranges := u, data := nd, available_ranges := []\<rparr>"
    by (cases "copy_sorted (data s) ?kvs (used_ranges s) []") (auto simp: sort_ranges_def)
  have vs: "\<forall>k r. sm_get (used_ranges s) k = Some r \<longrightarrow> r_aligned esz r"
    using assms(1) by (simp add: aligned_def vals_aligned_get)
  then have "\<forall>(k, r) \<in> set ?kvs. r_aligned esz r" by (auto simp: in_sm_iter)
  from copy_sorted_aligned [OF c this vs] have "(\<forall>k r. sm_get u k = Some r \<longrightarrow> r_aligned esz r) \<and> esz dvd length nd"
    by simp
  moreover have "sm_wf u" using sort_ranges_lens [OF assms(2)] assms(1) s' by (simp add: aligned_def)
  ultimately show ?thesis using s' by (simp add: aligned_def vals_aligned_get)
qed

lemma aligned_frame [simp]:
  "aligned esz (s\<lparr>buffer := b\<rparr>) = aligned esz s" "aligned esz (s\<lparr>mutated := m\<rparr>) = aligned esz s"
  by (simp_all add: aligned_def)

lemma upload_aligned:
  assumes "aligned esz s" "upload dev s = Inr (dev', s')"
  shows "aligned esz s'"
  using upload_Inr [OF assms(2)]
proof
  assume "mutated s \<and> (\<exists>s1 buf. fix_sequence s = Inr s1 \<and> (dev', buf) = upload_or_resize dev (buffer s1) (data s1)
      \<and> s' = s1\<lparr>buffer := buf, mutated := False\<rparr>)"
  then obtain s1 buf where "fix_sequence s = Inr s1" "s' = s1\<lparr>buffer := buf, mutated := False\<rparr>" by blast
  with fix_sequence_aligned [OF assms(1)] show ?thesis by simp
qed (use assms(1) in simp)

lemma optimize_aligned:
  assumes "aligned esz s" "optimize st dev s = Inr (dev', s')"
  shows "aligned esz s'"
  using optimize_Inr [OF assms(2)]
proof
  assume "\<exists>s1 buf. fix_sequence s = Inr s1 \<and> st = Truncate \<and> s' = s1\<lparr>buffer := buf\<rparr>"
  then obtain s1 buf where "fix_sequence s = Inr s1" "s' = s1\<lparr>buffer := buf\<rparr>" by blast
  with fix_sequence_aligned [OF assms(1)] show ?thesis by simp
next
  assume "\<exists>b. sort_ranges b s = Inr s' \<and> dev' = dev"
  with sort_ranges_aligned [OF assms(1)] show ?thesis by blast
qed

lemma step_aligned:
  assumes "aligned esz s" "case o1 of SetElem k i x \<Rightarrow> length x = esz | _ \<Rightarrow> True"
    and "step esz (dev, s) o1 = Inr (dev', s')"
  shows "aligned esz s'"
proof (cases o1)
  case (Allocate n)
  with assms show ?thesis by (auto intro: allocate_aligned)
next
  case (Get k)
  with assms show ?thesis by (auto simp: aligned_def dest!: get_Inr split: sum.splits)
next
  case (SetElem k i x)
  with assms show ?thesis by (auto intro: set_elem_aligned split: sum.splits)
next
  case (LenOf k)
  with assms show ?thesis by (simp split: sum.splits)
next
  case (Resize k n)
  with assms show ?thesis by (auto intro: resize_aligned split: sum.splits)
next
  case (Free k)
  with assms show ?thesis by (auto intro: free_aligned split: sum.splits)
next
  case Upload
  with assms show ?thesis by (auto intro: upload_aligned)
next
  case (Optimize st)
  with assms show ?thesis by (auto intro: optimize_aligned)
qed

lemma run_aligned:
  "aligned esz s \<Longrightarrow> ops_typed esz ops \<Longrightarrow> run esz (dev, s) ops = Inr (dev', s') \<Longrightarrow> aligned esz s'"
proof (induction ops arbitrary: dev s)
  case Nil
  then show ?case by simp
next
  case (Cons o1 os)
  then obtain dev1 s1 where st: "step esz (dev, s) o1 = Inr (dev1, s1)" and r: "run esz (dev1, s1) os = Inr (dev', s')"
    by (auto split: sum.splits)
  have "case o1 of SetElem k i x \<Rightarrow> length x = esz | _ \<Rightarrow> True" "ops_typed esz os"
    using Cons.prems(2) by (simp_all add: ops_typed_def)
  with step_aligned [OF Cons.prems(1) _ st] Cons.IH r show ?case by blast
qed

lemma aligned_new: "aligned esz (snd (new_simple esz usages dev))"
  by (simp add: aligned_def new_simple_def create_buffer_def sm_values_def sm_iter_def sm_new_def sm_wf_def)

section \<open>The transfers of a run\<close>

text \<open>What a call adds to the device's log: buffers created from bytes, and queue writes
  at offset 0 of a whole number of elements.\<close>

lemma step_log:
  assumes "aligned esz s" "step esz (dev, s) o1 = Inr (dev', s')"
  shows "\<exists>ts. dev_log dev' = dev_log dev @ ts \<and>
    (\<forall>t \<in> set ts. (\<exists>bs. t = CreateBufferInit bs) \<or> (\<exists>bs. t = WriteBuffer 0 bs \<and> esz dvd length bs))"
proof (cases o1)
  case Upload
  show ?thesis using upload_Inr [OF assms(2) [unfolded Upload step.simps]]
  proof
    assume "mutated s \<and> (\<exists>s1 buf. fix_sequence s = Inr s1 \<and> (dev', buf) = upload_or_resize dev (buffer s1) (data s1)
      \<and> s' = s1\<lparr>buffer := buf, mutated := False\<rparr>)"
    then obtain s1 buf where f: "fix_sequence s = Inr s1" and u: "(dev', buf) = upload_or_resize dev (buffer s1) (data s1)"
      by blast
    have "esz dvd length (data s1)" using fix_sequence_aligned [OF assms(1) f] by (simp add: aligned_def)
    moreover have "dev' = fst (upload_or_resize dev (buffer s1) (data s1))" using u by (metis fst_conv)
    ultimately show ?thesis by (simp add: upload_or_resize_log)
  qed auto
next
  case (Optimize st)
  with assms(2) show ?thesis
    by (cases st) (auto simp: optimize_def create_buffer_init_def split: sum.splits prod.splits)
qed (use assms(2) in \<open>auto split: sum.splits prod.splits\<close>)

lemma run_log:
  "aligned esz s \<Longrightarrow> ops_typed esz ops \<Longrightarrow> run esz (dev, s) ops = Inr (dev', s') \<Longrightarrow>
   \<exists>ts. dev_log dev' = dev_log dev @ ts \<and>
     (\<forall>t \<in> set ts. (\<exists>bs. t = CreateBufferInit bs) \<or> (\<exists>bs. t = WriteBuffer 0 bs \<and> esz dvd length bs))"
proof (induction ops arbitrary: dev s)
  case Nil
  then show ?case by simp
next
  case (Cons o1 os)
  then obtain dev1 s1 where st: "step esz (dev, s) o1 = Inr (dev1, s1)" and r: "run esz (dev1, s1) os = Inr (dev', s')"
    by (auto split: sum.splits)
  have ty: "case o1 of SetElem k i x \<Rightarrow> length x = esz | _ \<Rightarrow> True" "ops_typed esz os"
    using Cons.prems(2) by (simp_all add: ops_typed_def)
  obtain ts1 where t1: "dev_log dev1 = dev_log dev @ ts1"
    "\<forall>t \<in> set ts1. (\<exists>bs. t = CreateBufferInit bs) \<or> (\<exists>bs. t = WriteBuffer 0 bs \<and> esz dvd length bs)"
    using step_log [OF Cons.prems(1) st] by blast
  obtain ts2 where t2: "dev_log dev' = dev_log dev1 @ ts2"
    "\<forall>t \<in> set ts2. (\<exists>bs. t = CreateBufferInit bs) \<or> (\<exists>bs. t = WriteBuffer 0 bs \<and> esz dvd length bs)"
    using Cons.IH [OF step_aligned [OF Cons.prems(1) ty(1) st] ty(2) r] by blast
  from t1 t2 show ?case by (intro exI [of _ "ts1 @ ts2"]) auto
qed

lemma new_simple_log: "dev_log (fst (new_simple esz usages dev)) = dev_log dev @ [CreateBuffer esz]"
  by (simp add: new_simple_def create_buffer_def)

section \<open>Properties\<close>

text \<open>C21: in every run from \<open>new\<close> whose element writes carry \<open>size_of::<T>()\<close> bytes,
  every byte offset the allocator holds is a whole number of elements: the length of
  \<open>data\<close> and both ends of every free and every live range. This holds for all runs,
  those where the coalescing bug of \<open>make_range_available\<close> strikes included.\<close>

theorem offsets_element_aligned:
  assumes "ops_typed esz ops" "run esz (new_simple esz usages dev) ops = Inr (dev', s)"
  shows "aligned esz s"
proof -
  obtain d0 s0 where n: "new_simple esz usages dev = (d0, s0)" by fastforce
  have "aligned esz s0" using aligned_new [of esz usages dev] n by simp
  from run_aligned [OF this assms(1)] assms(2) n show ?thesis by simp
qed

theorem offsets_element_aligned_witness:
  "case run 4 (new_simple 4 0 dev0)
          [Allocate 1, Allocate 1, Allocate 1, Free (Key 0 1), Free (Key 2 1), SetElem (Key 1 1) 0 [1, 2, 3, 4], Upload] of
     Inr (d, s) \<Rightarrow> aligned 4 s \<and> r_aligned 4 (hd (sm_values (used_ranges s)))
   | Inl _ \<Rightarrow> False"
proof -
  have "ops_typed 4 [Allocate 1, Allocate 1, Allocate 1, Free (Key 0 1), Free (Key 2 1), SetElem (Key 1 1) 0 [1, 2, 3, 4], Upload]"
    by (simp add: ops_typed_def)
  moreover have "case run 4 (new_simple 4 0 dev0)
          [Allocate 1, Allocate 1, Allocate 1, Free (Key 0 1), Free (Key 2 1), SetElem (Key 1 1) 0 [1, 2, 3, 4], Upload] of
     Inr (d, s) \<Rightarrow> sm_values (used_ranges s) \<noteq> [] | Inl _ \<Rightarrow> False"
    by code_simp
  ultimately obtain d s where ty: "ops_typed 4 [Allocate 1, Allocate 1, Allocate 1, Free (Key 0 1), Free (Key 2 1), SetElem (Key 1 1) 0 [1, 2, 3, 4], Upload]"
    and r: "run 4 (new_simple 4 0 dev0)
          [Allocate 1, Allocate 1, Allocate 1, Free (Key 0 1), Free (Key 2 1), SetElem (Key 1 1) 0 [1, 2, 3, 4], Upload] = Inr (d, s)"
    and ne: "sm_values (used_ranges s) \<noteq> []"
    by (auto split: sum.splits)
  have a: "aligned 4 s" using offsets_element_aligned [OF ty r] .
  then have "r_aligned 4 (hd (sm_values (used_ranges s)))" using ne by (simp add: aligned_def)
  with a r show ?thesis by simp
qed

text \<open>C22: when \<open>size_of::<T>()\<close> is a multiple of \<open>COPY_BUFFER_ALIGNMENT\<close>, every
  transfer a run from \<open>new\<close> asks of the device is one the device accepts: every
  \<open>upload\<close> writes at offset 0 a whole number of elements.\<close>

theorem transfers_valid:
  assumes "COPY_BUFFER_ALIGNMENT dvd esz" "ops_typed esz ops" "\<forall>t \<in> set (dev_log dev). transfer_ok t"
    and "run esz (new_simple esz usages dev) ops = Inr (dev', s)"
  shows "\<forall>t \<in> set (dev_log dev'). transfer_ok t"
proof -
  obtain d0 s0 where n: "new_simple esz usages dev = (d0, s0)" by fastforce
  have "aligned esz s0" using aligned_new [of esz usages dev] n by simp
  moreover have "run esz (d0, s0) ops = Inr (dev', s)" using assms(4) n by simp
  ultimately obtain ts where
    ts: "dev_log dev' = dev_log d0 @ ts"
      "\<forall>t \<in> set ts. (\<exists>bs. t = CreateBufferInit bs) \<or> (\<exists>bs. t = WriteBuffer 0 bs \<and> esz dvd length bs)"
    using run_log [OF _ assms(2)] by blast
  have "dev_log d0 = dev_log dev @ [CreateBuffer esz]" using new_simple_log [of esz usages dev] n by simp
  moreover have "\<forall>t \<in> set ts. transfer_ok t"
  proof
    fix t assume "t \<in> set ts"
    with ts(2) consider (c) bs where "t = CreateBufferInit bs"
      | (w) bs where "t = WriteBuffer 0 bs" "esz dvd length bs" by blast
    then show "transfer_ok t"
    proof cases
      case w
      then show ?thesis using dvd_trans [OF assms(1) w(2)] by simp
    qed simp
  qed
  ultimately show ?thesis using ts(1) assms(3) by auto
qed

theorem transfers_valid_witness:
  "case run 8 (new_simple 8 0 dev0) [Allocate 3, Upload, Resize (Key 0 1) 1, Upload] of
     Inr (d, s) \<Rightarrow> (\<forall>t \<in> set (dev_log d). transfer_ok t) \<and> length (dev_log d) = 3
   | Inl _ \<Rightarrow> False"
proof -
  have h: "COPY_BUFFER_ALIGNMENT dvd 8" "ops_typed 8 [Allocate 3, Upload, Resize (Key 0 1) 1, Upload]"
    "\<forall>t \<in> set (dev_log dev0). transfer_ok t"
    by (simp_all add: COPY_BUFFER_ALIGNMENT_def ops_typed_def dev0_def)
  have "case run 8 (new_simple 8 0 dev0) [Allocate 3, Upload, Resize (Key 0 1) 1, Upload] of
     Inr (d, s) \<Rightarrow> length (dev_log d) = 3 | Inl _ \<Rightarrow> False"
    by code_simp
  then obtain d s where r: "run 8 (new_simple 8 0 dev0) [Allocate 3, Upload, Resize (Key 0 1) 1, Upload] = Inr (d, s)"
    and l: "length (dev_log d) = 3"
    by (auto split: sum.splits)
  from transfers_valid [OF h r] r l show ?thesis by simp
qed

section \<open>The usage flags of the device buffer\<close>

lemma upload_or_resize_usage: "buf_usage (snd (upload_or_resize dev buf bs)) = buf_usage buf"
  by (simp add: upload_or_resize_def write_buffer_def create_buffer_init_def)

lemma allocate_buffer: "allocate esz n s = (k, s') \<Longrightarrow> buffer s' = buffer s"
proof -
  assume a: "allocate esz n s = (k, s')"
  obtain r s1 where cr: "claim_range (esz * n) s = (r, s1)" by fastforce
  obtain k1 u where ins: "sm_insert r (used_ranges s) = (k1, u)" by fastforce
  have "buffer s1 = buffer s" using claim_range_frame(4) [of "esz * n" s] cr by simp
  with a show ?thesis by (auto simp: allocate_eq cr ins)
qed

lemma free_buffer: "free esz k s = Inr s' \<Longrightarrow> buffer s' = buffer s"
  by (auto simp: free_cases split: prod.splits option.splits if_splits)

lemma resize_buffer: "resize esz k n s = Inr (k', s') \<Longrightarrow> buffer s' = buffer s"
  by (auto simp: resize_def Let_def split: option.splits if_splits sum.splits)
     (metis free_buffer allocate_buffer)

lemma allocate_buffer_snd [simp]: "buffer (snd (allocate esz n s)) = buffer s"
  by (cases "allocate esz n s") (auto dest: allocate_buffer)

lemma step_copy_dst:
  assumes "has_copy_dst (buffer s)" "step esz (dev, s) o1 = Inr (dev', s')"
  shows "has_copy_dst (buffer s')"
proof (cases o1)
  case Upload
  show ?thesis using upload_Inr [OF assms(2) [unfolded Upload step.simps]]
  proof
    assume "mutated s \<and> (\<exists>s1 buf. fix_sequence s = Inr s1 \<and> (dev', buf) = upload_or_resize dev (buffer s1) (data s1)
      \<and> s' = s1\<lparr>buffer := buf, mutated := False\<rparr>)"
    then obtain s1 buf where f: "fix_sequence s = Inr s1" and u: "(dev', buf) = upload_or_resize dev (buffer s1) (data s1)"
      and s': "s' = s1\<lparr>buffer := buf, mutated := False\<rparr>" by blast
    have "buffer s1 = buffer s" using fix_sequence_lens [OF f] by simp
    moreover have "buf = snd (upload_or_resize dev (buffer s1) (data s1))" using u by (metis snd_conv)
    ultimately show ?thesis using assms(1) s' upload_or_resize_usage by (simp add: has_copy_dst_def)
  qed (use assms(1) in simp)
next
  case (Optimize st)
  with assms(2) consider (t) s1 where "st = Truncate" "fix_sequence s = Inr s1"
      "buffer s' = snd (create_buffer_init dev (buf_usage (buffer s1) OR COPY_DST) (data s1))"
    | (o) "buffer s' = buffer s"
    by (cases st) (auto simp: optimize_def dest: sort_ranges_lens split: sum.splits prod.splits)
  then show ?thesis
  proof cases
    case t
    then show ?thesis by (simp add: create_buffer_init_def has_copy_dst_def)
  qed (use assms(1) in simp)
qed (use assms in \<open>auto dest!: get_Inr set_elem_Inr free_buffer resize_buffer allocate_buffer
                         split: sum.splits prod.splits\<close>)

lemma run_copy_dst:
  "has_copy_dst (buffer s) \<Longrightarrow> run esz (dev, s) ops = Inr (dev', s') \<Longrightarrow> has_copy_dst (buffer s')"
proof (induction ops arbitrary: dev s)
  case Nil
  then show ?case by simp
next
  case (Cons o1 os)
  then obtain dev1 s1 where st: "step esz (dev, s) o1 = Inr (dev1, s1)" and r: "run esz (dev1, s1) os = Inr (dev', s')"
    by (auto split: sum.splits)
  from step_copy_dst [OF Cons.prems(1) st] r show ?case by (rule Cons.IH)
qed

text \<open>C27: \<open>SimpleGpuMemory\<close> uses a normal buffer, adding \<open>COPY_DST\<close> to the buffer
  usages (the doc comment of the struct): in every run from \<open>new\<close>, whatever usages
  the caller passed, the device buffer's usage flags have the \<open>COPY_DST\<close> bit that
  \<open>Queue::write_buffer\<close> needs, also after \<open>upload\<close> and \<open>Truncate\<close> replaced it.\<close>

theorem buffer_keeps_copy_dst:
  assumes "run esz (new_simple esz usages dev) ops = Inr (dev', s)"
  shows "buf_usage (buffer s) AND COPY_DST = COPY_DST"
proof -
  obtain d0 s0 where n: "new_simple esz usages dev = (d0, s0)" by fastforce
  have "has_copy_dst (buffer s0)" using n by (auto simp: new_simple_def create_buffer_def has_copy_dst_def)
  from run_copy_dst [OF this] assms n show ?thesis by (simp add: has_copy_dst_def)
qed

theorem buffer_keeps_copy_dst_witness:
  "case run 4 (new_simple 4 128 dev0) [Allocate 1, Upload, Optimize Truncate, Allocate 2, Upload] of
     Inr (d, s) \<Rightarrow> buf_usage (buffer s) = 136 \<and> buf_usage (buffer s) AND COPY_DST = COPY_DST
   | Inl _ \<Rightarrow> False"
proof -
  have "case run 4 (new_simple 4 128 dev0) [Allocate 1, Upload, Optimize Truncate, Allocate 2, Upload] of
     Inr (d, s) \<Rightarrow> buf_usage (buffer s) = 136 | Inl _ \<Rightarrow> False"
    by code_simp
  then obtain d s where r: "run 4 (new_simple 4 128 dev0) [Allocate 1, Upload, Optimize Truncate, Allocate 2, Upload] = Inr (d, s)"
    and u: "buf_usage (buffer s) = 136"
    by (auto split: sum.splits)
  from buffer_keeps_copy_dst [OF r] r u show ?thesis by simp
qed


text \<open>C29: spec section 7 says that after a transport failure only \<open>mutated\<close> stays set,
  so that a retried upload is safe, and section 8 that a second upload with no
  mutation in between transfers nothing. \<open>upload\<close> has no failure result: on a changed
  allocator it hands the device exactly one transfer of the compacted bytes (a write
  into the buffer when they fit, a new buffer otherwise) and clears \<open>mutated\<close> whatever
  the device does with it, so the next \<open>upload\<close> transfers nothing. A write the device
  rejects, as the 2-byte write of the witness, is therefore never retried.\<close>

theorem upload_clears_mutated_once:
  assumes "upload dev s = Inr (dev1, s1)"
  shows "\<not> mutated s1 \<and> upload dev1 s1 = Inr (dev1, s1) \<and>
    dev_log dev1 = dev_log dev @
      (if mutated s then [if length (data s1) \<le> buf_size (buffer s) then WriteBuffer 0 (data s1)
                         else CreateBufferInit (data s1)]
       else [])"
proof (cases "mutated s")
  case True
  with upload_Inr [OF assms] obtain s2 buf where f: "fix_sequence s = Inr s2"
    and u: "(dev1, buf) = upload_or_resize dev (buffer s2) (data s2)"
    and s1: "s1 = s2\<lparr>buffer := buf, mutated := False\<rparr>" by blast
  have "buffer s2 = buffer s" using fix_sequence_lens [OF f] by simp
  moreover have "dev1 = fst (upload_or_resize dev (buffer s2) (data s2))" using u by (metis fst_conv)
  ultimately show ?thesis using True s1 upload_or_resize_log [of dev "buffer s2" "data s2"]
    by (simp add: upload_def)
qed (use upload_Inr [OF assms] in \<open>auto simp: upload_def\<close>)

theorem upload_clears_mutated_once_witness:
  "case run 2 (new_simple 2 0 dev0) [Allocate 1] of
     Inr (d, s) \<Rightarrow>
       (case upload d s of
          Inr (d1, s1) \<Rightarrow> dev_log d1 = [CreateBuffer 2, WriteBuffer 0 [0, 0]] \<and>
             \<not> transfer_ok (WriteBuffer 0 [0, 0]) \<and> \<not> mutated s1 \<and> upload d1 s1 = Inr (d1, s1)
        | Inl _ \<Rightarrow> False)
   | Inl _ \<Rightarrow> False"
proof -
  have "case run 2 (new_simple 2 0 dev0) [Allocate 1] of
     Inr (d, s) \<Rightarrow> mutated s \<and> dev_log d = [CreateBuffer 2] \<and> buf_size (buffer s) = 2 \<and>
       \<not> isl (upload d s) \<and> data (snd (projr (upload d s))) = [0, 0] \<and>
       \<not> transfer_ok (WriteBuffer 0 [0, 0])
   | Inl _ \<Rightarrow> False"
    by code_simp
  then obtain d s where r: "run 2 (new_simple 2 0 dev0) [Allocate 1] = Inr (d, s)"
    and h: "mutated s" "dev_log d = [CreateBuffer 2]" "buf_size (buffer s) = 2" "\<not> isl (upload d s)"
      "data (snd (projr (upload d s))) = [0, 0]" "\<not> transfer_ok (WriteBuffer 0 [0, 0])"
    by (auto split: sum.splits)
  define d1 where "d1 = fst (projr (upload d s))"
  define s1 where "s1 = snd (projr (upload d s))"
  have u: "upload d s = Inr (d1, s1)" using not_isl_Inr [OF h(4)] unfolding d1_def s1_def by simp
  have "\<not> mutated s1 \<and> upload d1 s1 = Inr (d1, s1) \<and> dev_log d1 = [CreateBuffer 2, WriteBuffer 0 [0, 0]]"
    using upload_clears_mutated_once [OF u] h(1,2,3,5) unfolding s1_def [symmetric] by simp
  then show ?thesis unfolding r using h(6) by (simp only: sum.case prod.case u) blast
qed


end
