(* ===== verification/FreeListOrder.thy ===== *)
theory FreeListOrder
  imports Transport
begin

text \<open>
  The order the code keeps the free list in. \<open>make_range_available\<close> inserts a freed
  range before the first free range that starts at or below its end, and the merge
  loop then joins it with every later range: so the list is kept sorted by start
  offset from the highest address down, with a gap between any two entries. This is
  the coalescing property of spec section 8 (no two entries adjacent or overlapping,
  sorted by start offset), in descending order, and it holds in every run (the runs
  where the merge wrongly swallows live ranges included). The last-fit search of
  \<open>allocate\<close>, which takes the greatest index, therefore takes the fitting free range
  at the lowest address.
\<close>

text \<open>Sorted by start from the highest address down, no two entries adjacent or
  overlapping, every entry a well-formed range.\<close>

definition desc_coalesced :: "address_range list \<Rightarrow> bool" where
  "desc_coalesced rs \<longleftrightarrow> sorted_wrt (\<lambda>a b. r_end b < r_start a) rs \<and> (\<forall>r \<in> set rs. range_wf r)"

text \<open>The free list is so ordered and every live range is well-formed.\<close>

definition free_order :: "simple_gpu_memory \<Rightarrow> bool" where
  "free_order s \<longleftrightarrow> sm_wf (used_ranges s) \<and> desc_coalesced (available_ranges s) \<and>
     (\<forall>r \<in> set (sm_values (used_ranges s)). range_wf r)"

section \<open>The insertion keeps the order\<close>

text \<open>The merge loop started at a freed range \<open>c\<close> that reaches the first range after
  it joins \<open>c\<close> with every later range of a descending list.\<close>

lemma merge_sweeps_rest:
  assumes "sorted_wrt (\<lambda>a b. r_end b < r_start a) post" "\<forall>q \<in> set post. range_wf q" "range_wf c"
    and "post \<noteq> [] \<longrightarrow> r_start (hd post) \<le> r_end c"
  shows "\<exists>m. merge_available_ranges (length pre) (pre @ c # post) = pre @ [m] \<and> range_wf m \<and>
           (r_end m = r_end c \<or> (\<exists>q \<in> set post. r_end m = r_end q))"
  using assms
proof (induction post arbitrary: c)
  case Nil
  have "merge_available_ranges (length pre) (pre @ [c]) = pre @ [c]"
    by (simp add: merge_available_ranges_stop merge_guard_def)
  with Nil show ?case by blast
next
  case (Cons q qs)
  let ?M = "mk_range (min (r_start c) (r_start q)) (max (r_end c) (r_end q))"
  have g: "merge_guard (length pre) (pre @ c # q # qs)"
    using Cons.prems(4) by (simp add: merge_guard_def nth_append)
  have "merge_body (length pre) (pre @ c # q # qs) = pre @ ?M # qs"
    by (simp add: merge_body_eq vec_remove_def nth_append)
  with g have eq: "merge_available_ranges (length pre) (pre @ c # q # qs) =
      merge_available_ranges (length pre) (pre @ ?M # qs)"
    by (simp add: merge_available_ranges_step)
  have wfM: "range_wf ?M" using Cons.prems(3) by (simp add: range_wf_def)
  have "qs \<noteq> [] \<longrightarrow> r_start (hd qs) \<le> r_end ?M"
  proof
    assume "qs \<noteq> []"
    then have "r_end (hd qs) < r_start q" "range_wf (hd qs)" using Cons.prems(1,2) by (cases qs; simp)+
    then show "r_start (hd qs) \<le> r_end ?M" using Cons.prems(4) by (simp add: range_wf_def)
  qed
  with Cons.IH [of ?M] Cons.prems(1,2) wfM obtain m where
    "merge_available_ranges (length pre) (pre @ ?M # qs) = pre @ [m]" "range_wf m"
    "r_end m = r_end ?M \<or> (\<exists>q' \<in> set qs. r_end m = r_end q')"
    by auto
  with eq show ?case by (auto simp: max_def split: if_splits)
qed

lemma make_range_available_order:
  assumes "desc_coalesced rs" "range_wf r"
  shows "desc_coalesced (make_range_available r rs)"
proof (cases "position (\<lambda>other. r_start other \<le> r_end r) rs")
  case None
  moreover have "\<forall>o1 \<in> set rs. r_end r < r_start o1" using None by (auto simp: position_None)
  ultimately show ?thesis using assms
    by (simp add: make_range_available_def desc_coalesced_def sorted_wrt_append)
next
  case (Some i)
  from position_SomeD [OF Some] have i: "i < length rs" "r_start (rs ! i) \<le> r_end r"
    and above: "\<forall>j < i. r_end r < r_start (rs ! j)" by auto
  have srt: "sorted_wrt (\<lambda>a b. r_end b < r_start a) rs" and wf: "\<forall>q \<in> set rs. range_wf q"
    using assms(1) by (simp_all add: desc_coalesced_def)
  have "drop i rs \<noteq> [] \<longrightarrow> r_start (hd (drop i rs)) \<le> r_end r" using i by (simp add: hd_drop_conv_nth)
  moreover have "sorted_wrt (\<lambda>a b. r_end b < r_start a) (drop i rs)" using srt by (rule sorted_wrt_drop)
  moreover have "\<forall>q \<in> set (drop i rs). range_wf q" using wf by (auto dest: in_set_dropD)
  ultimately obtain m where m: "merge_available_ranges (length (take i rs)) (take i rs @ r # drop i rs) = take i rs @ [m]"
    "range_wf m" "r_end m = r_end r \<or> (\<exists>q \<in> set (drop i rs). r_end m = r_end q)"
    using merge_sweeps_rest [OF _ _ assms(2), of "drop i rs" "take i rs"] by blast
  have res: "make_range_available r rs = take i rs @ [m]"
    using Some m(1) i(1) by (simp add: make_range_available_def vec_insert_def)
  have "\<forall>p \<in> set (take i rs). r_end m < r_start p"
  proof
    fix p assume "p \<in> set (take i rs)"
    then obtain j where j: "j < i" "p = rs ! j" using i(1) by (auto simp: in_set_conv_nth)
    show "r_end m < r_start p"
      using m(3)
    proof
      assume "r_end m = r_end r"
      with above j show ?thesis by simp
    next
      assume "\<exists>q \<in> set (drop i rs). r_end m = r_end q"
      then obtain q where q: "q \<in> set (drop i rs)" "r_end m = r_end q" by blast
      then obtain t where t: "t < length rs - i" "q = rs ! (i + t)" by (auto simp: in_set_conv_nth)
      have "j < i + t" "i + t < length rs" using j(1) t(1) by simp_all
      with srt have "r_end (rs ! (i + t)) < r_start (rs ! j)" by (simp add: sorted_wrt_iff_nth_less)
      with j(2) q(2) t(2) show ?thesis by simp
    qed
  qed
  moreover have "sorted_wrt (\<lambda>a b. r_end b < r_start a) (take i rs)" using srt by (rule sorted_wrt_take)
  moreover have "\<forall>q \<in> set (take i rs). range_wf q" using wf by (auto dest: in_set_takeD)
  ultimately show ?thesis using res m(2) by (simp add: desc_coalesced_def sorted_wrt_append)
qed

section \<open>Every call keeps the order\<close>

lemma desc_update:
  assumes "sorted_wrt (\<lambda>a b. r_end b < r_start a) xs" "i < length xs"
    "r_start x = r_start (xs ! i)" "r_end x \<le> r_end (xs ! i)"
  shows "sorted_wrt (\<lambda>a b. r_end b < r_start a) (xs[i := x])"
  using assms unfolding sorted_wrt_iff_nth_less by (force simp: nth_list_update)

lemma vals_wf_get:
  "(\<forall>r \<in> set (sm_values u). range_wf r) \<longleftrightarrow> (\<forall>k r. sm_get u k = Some r \<longrightarrow> range_wf r)"
  by (auto simp: in_sm_values)

lemma claim_range_order:
  assumes "free_order s" "claim_range sz s = (r, s1)"
  shows "range_wf r \<and> desc_coalesced (available_ranges s1)"
proof (cases "last_fit sz (available_ranges s)")
  case None
  with assms show ?thesis by (auto simp: claim_range_def range_wf_def free_order_def)
next
  case (Some i)
  let ?av = "available_ranges s"
  let ?r = "?av ! i"
  have i: "i < length ?av" "sz \<le> range_len ?r" using last_fit_SomeD [OF Some] by simp_all
  have dc: "desc_coalesced ?av" using assms(1) by (simp add: free_order_def)
  then have wf: "range_wf ?r" using i(1) by (simp add: desc_coalesced_def)
  show ?thesis
  proof (cases "range_len ?r = sz")
    case True
    with assms(2) have e: "r = ?r" "available_ranges s1 = vec_remove i ?av"
      by (auto simp: claim_range_Some [OF Some])
    have "desc_coalesced (vec_remove i ?av)"
      using dc set_vec_remove [of i ?av] by (auto simp: desc_coalesced_def intro: sorted_vec_remove)
    with e wf show ?thesis by simp
  next
    case False
    with assms(2) have e: "r = mk_range (r_end ?r - sz) (r_end ?r)"
      "available_ranges s1 = ?av[i := mk_range (r_start ?r) (r_end ?r - sz)]"
      by (auto simp: claim_range_Some [OF Some])
    have w1: "range_wf (mk_range (r_start ?r) (r_end ?r - sz))" using i(2) wf unfolding range_wf_def range_len_def by simp
    have "sorted_wrt (\<lambda>a b. r_end b < r_start a) (?av[i := mk_range (r_start ?r) (r_end ?r - sz)])"
      using dc i(1) by (intro desc_update) (simp_all add: desc_coalesced_def)
    moreover have "\<forall>q \<in> set (?av[i := mk_range (r_start ?r) (r_end ?r - sz)]). range_wf q"
      using dc w1 set_update_subset_insert [of ?av i "mk_range (r_start ?r) (r_end ?r - sz)"]
      unfolding desc_coalesced_def by blast
    ultimately show ?thesis using e by (simp add: desc_coalesced_def range_wf_def)
  qed
qed

lemma allocate_order:
  assumes "free_order s"
  shows "free_order (snd (allocate esz cnt s))"
proof -
  obtain r s1 where cr: "claim_range (esz * cnt) s = (r, s1)" by fastforce
  obtain k u where ins: "sm_insert r (used_ranges s) = (k, u)" by fastforce
  have s': "snd (allocate esz cnt s) = s1\<lparr>mutated := True, allocated_count := allocated_count s + cnt, used_ranges := u\<rparr>"
    by (simp add: allocate_eq cr ins)
  have wf: "sm_wf (used_ranges s)" using assms by (simp add: free_order_def)
  have c: "range_wf r \<and> desc_coalesced (available_ranges s1)" using claim_range_order [OF assms cr] .
  have "\<forall>j r'. sm_get u j = Some r' \<longrightarrow> range_wf r'"
    using assms c sm_get_insert [OF wf ins] by (simp add: free_order_def vals_wf_get)
  with c sm_wf_insert [OF wf ins] show ?thesis by (simp add: free_order_def vals_wf_get s')
qed

lemma free_order_free:
  assumes "free_order s" "free esz k s = Inr s'"
  shows "free_order s'"
proof (cases "sm_remove k (used_ranges s)")
  case (Pair xo u)
  have wf: "sm_wf (used_ranges s)" and vs: "\<forall>k r. sm_get (used_ranges s) k = Some r \<longrightarrow> range_wf r"
    and dc: "desc_coalesced (available_ranges s)"
    using assms(1) by (simp_all add: free_order_def vals_wf_get)
  have u: "\<forall>k r. sm_get u k = Some r \<longrightarrow> range_wf r" using vs sm_get_remove(1) [OF Pair] by simp
  show ?thesis
  proof (cases xo)
    case None
    with Pair assms(2) have "s' = s\<lparr>mutated := True, used_ranges := u\<rparr>" by (simp add: free_cases)
    with dc u sm_wf_remove [OF wf Pair] show ?thesis by (simp add: free_order_def vals_wf_get)
  next
    case (Some r)
    with Pair assms(2) have s': "s' = s\<lparr>mutated := True, used_ranges := u,
                      allocated_count := allocated_count s - range_len r div esz,
                      available_ranges := make_range_available r (available_ranges s)\<rparr>"
      by (auto simp: free_cases split: if_splits)
    have "range_wf r" using vs sm_get_remove(2) [OF Pair] Some by simp
    with dc have "desc_coalesced (make_range_available r (available_ranges s))"
      by (rule make_range_available_order)
    with u sm_wf_remove [OF wf Pair] s' show ?thesis by (simp add: free_order_def vals_wf_get)
  qed
qed

lemma resize_order:
  assumes "free_order s" "resize esz k new_len s = Inr (k', s')"
  shows "free_order s'"
proof -
  from assms(2) obtain r where get: "sm_get (used_ranges s) k = Some r"
    by (auto simp: resize_def Let_def split: option.splits)
  have wf: "sm_wf (used_ranges s)" and vs: "\<forall>k r. sm_get (used_ranges s) k = Some r \<longrightarrow> range_wf r"
    and dc: "desc_coalesced (available_ranges s)"
    using assms(1) by (simp_all add: free_order_def vals_wf_get)
  let ?sz = "new_len * esz"
  consider (grow) "range_len r < ?sz" | (same) "range_len r = ?sz" | (shrink) "?sz < range_len r"
    by linarith
  then show ?thesis
  proof cases
    case grow
    with assms(2) get obtain s1 where "free esz k s = Inr s1" "s' = snd (allocate esz new_len s1)"
      by (auto simp: resize_cases split: sum.splits)
    with assms(1) show ?thesis by (metis free_order_free allocate_order)
  next
    case same
    with assms get show ?thesis by (simp add: resize_cases)
  next
    case shrink
    let ?fr = "mk_range (r_start r) (r_end r - ?sz)" and ?nr = "mk_range (r_end r - ?sz) (r_end r)"
    from shrink assms(2) get obtain u where
      set: "sm_set k ?nr (used_ranges s) = Inr u"
      and s': "s' = s\<lparr>mutated := True, allocated_count := allocated_count s - (r_end r - ?sz - r_start r) div esz,
                 available_ranges := make_range_available ?fr (available_ranges s), used_ranges := u\<rparr>"
      by (auto simp: resize_cases split: if_splits sum.splits)
    have fw: "range_wf ?fr" and nw: "range_wf ?nr" using shrink by (simp_all add: range_wf_def range_len_def)
    have "\<forall>j r'. sm_get u j = Some r' \<longrightarrow> range_wf r'" using vs sm_set_Inr [OF set] nw by simp
    moreover have "desc_coalesced (make_range_available ?fr (available_ranges s))"
      using dc fw by (rule make_range_available_order)
    ultimately show ?thesis using sm_wf_set [OF wf set] s' by (simp add: free_order_def vals_wf_get)
  qed
qed

lemma shift_down_wf: "range_wf u \<Longrightarrow> range_wf (shift_down g u)"
  by (simp add: shift_down_def range_wf_def diff_le_mono)

lemma drain_gaps_wf:
  "drain_gaps gs u d = Inr (u', d') \<Longrightarrow> \<forall>k r. sm_get u k = Some r \<longrightarrow> range_wf r \<Longrightarrow>
   \<forall>k r. sm_get u' k = Some r \<longrightarrow> range_wf r"
proof (induction gs arbitrary: u d)
  case Nil
  then show ?case by simp
next
  case (Cons g gs)
  from Cons.prems(1) have ok: "r_start g \<le> r_end g" "r_end g \<le> length d" by (simp_all split: if_splits)
  with Cons.prems(1) have rest: "drain_gaps gs (sm_map_values (shift_down g) u) (take (r_start g) d @ drop (r_end g) d) = Inr (u', d')"
    by simp
  have "sm_get (sm_map_values (shift_down g) u) k = Some r \<Longrightarrow> range_wf r" for k r
    using Cons.prems(2) shift_down_wf by auto
  with Cons.IH [OF rest] show ?case by blast
qed

lemma fix_sequence_order:
  assumes "free_order s" "fix_sequence s = Inr s'"
  shows "free_order s'"
proof -
  obtain u d where dg: "drain_gaps (rev (available_ranges s)) (used_ranges s) (data s) = Inr (u, d)"
    and s': "s' = s\<lparr>available_ranges := [], used_ranges := u, data := d\<rparr>"
    using assms(2) by (cases "drain_gaps (rev (available_ranges s)) (used_ranges s) (data s)")
                      (auto simp: fix_sequence_def)
  have "\<forall>k r. sm_get (used_ranges s) k = Some r \<longrightarrow> range_wf r" using assms(1) by (simp add: free_order_def vals_wf_get)
  from drain_gaps_wf [OF dg this] have "\<forall>k r. sm_get u k = Some r \<longrightarrow> range_wf r" .
  moreover have "sm_wf u" using drain_gaps_lens [OF dg] assms(1) by (simp add: free_order_def)
  ultimately show ?thesis using s' by (simp add: free_order_def vals_wf_get desc_coalesced_def)
qed

lemma copy_sorted_wf:
  "copy_sorted old kvs u nd = Inr (u', nd') \<Longrightarrow>
   \<forall>k r. sm_get u k = Some r \<longrightarrow> range_wf r \<Longrightarrow> \<forall>k r. sm_get u' k = Some r \<longrightarrow> range_wf r"
proof (induction old kvs u nd rule: copy_sorted.induct)
  case (1 old u nd)
  then show ?case by simp
next
  case (2 old k r kvs u nd)
  from "2.prems"(1) have ok: "r_start r \<le> r_end r \<and> r_end r \<le> length old"
    by (simp split: if_splits)
  let ?nr = "mk_range (length nd) (length (nd @ sub_slice old r))"
  from "2.prems"(1) ok obtain u1 where set: "sm_set k ?nr u = Inr u1"
    and rest: "copy_sorted old kvs u1 (nd @ sub_slice old r) = Inr (u', nd')"
    by (cases "sm_set k ?nr u") (simp_all add: Let_def)
  have "range_wf ?nr" by (simp add: range_wf_def)
  then have "\<forall>j r'. sm_get u1 j = Some r' \<longrightarrow> range_wf r'" using "2.prems"(2) sm_set_Inr [OF set] by simp
  with "2.IH" [OF ok refl refl set rest] show ?case by simp
qed

lemma sort_ranges_order:
  assumes "free_order s" "sort_ranges b s = Inr s'"
  shows "free_order s'"
proof -
  let ?kvs = "sort_key (sort_key_of b) (sm_iter (used_ranges s))"
  from assms(2) obtain u nd where c: "copy_sorted (data s) ?kvs (used_ranges s) [] = Inr (u, nd)"
    and s': "s' = s\<lparr>used_ranges := u, data := nd, available_ranges := []\<rparr>"
    by (cases "copy_sorted (data s) ?kvs (used_ranges s) []") (auto simp: sort_ranges_def)
  have "\<forall>k r. sm_get (used_ranges s) k = Some r \<longrightarrow> range_wf r" using assms(1) by (simp add: free_order_def vals_wf_get)
  from copy_sorted_wf [OF c this] have "\<forall>k r. sm_get u k = Some r \<longrightarrow> range_wf r" .
  moreover have "sm_wf u" using sort_ranges_lens [OF assms(2)] assms(1) s' by (simp add: free_order_def)
  ultimately show ?thesis using s' by (simp add: free_order_def vals_wf_get desc_coalesced_def)
qed

lemma free_order_frame [simp]:
  "free_order (s\<lparr>buffer := b\<rparr>) = free_order s" "free_order (s\<lparr>mutated := m\<rparr>) = free_order s"
  "free_order (s\<lparr>data := d\<rparr>) = free_order s"
  by (simp_all add: free_order_def)

lemma step_order:
  assumes "free_order s" "step esz (dev, s) o1 = Inr (dev', s')"
  shows "free_order s'"
proof (cases o1)
  case (Allocate n)
  with assms show ?thesis by (auto intro: allocate_order)
next
  case (Get k)
  with assms show ?thesis by (auto dest!: get_Inr split: sum.splits)
next
  case (SetElem k i x)
  with assms show ?thesis by (auto dest!: set_elem_Inr split: sum.splits)
next
  case (LenOf k)
  with assms show ?thesis by (simp split: sum.splits)
next
  case (Resize k n)
  with assms show ?thesis by (auto intro: resize_order split: sum.splits)
next
  case (Free k)
  with assms show ?thesis by (auto intro: free_order_free split: sum.splits)
next
  case Upload
  show ?thesis using upload_Inr [OF assms(2) [unfolded Upload step.simps]]
  proof
    assume "mutated s \<and> (\<exists>s1 buf. fix_sequence s = Inr s1 \<and> (dev', buf) = upload_or_resize dev (buffer s1) (data s1)
      \<and> s' = s1\<lparr>buffer := buf, mutated := False\<rparr>)"
    then obtain s1 buf where "fix_sequence s = Inr s1" "s' = s1\<lparr>buffer := buf, mutated := False\<rparr>" by blast
    with fix_sequence_order [OF assms(1)] show ?thesis by simp
  qed (use assms(1) in simp)
next
  case (Optimize st)
  show ?thesis using optimize_Inr [OF assms(2) [unfolded Optimize step.simps]]
  proof
    assume "\<exists>s1 buf. fix_sequence s = Inr s1 \<and> st = Truncate \<and> s' = s1\<lparr>buffer := buf\<rparr>"
    then obtain s1 buf where "fix_sequence s = Inr s1" "s' = s1\<lparr>buffer := buf\<rparr>" by blast
    with fix_sequence_order [OF assms(1)] show ?thesis by simp
  next
    assume "\<exists>b. sort_ranges b s = Inr s' \<and> dev' = dev"
    with sort_ranges_order [OF assms(1)] show ?thesis by blast
  qed
qed

lemma run_order:
  "free_order s \<Longrightarrow> run esz (dev, s) ops = Inr (dev', s') \<Longrightarrow> free_order s'"
proof (induction ops arbitrary: dev s)
  case Nil
  then show ?case by simp
next
  case (Cons o1 os)
  then obtain dev1 s1 where st: "step esz (dev, s) o1 = Inr (dev1, s1)" and r: "run esz (dev1, s1) os = Inr (dev', s')"
    by (auto split: sum.splits)
  from step_order [OF Cons.prems(1) st] r show ?case by (rule Cons.IH)
qed

lemma free_order_new: "free_order (snd (new_simple esz usages dev))"
  by (simp add: free_order_def desc_coalesced_def new_simple_def create_buffer_def sm_values_def sm_iter_def
      sm_new_def sm_wf_def)

section \<open>Properties\<close>

text \<open>C24: spec section 8, free-list coalescing. In every run from \<open>new\<close>, whatever
  calls it makes, no two entries of the free list are adjacent or overlapping and the
  list is sorted by start offset, from the highest address down; every entry is a
  well-formed range.\<close>

theorem free_list_sorted_coalesced:
  assumes "run esz (new_simple esz usages dev) ops = Inr (dev', s)"
  shows "sorted_wrt (\<lambda>a b. r_end b < r_start a) (available_ranges s) \<and> (\<forall>r \<in> set (available_ranges s). range_wf r)"
proof -
  obtain d0 s0 where n: "new_simple esz usages dev = (d0, s0)" by fastforce
  have "free_order s0" using free_order_new [of esz usages dev] n by simp
  from run_order [OF this] assms n have "free_order s" by simp
  then show ?thesis by (simp add: free_order_def desc_coalesced_def)
qed

theorem free_list_sorted_coalesced_witness:
  "case run 4 (new_simple 4 0 dev0) [Allocate 1, Allocate 1, Allocate 1, Allocate 1, Free (Key 2 1), Free (Key 0 1)] of
     Inr (d, s) \<Rightarrow> available_ranges s = [mk_range 8 12, mk_range 0 4] \<and>
                  sorted_wrt (\<lambda>a b. r_end b < r_start a) (available_ranges s)
   | Inl _ \<Rightarrow> False"
proof -
  have "case run 4 (new_simple 4 0 dev0) [Allocate 1, Allocate 1, Allocate 1, Allocate 1, Free (Key 2 1), Free (Key 0 1)] of
     Inr (d, s) \<Rightarrow> available_ranges s = [mk_range 8 12, mk_range 0 4] | Inl _ \<Rightarrow> False"
    by code_simp
  then obtain d s where r: "run 4 (new_simple 4 0 dev0)
      [Allocate 1, Allocate 1, Allocate 1, Allocate 1, Free (Key 2 1), Free (Key 0 1)] = Inr (d, s)"
    and a: "available_ranges s = [mk_range 8 12, mk_range 0 4]"
    by (auto split: sum.splits)
  from free_list_sorted_coalesced [OF r] r a show ?thesis by simp
qed

end
