(* ===== verification/Keys.thy ===== *)
theory Keys
  imports Simple
begin

text \<open>
  Handles that are not live. Spec section 2 makes it correctness-critical that a freed
  handle is rejected afterwards and never reaches another allocation; the
  generation-tagged keys of the slot map provide this. This theory gives the error
  behaviour of every method on a key that is not live and on a zero element size, and
  shows that a key, once stale, stays stale through every later call, so that \<open>get\<close>
  on it panics with \<open>InvalidKey\<close> in every later state.
\<close>

section \<open>Every call keeps a stale key stale\<close>

lemma drain_gaps_map_values:
  "drain_gaps gs u d = Inr (u', d') \<Longrightarrow> \<exists>f. u' = sm_map_values f u"
proof (induction gs u d rule: drain_gaps.induct)
  case (1 u d)
  then show ?case by (auto intro: exI [of _ id])
next
  case (2 g gs u d)
  then obtain f where "u' = sm_map_values f (sm_map_values (shift_down g) u)"
    by (auto split: if_splits)
  then show ?case by auto
qed

lemma fix_sequence_stale:
  "fix_sequence s = Inr s' \<Longrightarrow> sm_stale (used_ranges s) k \<Longrightarrow> sm_stale (used_ranges s') k"
  by (auto simp: fix_sequence_def dest!: drain_gaps_map_values split: sum.splits)

lemma copy_sorted_stale:
  "copy_sorted old kvs u nd = Inr (u', nd') \<Longrightarrow> sm_stale u k \<Longrightarrow> sm_stale u' k"
proof (induction old kvs u nd rule: copy_sorted.induct)
  case (1 old u nd)
  then show ?case by simp
next
  case (2 old k' r kvs u nd)
  then show ?case by (auto simp: Let_def dest: sm_stale_set split: if_splits sum.splits)
qed

lemma sort_ranges_stale:
  "sort_ranges b s = Inr s' \<Longrightarrow> sm_stale (used_ranges s) k \<Longrightarrow> sm_stale (used_ranges s') k"
  by (auto simp: sort_ranges_def dest: copy_sorted_stale split: sum.splits)

lemma free_stale:
  "free esz k' s = Inr s' \<Longrightarrow> sm_stale (used_ranges s) k \<Longrightarrow> sm_stale (used_ranges s') k"
  by (auto simp: free_def Let_def intro: sm_stale_remove(1) split: prod.splits option.splits if_splits)

lemma allocate_stale:
  "sm_stale (used_ranges s) k \<Longrightarrow> sm_stale (used_ranges (snd (allocate esz n s))) k"
  by (auto simp: allocate_def claim_range_def Let_def intro: sm_stale_insert split: prod.splits option.splits)

lemma free_makes_stale:
  assumes "sm_get (used_ranges s) k \<noteq> None" "free esz k s = Inr s1"
  shows "sm_stale (used_ranges s1) k"
proof -
  obtain xo u where rm: "sm_remove k (used_ranges s) = (xo, u)" by fastforce
  with assms(1) have "xo \<noteq> None" using sm_get_remove(2) [OF rm] by simp
  then have "sm_stale u k" using sm_stale_remove(2) [OF rm] by simp
  moreover have "used_ranges s1 = u"
    using assms(2) rm by (auto simp: free_def Let_def split: option.splits if_splits)
  ultimately show ?thesis by simp
qed

lemma step_stale:
  assumes "step esz (dev, s) o1 = Inr (dev', s')" "sm_stale (used_ranges s) k"
  shows "sm_stale (used_ranges s') k"
proof (cases o1)
  case (Resize k' n)
  with assms show ?thesis
    by (auto simp: resize_def Let_def intro: sm_stale_set dest: free_stale allocate_stale
             split: sum.splits option.splits if_splits prod.splits)
       (metis allocate_stale free_stale snd_conv)
next
  case Upload
  with assms show ?thesis
    by (auto simp: upload_def intro: fix_sequence_stale split: if_splits sum.splits prod.splits)
next
  case (Optimize st)
  with assms show ?thesis
    by (cases st) (auto simp: optimize_def intro: fix_sequence_stale sort_ranges_stale
                        split: sum.splits prod.splits)
qed (use assms in \<open>auto simp: get_def set_elem_def Let_def intro: allocate_stale free_stale
                       split: sum.splits option.splits if_splits\<close>)

lemma run_stale:
  "run esz (dev, s) ops = Inr (dev', s') \<Longrightarrow> sm_stale (used_ranges s) k \<Longrightarrow> sm_stale (used_ranges s') k"
proof (induction ops arbitrary: dev s)
  case Nil then show ?case by simp
next
  case (Cons o1 os)
  then obtain dev1 s1 where "step esz (dev, s) o1 = Inr (dev1, s1)" "run esz (dev1, s1) os = Inr (dev', s')"
    by (auto split: sum.splits)
  with Cons show ?case by (blast dest: step_stale)
qed

section \<open>Properties\<close>

text \<open>C15: a handle that is freed stays invalid: after \<open>free\<close> of a live key and any
  run of later calls (allocations that re-use its slot, compaction, sorting, resizes),
  \<open>get\<close>, \<open>len_of\<close> and \<open>resize\<close> on the old key panic with \<open>InvalidKey\<close>; it never
  reaches another allocation.\<close>

theorem freed_key_stays_invalid:
  assumes "sm_get (used_ranges s) k \<noteq> None" "free esz k s = Inr s1"
    and "run esz (dev, s1) ops = Inr (dev', s')"
  shows "get esz k s' = Inl InvalidKey \<and> len_of esz k s' = Inl InvalidKey \<and>
    (\<forall>n. resize esz k n s' = Inl InvalidKey)"
proof -
  have "sm_stale (used_ranges s') k" using run_stale [OF assms(3) free_makes_stale [OF assms(1,2)]] .
  then have "sm_get (used_ranges s') k = None" by (rule sm_stale_get)
  then show ?thesis by (simp add: get_def len_of_def resize_def)
qed

theorem freed_key_stays_invalid_witness:
  "case run 4 (new_simple 4 0 dev0) [Allocate 1, Allocate 1] of
     Inr (d, s) \<Rightarrow>
       (case free 4 (Key 0 1) s of
          Inr s1 \<Rightarrow> sm_get (used_ranges s) (Key 0 1) \<noteq> None \<and>
            (case run 4 (d, s1) [Allocate 1, Upload, Optimize SortSizeAscending] of
               Inr (d', s') \<Rightarrow> sm_get (used_ranges s') (Key 0 3) \<noteq> None \<and> get 4 (Key 0 1) s' = Inl InvalidKey
             | Inl _ \<Rightarrow> False)
        | Inl _ \<Rightarrow> False)
   | Inl _ \<Rightarrow> False"
proof -
  have "case run 4 (new_simple 4 0 dev0) [Allocate 1, Allocate 1] of
     Inr (d, s) \<Rightarrow> sm_get (used_ranges s) (Key 0 1) \<noteq> None \<and> \<not> isl (free 4 (Key 0 1) s)
   | Inl _ \<Rightarrow> False"
    by code_simp
  then obtain d s where r: "run 4 (new_simple 4 0 dev0) [Allocate 1, Allocate 1] = Inr (d, s)"
    and live: "sm_get (used_ranges s) (Key 0 1) \<noteq> None" and c: "\<not> isl (free 4 (Key 0 1) s)"
    by (auto split: sum.splits)
  from c obtain s1 where f: "free 4 (Key 0 1) s = Inr s1" by (cases "free 4 (Key 0 1) s") simp_all
  have "case run 4 (new_simple 4 0 dev0) [Allocate 1, Allocate 1] of
     Inr (d, s) \<Rightarrow> (case free 4 (Key 0 1) s of
        Inr s1 \<Rightarrow> \<not> isl (run 4 (d, s1) [Allocate 1, Upload, Optimize SortSizeAscending]) \<and>
          (case run 4 (d, s1) [Allocate 1, Upload, Optimize SortSizeAscending] of
             Inr (d', s') \<Rightarrow> sm_get (used_ranges s') (Key 0 3) \<noteq> None | Inl _ \<Rightarrow> False)
      | Inl _ \<Rightarrow> False)
   | Inl _ \<Rightarrow> False"
    by code_simp
  with r f obtain d' s' where r2: "run 4 (d, s1) [Allocate 1, Upload, Optimize SortSizeAscending] = Inr (d', s')"
    and k3: "sm_get (used_ranges s') (Key 0 3) \<noteq> None"
    by (auto split: sum.splits)
  from freed_key_stays_invalid [OF live f r2] r f r2 live k3 show ?thesis by simp
qed

text \<open>C16: error behaviour on a key that is not live (never allocated, freed, or
  replaced by a growing resize): \<open>get\<close>, an element write, \<open>len_of\<close> and \<open>resize\<close>
  panic with \<open>InvalidKey\<close>, while \<open>free\<close> succeeds and changes nothing but the
  \<open>mutated\<close> flag (\<open>SlotMap::remove\<close> of such a key returns \<open>None\<close>).\<close>

theorem not_live_errors:
  assumes "sm_get (used_ranges s) k = None"
  shows "get esz k s = Inl InvalidKey \<and> set_elem esz k i x s = Inl InvalidKey \<and>
    len_of esz k s = Inl InvalidKey \<and> resize esz k n s = Inl InvalidKey \<and>
    free esz k s = Inr (s\<lparr>mutated := True\<rparr>)"
  using assms by (simp add: get_def set_elem_def len_of_def resize_def free_def sm_remove_def)

theorem not_live_errors_witness:
  "case run 4 (new_simple 4 0 dev0) [Allocate 1] of
     Inr (d, s) \<Rightarrow> sm_get (used_ranges s) (Key 0 2) = None \<and>
       get 4 (Key 0 2) s = Inl InvalidKey \<and> free 4 (Key 0 2) s = Inr (s\<lparr>mutated := True\<rparr>)
   | Inl _ \<Rightarrow> False"
proof -
  have "case run 4 (new_simple 4 0 dev0) [Allocate 1] of
     Inr (d, s) \<Rightarrow> sm_get (used_ranges s) (Key 0 2) = None | Inl _ \<Rightarrow> False"
    by code_simp
  then obtain d s where r: "run 4 (new_simple 4 0 dev0) [Allocate 1] = Inr (d, s)"
    and n: "sm_get (used_ranges s) (Key 0 2) = None"
    by (auto split: sum.splits)
  from not_live_errors [OF n, of 4 0 "[]" 0] r n show ?thesis by simp
qed

end
