(* ===== verification/ResizeContents.thy ===== *)
theory ResizeContents
  imports Refinement FreeListOrder Keys
begin

text \<open>
  What \<open>resize\<close> does to the contents of a handle, in every run (spec section 8,
  "shrink keeps suffix", and the open question of section 9 on a growing resize). A
  shrinking resize keeps the handle and its last \<open>new_len\<close> elements, in place: it
  never panics in a run from \<open>new\<close> once the handle's range lies in \<open>data\<close>, since
  the size invariant rules out the underflow of \<open>allocated_count\<close>. A growing resize
  frees the range and allocates anew without copying: the handle changes and the new
  view holds zeros when \<open>data\<close> grows, or the stale bytes of a freed allocation when
  a free range is re-used; allocations are never cleared.
\<close>

lemma run_from_new_invs:
  assumes "run esz (new_simple esz usages dev) ops = Inr (dev', s)"
  shows "count_inv esz s \<and> free_order s"
proof -
  obtain d0 s0 where n: "new_simple esz usages dev = (d0, s0)" by fastforce
  have "count_inv esz s0" "free_order s0"
    using count_inv_new [of esz usages dev] free_order_new [of esz usages dev] n by simp_all
  with count_inv_run [of esz "(d0, s0)" ops] run_order [of s0 esz d0 ops] assms n show ?thesis by auto
qed

section \<open>Properties\<close>

text \<open>C25: spec section 8, shrink keeps suffix. In every run from \<open>new\<close>, shrinking a
  live handle whose range lies in \<open>data\<close> to \<open>n\<close> elements succeeds, keeps the
  handle, leaves \<open>data\<close> as it is, makes \<open>len_of\<close> return \<open>n\<close>, and the handle then
  reads the last \<open>n\<close> elements it held.\<close>

theorem shrink_keeps_suffix:
  assumes "run esz (new_simple esz usages dev) ops = Inr (dev', s)"
    and "sm_get (used_ranges s) k = Some r" "r_end r \<le> length (data s)" "0 < esz" "n * esz < range_len r"
  shows "\<exists>s'. resize esz k n s = Inr (k, s') \<and> data s' = data s \<and> len_of esz k s' = Inr n \<and>
    (\<exists>r'. sm_get (used_ranges s') k = Some r' \<and>
          sub_slice (data s') r' = drop (range_len r - n * esz) (sub_slice (data s) r))"
proof -
  have ci: "count_inv esz s" and fo: "free_order s" using run_from_new_invs [OF assms(1)] by simp_all
  have wf: "range_wf r" using fo assms(2) by (auto simp: free_order_def in_sm_values)
  let ?sz = "n * esz"
  let ?nr = "mk_range (r_end r - ?sz) (r_end r)"
  have nu: "\<not> allocated_count s < (r_end r - ?sz - r_start r) div esz"
    using live_div_le_count [OF ci assms(2,4)] by (simp only: not_less)
  obtain u where set: "sm_set k ?nr (used_ranges s) = Inr u"
    using assms(2) by (cases "sm_set k ?nr (used_ranges s)") (simp_all add: sm_set_Inl)
  let ?s' = "s\<lparr>mutated := True,
                 allocated_count := allocated_count s - (r_end r - ?sz - r_start r) div esz,
                 available_ranges := make_range_available (mk_range (r_start r) (r_end r - ?sz))
                                        (available_ranges s),
                 used_ranges := u\<rparr>"
  have res: "resize esz k n s = Inr (k, ?s')"
    using assms(4,5) nu set by (simp add: resize_cases [OF assms(2)])
  have get': "sm_get u k = Some ?nr" using sm_set_Inr [OF set] by simp
  have "range_len ?nr = ?sz" using assms(5) wf by (simp add: range_len_def range_wf_def)
  then have "len_of esz k ?s' = Inr n" using get' assms(4) by (simp add: len_of_def)
  moreover have "sub_slice (data s) ?nr = drop (range_len r - ?sz) (sub_slice (data s) r)"
    using assms(5) wf by (intro sub_slice_tail) simp_all
  ultimately show ?thesis using res get' by auto
qed

theorem shrink_keeps_suffix_witness:
  "case run 4 (new_simple 4 0 dev0)
          (Allocate 10 # map (\<lambda>i. SetElem (Key 0 1) i (replicate 4 (of_nat i))) [0..<10]) of
     Inr (d, s) \<Rightarrow>
       (\<exists>s'. resize 4 (Key 0 1) 4 s = Inr (Key 0 1, s') \<and>
          (\<exists>r'. sm_get (used_ranges s') (Key 0 1) = Some r' \<and>
                sub_slice (data s') r' = [6, 6, 6, 6, 7, 7, 7, 7, 8, 8, 8, 8, 9, 9, 9, 9]))
   | Inl _ \<Rightarrow> False"
proof -
  have "case run 4 (new_simple 4 0 dev0)
          (Allocate 10 # map (\<lambda>i. SetElem (Key 0 1) i (replicate 4 (of_nat i))) [0..<10]) of
     Inr (d, s) \<Rightarrow> sm_get (used_ranges s) (Key 0 1) = Some (mk_range 0 40) \<and> 40 \<le> length (data s) \<and>
       drop 24 (sub_slice (data s) (mk_range 0 40)) = [6, 6, 6, 6, 7, 7, 7, 7, 8, 8, 8, 8, 9, 9, 9, 9]
   | Inl _ \<Rightarrow> False"
    by code_simp
  then obtain d s where r: "run 4 (new_simple 4 0 dev0)
          (Allocate 10 # map (\<lambda>i. SetElem (Key 0 1) i (replicate 4 (of_nat i))) [0..<10]) = Inr (d, s)"
    and g: "sm_get (used_ranges s) (Key 0 1) = Some (mk_range 0 40)" and b: "40 \<le> length (data s)"
    and v: "drop 24 (sub_slice (data s) (mk_range 0 40)) = [6, 6, 6, 6, 7, 7, 7, 7, 8, 8, 8, 8, 9, 9, 9, 9]"
    by (auto split: sum.splits)
  have h: "r_end (mk_range 0 40) \<le> length (data s)" "(0::nat) < 4" "4 * 4 < range_len (mk_range 0 40)"
    using b by simp_all
  have "\<exists>s'. resize 4 (Key 0 1) 4 s = Inr (Key 0 1, s') \<and>
          (\<exists>r'. sm_get (used_ranges s') (Key 0 1) = Some r' \<and>
                sub_slice (data s') r' = [6, 6, 6, 6, 7, 7, 7, 7, 8, 8, 8, 8, 9, 9, 9, 9])"
    using shrink_keeps_suffix [OF r g h] v by (auto simp: range_len_def)
  then show ?thesis unfolding r by simp
qed

text \<open>C26: spec section 9, growing resize discards data. In any state, growing a live
  handle frees it and allocates anew without copying and without clearing: the new
  handle is a fresh key of the requested size, the old key is dead, and the byte
  vector is the old one with only zeros appended. The new view thus shows zeros where
  \<open>data\<close> grew, and the stale bytes of freed allocations where a free range is re-used;
  the old contents are not carried over.\<close>

theorem resize_grow_reallocates:
  assumes "sm_wf (used_ranges s)" "sm_get (used_ranges s) k = Some r" "range_len r < n * esz"
    and "resize esz k n s = Inr (k', s')"
  shows "k' \<noteq> k \<and> sm_get (used_ranges s') k = None \<and>
    (\<exists>r'. sm_get (used_ranges s') k' = Some r' \<and> range_len r' = n * esz) \<and>
    (\<exists>m. data s' = data s @ replicate m 0)"
proof -
  from assms(3,4) obtain s1 where f: "free esz k s = Inr s1" and a: "allocate esz n s1 = (k', s')"
    by (auto simp: resize_cases [OF assms(2)] split: sum.splits)
  have "sm_stale (used_ranges s1) k" using free_makes_stale [OF _ f] assms(2) by simp
  then have "sm_stale (used_ranges s') k" using allocate_stale [of s1 k esz n] a by simp
  then have dead: "sm_get (used_ranges s') k = None" by (rule sm_stale_get)
  obtain t s3 where cr: "claim_range (esz * n) s1 = (t, s3)" by fastforce
  obtain k2 u where ins: "sm_insert t (used_ranges s1) = (k2, u)" by fastforce
  have eq: "k' = k2 \<and> used_ranges s' = u \<and> data s' = data s3" using a cr ins by (auto simp: allocate_eq)
  have "sm_wf (used_ranges s1)" using free_Inr(6) [OF f assms(1)] .
  then have live: "sm_get u k2 = Some t" using sm_get_insert [OF _ ins] by simp
  have len: "range_len t = n * esz" using claim_range_len [of "esz * n" s1] cr by (simp add: mult.commute)
  obtain m where "data s3 = data s1 @ replicate m 0" using claim_range_data [of "esz * n" s1] cr by auto
  then have "data s' = data s @ replicate m 0" using eq free_Inr(3) [OF f] by simp
  then show ?thesis using dead live eq len by auto
qed

theorem resize_grow_reallocates_witness:
  "case run 4 (new_simple 4 0 dev0) [Allocate 1, SetElem (Key 0 1) 0 [1, 2, 3, 4]] of
     Inr (d, s) \<Rightarrow>
       (case resize 4 (Key 0 1) 2 s of
          Inr (k', s') \<Rightarrow> k' \<noteq> Key 0 1 \<and> sm_get (used_ranges s') (Key 0 1) = None \<and>
             (\<exists>m. data s' = data s @ replicate m 0) \<and>
             data s' = [1, 2, 3, 4] @ replicate 8 0 \<and> sm_get (used_ranges s') k' = Some (mk_range 4 12)
        | Inl _ \<Rightarrow> False)
   | Inl _ \<Rightarrow> False"
proof -
  have "case run 4 (new_simple 4 0 dev0) [Allocate 1, SetElem (Key 0 1) 0 [1, 2, 3, 4]] of
     Inr (d, s) \<Rightarrow> sm_get (used_ranges s) (Key 0 1) = Some (mk_range 0 4) \<and>
       \<not> isl (resize 4 (Key 0 1) 2 s) \<and>
       data (snd (projr (resize 4 (Key 0 1) 2 s))) = [1, 2, 3, 4] @ replicate 8 0 \<and>
       sm_get (used_ranges (snd (projr (resize 4 (Key 0 1) 2 s)))) (fst (projr (resize 4 (Key 0 1) 2 s))) =
         Some (mk_range 4 12)
   | Inl _ \<Rightarrow> False"
    by code_simp
  then obtain d s where r: "run 4 (new_simple 4 0 dev0) [Allocate 1, SetElem (Key 0 1) 0 [1, 2, 3, 4]] = Inr (d, s)"
    and h: "sm_get (used_ranges s) (Key 0 1) = Some (mk_range 0 4)" "\<not> isl (resize 4 (Key 0 1) 2 s)"
      "data (snd (projr (resize 4 (Key 0 1) 2 s))) = [1, 2, 3, 4] @ replicate 8 0"
      "sm_get (used_ranges (snd (projr (resize 4 (Key 0 1) 2 s)))) (fst (projr (resize 4 (Key 0 1) 2 s))) =
         Some (mk_range 4 12)"
    by (auto split: sum.splits)
  have wf: "sm_wf (used_ranges s)"
    using count_inv_run [of 4 "new_simple 4 0 dev0" "[Allocate 1, SetElem (Key 0 1) 0 [1, 2, 3, 4]]" "(d, s)"]
      count_inv_new r by (simp add: count_inv_def)
  define k' where "k' = fst (projr (resize 4 (Key 0 1) 2 s))"
  define s' where "s' = snd (projr (resize 4 (Key 0 1) 2 s))"
  have rs: "resize 4 (Key 0 1) 2 s = Inr (k', s')" using not_isl_Inr [OF h(2)] unfolding k'_def s'_def by simp
  have g: "range_len (mk_range 0 4) < 2 * 4" by simp
  have "k' \<noteq> Key 0 1 \<and> sm_get (used_ranges s') (Key 0 1) = None \<and>
    (\<exists>r'. sm_get (used_ranges s') k' = Some r' \<and> range_len r' = 2 * 4) \<and>
    (\<exists>m. data s' = data s @ replicate m 0)"
    by (rule resize_grow_reallocates [OF wf h(1) g rs])
  then show ?thesis unfolding r using h(3,4) unfolding k'_def [symmetric] s'_def [symmetric]
    by (simp only: sum.case prod.case rs) blast
qed

end

