(* ===== verification/AutoDrop.thy ===== *)
theory AutoDrop
  imports GpuMemory
begin

text \<open>
  The ownership-tracked decorator \<open>AutoDropping<T, M>\<close> of \<open>src/auto_drop.rs\<close>,
  generic over the wrapped allocator \<open>M\<close>, which is any value \<open>ops\<close> of the trait
  record \<open>gpu_memory_ops\<close> (theory \<open>GpuMemory\<close>). The decorator's state
  \<open>'s ad_state\<close> holds the wrapped allocator (\<open>Arc<RwLock<M>>\<close>: the lock serialises
  the calls and is not modelled further), whether that \<open>Arc\<close> is still alive (the
  handles hold only a \<open>Weak\<close> to it), and the strong counts of the \<open>Arc<()>\<close>
  liveness tokens that the handles carry, one entry per token ever allocated. A handle
  \<open>'k ad_handle\<close> is the wrapped allocator's key and the index of its token.

  The methods delegate to \<open>ops\<close>; \<open>clone\<close> creates a fresh token, as the code does
  (\<open>Arc::new(())\<close>, not \<open>Arc::clone\<close>); \<open>drop\<close> frees the key through the store
  when its token's strong count is 1 and the store is still alive; \<open>free\<close> drops the
  handle it takes by value, so it runs the same code. A caller's use of the decorator is
  a program over numbered handle variables (\<open>ad_cmd\<close>), run by \<open>ad_cstep\<close>: a
  panic of the wrapped allocator is an \<open>Inl\<close> value, and a program Rust would not
  compile (a method call after the decorator was dropped, a use of a moved variable)
  has no run (\<open>None\<close>).
\<close>

section \<open>State and handles\<close>

record 's ad_state =
  ad_inner :: 's
  ad_alive :: bool
  ad_counts :: "nat list"

datatype 'k ad_handle = ADHandle (ad_key: 'k) (ad_token: nat)

text \<open>\<open>Arc::new(())\<close>: a new token with strong count 1.\<close>

definition arc_new :: "'s ad_state \<Rightarrow> nat \<times> 's ad_state" where
  "arc_new st = (length (ad_counts st), st\<lparr>ad_counts := ad_counts st @ [1]\<rparr>)"

text \<open>Dropping an \<open>Arc<()>\<close>: its strong count goes down by one.\<close>

definition arc_drop :: "nat \<Rightarrow> 's ad_state \<Rightarrow> 's ad_state" where
  "arc_drop t st = st\<lparr>ad_counts := (ad_counts st)[t := ad_counts st ! t - 1]\<rparr>"

section \<open>The methods\<close>

definition ad_new :: "'s \<Rightarrow> 's ad_state" where
  "ad_new s0 = \<lparr>ad_inner = s0, ad_alive = True, ad_counts = []\<rparr>"

definition ad_is_empty :: "('s, 'k, 'o, 'v) gpu_memory_ops \<Rightarrow> 's ad_state \<Rightarrow> bool" where
  "ad_is_empty ops st = op_is_empty ops (ad_inner st)"

definition ad_size :: "('s, 'k, 'o, 'v) gpu_memory_ops \<Rightarrow> 's ad_state \<Rightarrow> nat" where
  "ad_size ops st = op_size ops (ad_inner st)"

definition ad_mutated :: "('s, 'k, 'o, 'v) gpu_memory_ops \<Rightarrow> 's ad_state \<Rightarrow> bool" where
  "ad_mutated ops st = op_mutated ops (ad_inner st)"

definition ad_allocate ::
  "('s, 'k, 'o, 'v) gpu_memory_ops \<Rightarrow> nat \<Rightarrow> 's ad_state \<Rightarrow> 'k ad_handle \<times> 's ad_state" where
  "ad_allocate ops cnt st =
     (let (k, s') = op_allocate ops cnt (ad_inner st);
          (t, st') = arc_new (st\<lparr>ad_inner := s'\<rparr>)
      in (ADHandle k t, st'))"

definition ad_get ::
  "('s, 'k, 'o, 'v) gpu_memory_ops \<Rightarrow> 'k ad_handle \<Rightarrow> 's ad_state \<Rightarrow> ('s ad_state \<times> 'v) res" where
  "ad_get ops h st =
     (case op_get ops (ad_key h) (ad_inner st) of
        Inl e \<Rightarrow> Inl e
      | Inr (s', v) \<Rightarrow> Inr (st\<lparr>ad_inner := s'\<rparr>, v))"

definition ad_len :: "('s, 'k, 'o, 'v) gpu_memory_ops \<Rightarrow> 's ad_state \<Rightarrow> nat" where
  "ad_len ops st = op_len ops (ad_inner st)"

definition ad_len_of :: "('s, 'k, 'o, 'v) gpu_memory_ops \<Rightarrow> 'k ad_handle \<Rightarrow> 's ad_state \<Rightarrow> nat res" where
  "ad_len_of ops h st = op_len_of ops (ad_key h) (ad_inner st)"

text \<open>\<open>resize\<close> rewrites the key inside the handle it is given (\<open>&mut index.inner\<close>);
  the handle keeps its token.\<close>

definition ad_resize ::
  "('s, 'k, 'o, 'v) gpu_memory_ops \<Rightarrow> 'k ad_handle \<Rightarrow> nat \<Rightarrow> 's ad_state \<Rightarrow> ('k ad_handle \<times> 's ad_state) res" where
  "ad_resize ops h n st =
     (case op_resize ops (ad_key h) n (ad_inner st) of
        Inl e \<Rightarrow> Inl e
      | Inr (k', s') \<Rightarrow> Inr (ADHandle k' (ad_token h), st\<lparr>ad_inner := s'\<rparr>))"

text \<open>\<open>Clone for AutoDroppingAddressId\<close>: the same key, the same parent, and a new
  token \<open>Arc::new(())\<close>.\<close>

definition ad_clone :: "'k ad_handle \<Rightarrow> 's ad_state \<Rightarrow> 'k ad_handle \<times> 's ad_state" where
  "ad_clone h st = (let (t, st') = arc_new st in (ADHandle (ad_key h) t, st'))"

text \<open>\<open>Drop for AutoDroppingAddressId\<close>: if the token's strong count is 1 and the
  parent upgrades, free the key under the write lock; then the handle's fields are
  dropped, and with them its token.\<close>

definition ad_drop ::
  "('s, 'k, 'o, 'v) gpu_memory_ops \<Rightarrow> 'k ad_handle \<Rightarrow> 's ad_state \<Rightarrow> 's ad_state res" where
  "ad_drop ops h st =
     (if ad_counts st ! ad_token h = 1 \<and> ad_alive st
      then (case op_free ops (ad_key h) (ad_inner st) of
              Inl e \<Rightarrow> Inl e
            | Inr s' \<Rightarrow> Inr (arc_drop (ad_token h) (st\<lparr>ad_inner := s'\<rparr>)))
      else Inr (arc_drop (ad_token h) st))"

text \<open>\<open>free\<close> takes the handle by value; \<open>let _ = index\<close> does not move it, so it is
  dropped when \<open>free\<close> returns (after the warning is logged).\<close>

definition ad_free ::
  "('s, 'k, 'o, 'v) gpu_memory_ops \<Rightarrow> 'k ad_handle \<Rightarrow> 's ad_state \<Rightarrow> 's ad_state res" where
  "ad_free ops h st = ad_drop ops h st"

definition ad_upload ::
  "('s, 'k, 'o, 'v) gpu_memory_ops \<Rightarrow> device \<Rightarrow> 's ad_state \<Rightarrow> (device \<times> 's ad_state) res" where
  "ad_upload ops dev st =
     (case op_upload ops dev (ad_inner st) of
        Inl e \<Rightarrow> Inl e
      | Inr (dev', s') \<Rightarrow> Inr (dev', st\<lparr>ad_inner := s'\<rparr>))"

definition ad_optimize ::
  "('s, 'k, 'o, 'v) gpu_memory_ops \<Rightarrow> 'o \<Rightarrow> device \<Rightarrow> 's ad_state \<Rightarrow> (device \<times> 's ad_state) res" where
  "ad_optimize ops strat dev st =
     (case op_optimize ops strat dev (ad_inner st) of
        Inl e \<Rightarrow> Inl e
      | Inr (dev', s') \<Rightarrow> Inr (dev', st\<lparr>ad_inner := s'\<rparr>))"

definition ad_buffer :: "('s, 'k, 'o, 'v) gpu_memory_ops \<Rightarrow> 's ad_state \<Rightarrow> device_buffer" where
  "ad_buffer ops st = op_buffer ops (ad_inner st)"

definition ad_buffer_slice :: "('s, 'k, 'o, 'v) gpu_memory_ops \<Rightarrow> 's ad_state \<Rightarrow> device_buffer \<times> nat" where
  "ad_buffer_slice ops st = (ad_buffer ops st, ad_size ops st)"

text \<open>The decorator is itself an implementation of the trait.\<close>

definition ad_ops ::
  "('s, 'k, 'o, 'v) gpu_memory_ops \<Rightarrow> ('s ad_state, 'k ad_handle, 'o, 'v) gpu_memory_ops" where
  "ad_ops ops =
     \<lparr>op_mutated = ad_mutated ops, op_allocate = ad_allocate ops, op_get = ad_get ops,
      op_len = ad_len ops, op_len_of = ad_len_of ops, op_resize = ad_resize ops,
      op_free = ad_free ops, op_upload = ad_upload ops, op_optimize = ad_optimize ops,
      op_buffer = ad_buffer ops, op_is_empty = ad_is_empty ops, op_size = ad_size ops\<rparr>"

section \<open>Client programs\<close>

text \<open>A client holds handles in numbered variables; a variable that was dropped or
  moved into \<open>free\<close> is \<open>None\<close>. \<open>ADClone i\<close> stores the clone in a new variable;
  \<open>ADDropParent\<close> drops the decorator itself.\<close>

datatype ad_cmd = ADAlloc nat | ADClone nat | ADDrop nat | ADFree nat | ADGet nat
  | ADLenOf nat | ADResize nat nat | ADUpload | ADDropParent

type_synonym ('s, 'k) ad_client = "device \<times> 's ad_state \<times> 'k ad_handle option list"

definition var :: "'k ad_handle option list \<Rightarrow> nat \<Rightarrow> 'k ad_handle option" where
  "var vs i = (if i < length vs then vs ! i else None)"

fun ad_cstep ::
  "('s, 'k, 'o, 'v) gpu_memory_ops \<Rightarrow> ('s, 'k) ad_client \<Rightarrow> ad_cmd \<Rightarrow> ('s, 'k) ad_client res option" where
  "ad_cstep ops (dev, st, vs) (ADAlloc n) =
     (if ad_alive st then (let (h, st') = ad_allocate ops n st in Some (Inr (dev, st', vs @ [Some h])))
      else None)"
| "ad_cstep ops (dev, st, vs) (ADClone i) =
     (case var vs i of
        None \<Rightarrow> None
      | Some h \<Rightarrow> (let (h', st') = ad_clone h st in Some (Inr (dev, st', vs @ [Some h']))))"
| "ad_cstep ops (dev, st, vs) (ADDrop i) =
     (case var vs i of
        None \<Rightarrow> None
      | Some h \<Rightarrow> Some (case ad_drop ops h st of Inl e \<Rightarrow> Inl e | Inr st' \<Rightarrow> Inr (dev, st', vs[i := None])))"
| "ad_cstep ops (dev, st, vs) (ADFree i) =
     (case var vs i of
        None \<Rightarrow> None
      | Some h \<Rightarrow> if ad_alive st
                  then Some (case ad_free ops h st of Inl e \<Rightarrow> Inl e | Inr st' \<Rightarrow> Inr (dev, st', vs[i := None]))
                  else None)"
| "ad_cstep ops (dev, st, vs) (ADGet i) =
     (case var vs i of
        None \<Rightarrow> None
      | Some h \<Rightarrow> if ad_alive st
                  then Some (case ad_get ops h st of Inl e \<Rightarrow> Inl e | Inr (st', _) \<Rightarrow> Inr (dev, st', vs))
                  else None)"
| "ad_cstep ops (dev, st, vs) (ADLenOf i) =
     (case var vs i of
        None \<Rightarrow> None
      | Some h \<Rightarrow> if ad_alive st
                  then Some (case ad_len_of ops h st of Inl e \<Rightarrow> Inl e | Inr _ \<Rightarrow> Inr (dev, st, vs))
                  else None)"
| "ad_cstep ops (dev, st, vs) (ADResize i n) =
     (case var vs i of
        None \<Rightarrow> None
      | Some h \<Rightarrow> if ad_alive st
                  then Some (case ad_resize ops h n st of
                               Inl e \<Rightarrow> Inl e | Inr (h', st') \<Rightarrow> Inr (dev, st', vs[i := Some h']))
                  else None)"
| "ad_cstep ops (dev, st, vs) ADUpload =
     (if ad_alive st then Some (case ad_upload ops dev st of Inl e \<Rightarrow> Inl e | Inr (dev', st') \<Rightarrow> Inr (dev', st', vs))
      else None)"
| "ad_cstep ops (dev, st, vs) ADDropParent =
     (if ad_alive st then Some (Inr (dev, st\<lparr>ad_alive := False\<rparr>, vs)) else None)"

text \<open>The tokens held by the live handle variables, in order.\<close>

fun live_tokens :: "'k ad_handle option list \<Rightarrow> nat list" where
  "live_tokens [] = []"
| "live_tokens (None # vs) = live_tokens vs"
| "live_tokens (Some h # vs) = ad_token h # live_tokens vs"

text \<open>What the code keeps of the tokens: no two live handles share one, and every live
  handle's token has strong count 1.\<close>

definition ad_inv :: "'s ad_state \<Rightarrow> 'k ad_handle option list \<Rightarrow> bool" where
  "ad_inv st vs \<longleftrightarrow> distinct (live_tokens vs) \<and>
     (\<forall>t \<in> set (live_tokens vs). t < length (ad_counts st) \<and> ad_counts st ! t = 1)"

fun ad_crun ::
  "('s, 'k, 'o, 'v) gpu_memory_ops \<Rightarrow> ('s, 'k) ad_client \<Rightarrow> ad_cmd list \<Rightarrow> ('s, 'k) ad_client res option" where
  "ad_crun ops c [] = Some (Inr c)"
| "ad_crun ops c (cmd # cmds) =
     (case ad_cstep ops c cmd of
        None \<Rightarrow> None
      | Some (Inl e) \<Rightarrow> Some (Inl e)
      | Some (Inr c') \<Rightarrow> ad_crun ops c' cmds)"

section \<open>Lemmas\<close>

lemma var_SomeD: "var vs i = Some h \<Longrightarrow> i < length vs \<and> vs ! i = Some h"
  by (simp add: var_def split: if_splits)

lemma live_tokens_snoc [simp]: "live_tokens (vs @ [Some h]) = live_tokens vs @ [ad_token h]"
  by (induction vs rule: live_tokens.induct) simp_all

lemma live_tokens_in: "i < length vs \<Longrightarrow> vs ! i = Some h \<Longrightarrow> ad_token h \<in> set (live_tokens vs)"
proof (induction vs arbitrary: i rule: live_tokens.induct)
  case 1 then show ?case by simp
next
  case (2 vs) then show ?case by (cases i) auto
next
  case (3 h' vs) then show ?case by (cases i) auto
qed

lemma live_tokens_drop:
  "distinct (live_tokens vs) \<Longrightarrow> i < length vs \<Longrightarrow> vs ! i = Some h \<Longrightarrow>
   live_tokens (vs[i := None]) = remove1 (ad_token h) (live_tokens vs)"
proof (induction vs arbitrary: i rule: live_tokens.induct)
  case 1 then show ?case by simp
next
  case (2 vs) then show ?case by (cases i) auto
next
  case (3 h' vs)
  show ?case
  proof (cases i)
    case 0 with 3 show ?thesis by simp
  next
    case (Suc j)
    with "3.prems" have "ad_token h \<in> set (live_tokens vs)" by (auto intro: live_tokens_in)
    with Suc 3 show ?thesis by auto
  qed
qed

lemma live_tokens_resize:
  "i < length vs \<Longrightarrow> vs ! i = Some h \<Longrightarrow> ad_token h' = ad_token h \<Longrightarrow>
   live_tokens (vs[i := Some h']) = live_tokens vs"
proof (induction vs arbitrary: i rule: live_tokens.induct)
  case 1 then show ?case by simp
next
  case (2 vs) then show ?case by (cases i) auto
next
  case (3 h'' vs) then show ?case by (cases i) auto
qed

lemma ad_inv_frame [simp]:
  "ad_inv (st\<lparr>ad_inner := x\<rparr>) vs = ad_inv st vs" "ad_inv (st\<lparr>ad_alive := b\<rparr>) vs = ad_inv st vs"
  by (simp_all add: ad_inv_def)

lemma ad_inv_new [simp]: "ad_inv (ad_new s0) []"
  by (simp add: ad_inv_def)

lemma ad_inv_push:
  assumes "ad_inv st vs" "arc_new st = (t, st')"
  shows "ad_inv st' (vs @ [Some (ADHandle k t)])"
proof -
  have t: "t = length (ad_counts st)" "ad_counts st' = ad_counts st @ [1]"
    using assms(2) by (auto simp: arc_new_def)
  then have "t \<notin> set (live_tokens vs)" using assms(1) by (auto simp: ad_inv_def)
  with assms(1) t show ?thesis by (auto simp: ad_inv_def nth_append)
qed

lemma ad_inv_drop:
  assumes "ad_inv st vs" "var vs i = Some h" "ad_counts st' = ad_counts st"
  shows "ad_inv (arc_drop (ad_token h) st') (vs[i := None])"
proof -
  have i: "i < length vs" "vs ! i = Some h" using var_SomeD [OF assms(2)] by simp_all
  have d: "distinct (live_tokens vs)" using assms(1) by (simp add: ad_inv_def)
  have "live_tokens (vs[i := None]) = remove1 (ad_token h) (live_tokens vs)"
    using live_tokens_drop [OF d i] .
  with assms(1,3) d show ?thesis by (auto simp: ad_inv_def arc_drop_def nth_list_update)
qed

text \<open>The count test of \<open>drop\<close> always passes on a live handle: the token never
  counts the clones.\<close>

lemma ad_inv_count: "ad_inv st vs \<Longrightarrow> var vs i = Some h \<Longrightarrow> ad_counts st ! ad_token h = 1"
  using live_tokens_in [of i vs h] by (auto simp: ad_inv_def dest!: var_SomeD)

lemma ad_inv_step:
  assumes "ad_inv st vs" "ad_cstep ops (dev, st, vs) cmd = Some (Inr (dev', st', vs'))"
  shows "ad_inv st' vs'"
proof (cases cmd)
  case (ADAlloc n)
  obtain k s1 where a: "op_allocate ops n (ad_inner st) = (k, s1)" by fastforce
  obtain t st1 where t: "arc_new (st\<lparr>ad_inner := s1\<rparr>) = (t, st1)" by fastforce
  from assms(2) ADAlloc a t have "st' = st1" "vs' = vs @ [Some (ADHandle k t)]"
    by (auto simp: ad_allocate_def split: if_splits)
  with ad_inv_push [of "st\<lparr>ad_inner := s1\<rparr>" vs t st1 k] assms(1) t show ?thesis by simp
next
  case (ADClone i)
  with assms show ?thesis
    by (auto simp: ad_clone_def Let_def intro: ad_inv_push split: option.splits prod.splits)
next
  case (ADDrop i)
  with assms show ?thesis
    by (auto simp: ad_drop_def intro!: ad_inv_drop split: option.splits sum.splits if_splits)
next
  case (ADFree i)
  with assms show ?thesis
    by (auto simp: ad_free_def ad_drop_def intro!: ad_inv_drop split: option.splits sum.splits if_splits)
next
  case (ADGet i)
  with assms show ?thesis by (auto simp: ad_get_def ad_inv_def split: option.splits sum.splits if_splits prod.splits)
next
  case (ADLenOf i)
  with assms show ?thesis by (auto split: option.splits sum.splits if_splits)
next
  case (ADResize i n)
  with assms show ?thesis
    by (auto simp: ad_resize_def ad_inv_def live_tokens_resize dest!: var_SomeD
             split: option.splits sum.splits if_splits prod.splits)
next
  case ADUpload
  with assms show ?thesis by (auto simp: ad_upload_def ad_inv_def split: sum.splits if_splits prod.splits)
next
  case ADDropParent
  with assms show ?thesis by (auto simp: ad_inv_def split: if_splits)
qed

lemma ad_inv_run:
  "ad_inv st vs \<Longrightarrow> ad_crun ops (dev, st, vs) cmds = Some (Inr (dev', st', vs')) \<Longrightarrow> ad_inv st' vs'"
proof (induction cmds arbitrary: dev st vs)
  case Nil then show ?case by simp
next
  case (Cons cmd cmds)
  then obtain dev1 st1 vs1 where "ad_cstep ops (dev, st, vs) cmd = Some (Inr (dev1, st1, vs1))"
    "ad_crun ops (dev1, st1, vs1) cmds = Some (Inr (dev', st', vs'))"
    by (auto split: option.splits sum.splits)
  with Cons.prems Cons.IH ad_inv_step show ?case by blast
qed

section \<open>Properties\<close>

text \<open>C11: in every run of a client program from a new decorator, dropping any live
  handle while the decorator is alive frees its key in the wrapped allocator, whatever
  clones of the handle are still alive: the liveness token of each clone is its own, so
  the \<open>strong_count == 1\<close> test never sees the clones.\<close>

theorem drop_frees_despite_clones:
  assumes "ad_crun ops (dev, ad_new s0, []) cmds = Some (Inr (dev', st, vs))"
    and "var vs i = Some h" "ad_alive st"
  shows "ad_drop ops h st =
    (case op_free ops (ad_key h) (ad_inner st) of
       Inl e \<Rightarrow> Inl e
     | Inr s' \<Rightarrow> Inr (arc_drop (ad_token h) (st\<lparr>ad_inner := s'\<rparr>)))"
proof -
  have "ad_inv st vs" using ad_inv_run [OF ad_inv_new assms(1)] .
  then have "ad_counts st ! ad_token h = 1" using assms(2) by (rule ad_inv_count)
  with assms(3) show ?thesis by (simp add: ad_drop_def)
qed

text \<open>C12: once the decorator is dropped, what a client can still do with its handles
  (clone and drop them) never panics, never reaches the wrapped allocator and never
  talks to the device: the \<open>Weak\<close> parent no longer upgrades.\<close>

theorem after_parent_dropped_noop:
  assumes "\<not> ad_alive st"
  shows "case ad_crun ops (dev, st, vs) cmds of
           Some (Inl e) \<Rightarrow> False
         | Some (Inr (dev', st', vs')) \<Rightarrow> dev' = dev \<and> ad_inner st' = ad_inner st \<and> \<not> ad_alive st'
         | None \<Rightarrow> True"
  using assms
proof (induction cmds arbitrary: st vs)
  case Nil then show ?case by simp
next
  case (Cons cmd cmds)
  show ?case
  proof (cases "ad_cstep ops (dev, st, vs) cmd")
    case None then show ?thesis by simp
  next
    case (Some r)
    with Cons.prems obtain st1 vs1 where r: "r = Inr (dev, st1, vs1)" "ad_inner st1 = ad_inner st" "\<not> ad_alive st1"
      by (cases cmd) (auto simp: ad_drop_def ad_clone_def arc_new_def arc_drop_def Let_def
                           split: option.splits if_splits)
    have "case ad_crun ops (dev, st1, vs1) cmds of
           Some (Inl e) \<Rightarrow> False
         | Some (Inr (dev', st', vs')) \<Rightarrow> dev' = dev \<and> ad_inner st' = ad_inner st1 \<and> \<not> ad_alive st'
         | None \<Rightarrow> True" using Cons.IH [OF r(3)] .
    with Some r show ?thesis by (simp split: option.splits sum.splits prod.splits)
  qed
qed

end
