(* ===== verification/Ownership.thy ===== *)
theory Ownership
  imports AutoDrop Keys SizeInvariant
begin

text \<open>
  What the decorator of \<open>src/auto_drop.rs\<close> exists for, over \<open>SimpleGpuMemory\<close>
  (\<open>simple_ops\<close>): the caller never frees by hand, and no allocation outlives its
  owners. While the decorator is alive, every live key of the wrapped allocator is
  held by some live handle variable of the client (\<open>ad_owned\<close>); so once the client
  has dropped every handle, the wrapped allocator holds no allocation and its
  \<open>len()\<close> and \<open>size()\<close> are 0. The lemmas give, for each method the decorator
  calls, how it changes the set of live keys.
\<close>

text \<open>The keys held by the client's live handle variables.\<close>

fun held_keys :: "'k ad_handle option list \<Rightarrow> 'k list" where
  "held_keys [] = []"
| "held_keys (None # vs) = held_keys vs"
| "held_keys (Some h # vs) = ad_key h # held_keys vs"

text \<open>The wrapped allocator keeps its size invariant, and while the decorator is alive
  every live key of it is held by a live handle.\<close>

definition ad_owned :: "nat \<Rightarrow> simple_gpu_memory ad_state \<Rightarrow> key ad_handle option list \<Rightarrow> bool" where
  "ad_owned esz st vs \<longleftrightarrow> count_inv esz (ad_inner st) \<and>
     (ad_alive st \<longrightarrow> (\<forall>k \<in> set (map fst (sm_iter (used_ranges (ad_inner st)))). k \<in> set (held_keys vs)))"

section \<open>The live keys after each method\<close>

lemma held_keys_snoc [simp]: "held_keys (vs @ [Some h]) = held_keys vs @ [ad_key h]"
  by (induction vs rule: held_keys.induct) simp_all

lemma held_keys_iff: "k \<in> set (held_keys vs) \<longleftrightarrow> (\<exists>h. Some h \<in> set vs \<and> ad_key h = k)"
  by (induction vs rule: held_keys.induct) auto

lemma held_keys_update:
  assumes "i < length vs" "vs ! i = Some h" "k \<in> set (held_keys vs)" "k \<noteq> ad_key h"
  shows "k \<in> set (held_keys (vs[i := x]))"
proof -
  obtain h' where h': "Some h' \<in> set vs" "ad_key h' = k" using assms(3) by (auto simp: held_keys_iff)
  then obtain j where j: "j < length vs" "vs ! j = Some h'" by (auto simp: in_set_conv_nth)
  with assms(2,4) h'(2) have "j \<noteq> i" by auto
  with j have "Some h' \<in> set (vs[i := x])" by (auto simp: in_set_conv_nth nth_list_update)
  with h'(2) show ?thesis by (auto simp: held_keys_iff)
qed

lemma keys_sm_iter: "k \<in> set (map fst (sm_iter u)) \<longleftrightarrow> sm_get u k \<noteq> None"
proof
  assume "k \<in> set (map fst (sm_iter u))"
  then obtain y where "(k, y) \<in> set (sm_iter u)" by auto
  then show "sm_get u k \<noteq> None" by (simp add: in_sm_iter)
next
  assume "sm_get u k \<noteq> None"
  then obtain y where "sm_get u k = Some y" by auto
  then have "(k, y) \<in> set (sm_iter u)" by (simp add: in_sm_iter)
  then show "k \<in> set (map fst (sm_iter u))" by force
qed

lemma ad_owned_keys:
  "ad_owned esz st vs \<longleftrightarrow> count_inv esz (ad_inner st) \<and>
     (ad_alive st \<longrightarrow> (\<forall>k. sm_get (used_ranges (ad_inner st)) k \<noteq> None \<longrightarrow> k \<in> set (held_keys vs)))"
  by (simp only: ad_owned_def Ball_def keys_sm_iter)

lemma allocate_keys:
  assumes "sm_wf (used_ranges s)" "allocate esz n s = (k, s')"
  shows "sm_get (used_ranges s') j \<noteq> None \<longleftrightarrow> j = k \<or> sm_get (used_ranges s) j \<noteq> None"
proof -
  obtain r s1 where cr: "claim_range (esz * n) s = (r, s1)" by fastforce
  obtain k1 u where ins: "sm_insert r (used_ranges s) = (k1, u)" by fastforce
  have "k = k1" "used_ranges s' = u" using assms(2) by (auto simp: allocate_eq cr ins)
  with sm_get_insert [OF assms(1) ins] show ?thesis by simp
qed

lemma free_keys:
  assumes "free esz k s = Inr s'"
  shows "sm_get (used_ranges s') j \<noteq> None \<longleftrightarrow> j \<noteq> k \<and> sm_get (used_ranges s) j \<noteq> None"
proof -
  obtain xo u where rm: "sm_remove k (used_ranges s) = (xo, u)" by fastforce
  with assms have "used_ranges s' = u" by (cases xo) (auto simp: free_cases split: if_splits)
  with sm_get_remove(1) [OF rm] show ?thesis by simp
qed

lemma resize_keys:
  assumes "sm_wf (used_ranges s)" "resize esz k n s = Inr (k', s')"
  shows "sm_get (used_ranges s') j \<noteq> None \<longleftrightarrow> j = k' \<or> (j \<noteq> k \<and> sm_get (used_ranges s) j \<noteq> None)"
proof -
  from assms(2) obtain r where get: "sm_get (used_ranges s) k = Some r"
    by (auto simp: resize_def Let_def split: option.splits)
  consider (grow) "range_len r < n * esz" | (same) "range_len r = n * esz" | (shrink) "n * esz < range_len r"
    by linarith
  then show ?thesis
  proof cases
    case grow
    with assms(2) get obtain s1 where f: "free esz k s = Inr s1" and a: "allocate esz n s1 = (k', s')"
      by (auto simp: resize_cases split: sum.splits)
    have "sm_wf (used_ranges s1)" using f assms(1) by (auto simp: free_cases sm_wf_remove split: prod.splits option.splits if_splits)
    with allocate_keys [OF _ a] free_keys [OF f] show ?thesis by auto
  next
    case same
    with assms(2) get show ?thesis by (auto simp: resize_cases)
  next
    case shrink
    with assms(2) get obtain u where set: "sm_set k (mk_range (r_end r - n * esz) (r_end r)) (used_ranges s) = Inr u"
      and "k' = k" "used_ranges s' = u"
      by (auto simp: resize_cases split: if_splits sum.splits)
    with sm_set_Inr [OF set] get show ?thesis by auto
  qed
qed

lemma upload_keys:
  assumes "upload dev s = Inr (dev', s')"
  shows "sm_get (used_ranges s') j \<noteq> None \<longleftrightarrow> sm_get (used_ranges s) j \<noteq> None"
  using upload_Inr [OF assms]
proof
  assume "mutated s \<and> (\<exists>s1 buf. fix_sequence s = Inr s1 \<and> (dev', buf) = upload_or_resize dev (buffer s1) (data s1)
      \<and> s' = s1\<lparr>buffer := buf, mutated := False\<rparr>)"
  then obtain s1 buf where f: "fix_sequence s = Inr s1" and s': "s' = s1\<lparr>buffer := buf, mutated := False\<rparr>"
    by blast
  from f obtain u d where "drain_gaps (rev (available_ranges s)) (used_ranges s) (data s) = Inr (u, d)"
    and "used_ranges s1 = u"
    by (cases "drain_gaps (rev (available_ranges s)) (used_ranges s) (data s)") (auto simp: fix_sequence_def)
  then obtain g where "used_ranges s1 = sm_map_values g (used_ranges s)" by (blast dest: drain_gaps_map_values)
  with s' show ?thesis by simp
qed simp

section \<open>Ownership is kept by every step of a client\<close>

lemma arc_frame [simp]:
  "ad_inner (snd (arc_new st)) = ad_inner st" "ad_alive (snd (arc_new st)) = ad_alive st"
  "ad_inner (arc_drop t st) = ad_inner st" "ad_alive (arc_drop t st) = ad_alive st"
  by (simp_all add: arc_new_def arc_drop_def)

lemma count_inv_mutated [simp]: "count_inv esz (s\<lparr>mutated := b\<rparr>) = count_inv esz s"
  by (simp add: count_inv_def live_lens_def)

lemma ad_owned_drop:
  assumes "ad_inv st vs" "ad_owned esz st vs" "var vs i = Some h"
    and "ad_drop (simple_ops esz) h st = Inr st'"
  shows "ad_owned esz st' (vs[i := None])"
proof (cases "ad_alive st")
  case True
  have "ad_counts st ! ad_token h = 1" using ad_inv_count [OF assms(1,3)] .
  with True assms(4) obtain s1 where f: "free esz (ad_key h) (ad_inner st) = Inr s1"
    and st': "st' = arc_drop (ad_token h) (st\<lparr>ad_inner := s1\<rparr>)"
    by (auto simp: ad_drop_def simple_ops_def split: sum.splits)
  have i: "i < length vs" "vs ! i = Some h" using var_SomeD [OF assms(3)] by simp_all
  have ci: "count_inv esz s1" using count_inv_free [OF _ f] assms(2) by (simp add: ad_owned_def)
  have "k \<in> set (held_keys (vs[i := None]))" if "sm_get (used_ranges s1) k \<noteq> None" for k
  proof -
    from that free_keys [OF f] have "k \<noteq> ad_key h" "sm_get (used_ranges (ad_inner st)) k \<noteq> None" by simp_all
    with assms(2) True have "k \<in> set (held_keys vs)" "k \<noteq> ad_key h" by (simp_all add: ad_owned_keys)
    with i show ?thesis by (rule held_keys_update)
  qed
  with ci st' show ?thesis by (simp add: ad_owned_keys)
next
  case False
  with assms(4) have "st' = arc_drop (ad_token h) st" by (simp add: ad_drop_def)
  with assms(2) False show ?thesis by (simp add: ad_owned_keys)
qed

lemma ad_owned_step:
  assumes "ad_inv st vs" "ad_owned esz st vs"
    and "ad_cstep (simple_ops esz) (dev, st, vs) cmd = Some (Inr (dev', st', vs'))"
  shows "ad_owned esz st' vs'"
proof -
  have ci: "count_inv esz (ad_inner st)" and wf: "sm_wf (used_ranges (ad_inner st))"
    and hk: "ad_alive st \<Longrightarrow> sm_get (used_ranges (ad_inner st)) k \<noteq> None \<Longrightarrow> k \<in> set (held_keys vs)" for k
    using assms(2) by (simp_all add: ad_owned_keys count_inv_def)
  show ?thesis
  proof (cases cmd)
    case (ADAlloc n)
    obtain k s1 where a: "allocate esz n (ad_inner st) = (k, s1)" by fastforce
    from assms(3) ADAlloc a have st': "st' = snd (arc_new (st\<lparr>ad_inner := s1\<rparr>))"
      and vs': "vs' = vs @ [Some (ADHandle k (fst (arc_new (st\<lparr>ad_inner := s1\<rparr>))))]"
      by (auto simp: ad_allocate_def simple_ops_def split: if_splits prod.splits)
    have "count_inv esz s1" using count_inv_allocate [OF ci, of n] a by simp
    with allocate_keys [OF wf a] hk show ?thesis by (auto simp: ad_owned_keys st' vs')
  next
    case (ADClone i)
    with assms(3) obtain h where "var vs i = Some h" "st' = snd (arc_new st)"
      "vs' = vs @ [Some (ADHandle (ad_key h) (fst (arc_new st)))]"
      by (auto simp: ad_clone_def split: option.splits prod.splits)
    with assms(2) show ?thesis by (auto simp: ad_owned_keys)
  next
    case (ADDrop i)
    with assms(3) obtain h where "var vs i = Some h" "ad_drop (simple_ops esz) h st = Inr st'" "vs' = vs[i := None]"
      by (auto split: option.splits sum.splits)
    with assms(1,2) show ?thesis by (blast intro: ad_owned_drop)
  next
    case (ADFree i)
    with assms(3) obtain h where "var vs i = Some h" "ad_drop (simple_ops esz) h st = Inr st'" "vs' = vs[i := None]"
      by (auto simp: ad_free_def split: option.splits sum.splits if_splits)
    with assms(1,2) show ?thesis by (blast intro: ad_owned_drop)
  next
    case (ADGet i)
    with assms(3) obtain h s1 r where "get esz (ad_key h) (ad_inner st) = Inr (s1, r)"
      "st' = st\<lparr>ad_inner := s1\<rparr>" "vs' = vs"
      by (auto simp: ad_get_def simple_ops_def split: option.splits sum.splits if_splits prod.splits)
    with assms(2) show ?thesis by (auto simp: ad_owned_keys dest!: get_Inr)
  next
    case (ADLenOf i)
    with assms(2,3) show ?thesis by (auto split: option.splits sum.splits if_splits)
  next
    case (ADResize i n)
    with assms(3) obtain h k' s1 where v: "var vs i = Some h"
      and r: "resize esz (ad_key h) n (ad_inner st) = Inr (k', s1)"
      and st': "st' = st\<lparr>ad_inner := s1\<rparr>" and vs': "vs' = vs[i := Some (ADHandle k' (ad_token h))]"
      by (auto simp: ad_resize_def simple_ops_def split: option.splits sum.splits if_splits prod.splits)
    have i: "i < length vs" "vs ! i = Some h" using var_SomeD [OF v] by simp_all
    have c1: "count_inv esz s1" using count_inv_resize [OF ci r] .
    have "k \<in> set (held_keys vs')" if "ad_alive st" "sm_get (used_ranges s1) k \<noteq> None" for k
    proof (cases "k = k'")
      case True
      have "Some (ADHandle k' (ad_token h)) \<in> set vs'" using i(1) by (simp add: vs' set_update_memI)
      with True show ?thesis by (auto simp: held_keys_iff)
    next
      case False
      with that resize_keys [OF wf r] have "k \<noteq> ad_key h" "sm_get (used_ranges (ad_inner st)) k \<noteq> None" by simp_all
      with hk that(1) have "k \<in> set (held_keys vs)" by simp
      from held_keys_update [OF i this \<open>k \<noteq> ad_key h\<close>] show ?thesis by (simp add: vs')
    qed
    with c1 st' show ?thesis by (simp add: ad_owned_keys)
  next
    case ADUpload
    with assms(3) obtain dev1 s1 where u: "upload dev (ad_inner st) = Inr (dev1, s1)"
      and st': "st' = st\<lparr>ad_inner := s1\<rparr>" and vs': "vs' = vs"
      by (auto simp: ad_upload_def simple_ops_def split: sum.splits if_splits prod.splits)
    have "count_inv esz s1" using count_inv_step [OF ci, of dev Upload dev1 s1] u by simp
    with upload_keys [OF u] hk show ?thesis by (simp add: ad_owned_keys st' vs')
  next
    case ADDropParent
    with assms(2,3) show ?thesis by (auto simp: ad_owned_keys split: if_splits)
  qed
qed

lemma ad_owned_run:
  "ad_inv st vs \<Longrightarrow> ad_owned esz st vs \<Longrightarrow>
   ad_crun (simple_ops esz) (dev, st, vs) cmds = Some (Inr (dev', st', vs')) \<Longrightarrow> ad_owned esz st' vs'"
proof (induction cmds arbitrary: dev st vs)
  case Nil then show ?case by simp
next
  case (Cons cmd cmds)
  then obtain dev1 st1 vs1 where s: "ad_cstep (simple_ops esz) (dev, st, vs) cmd = Some (Inr (dev1, st1, vs1))"
    and r: "ad_crun (simple_ops esz) (dev1, st1, vs1) cmds = Some (Inr (dev', st', vs'))"
    by (auto split: option.splits sum.splits)
  from ad_inv_step [OF Cons.prems(1) s] ad_owned_step [OF Cons.prems(1,2) s] r show ?case
    by (rule Cons.IH)
qed

lemma ad_owned_new: "ad_owned esz (ad_new (snd (new_simple esz usages dev))) []"
  using count_inv_new [of esz usages dev]
  by (simp add: ad_owned_def ad_new_def new_simple_def sm_iter_def sm_new_def split: prod.splits)

text \<open>No live key and the size invariant: nothing is allocated.\<close>

lemma count_inv_no_keys:
  assumes "count_inv esz s" "0 < esz" "\<forall>k. sm_get (used_ranges s) k = None"
  shows "sm_iter (used_ranges s) = [] \<and> allocated_count s = 0"
proof -
  have "sm_iter (used_ranges s) = []"
  proof (rule ccontr)
    assume "sm_iter (used_ranges s) \<noteq> []"
    then obtain k y where "(k, y) \<in> set (sm_iter (used_ranges s))" by (metis list.set_sel(1) surj_pair)
    with assms(3) show False by (simp add: in_sm_iter)
  qed
  then have "live_lens (used_ranges s) = {#}" by (simp add: live_lens_def sm_values_def)
  with assms(1,2) have "allocated_count s = 0" by (simp add: count_inv_def)
  with \<open>sm_iter (used_ranges s) = []\<close> show ?thesis by simp
qed

section \<open>Properties\<close>

text \<open>C23: every allocation made through the decorator is eventually released: in
  every client run from a new decorator over \<open>SimpleGpuMemory\<close>, once the client has
  dropped every handle (with the decorator alive), the wrapped allocator has no live
  handle and \<open>len()\<close> and \<open>size()\<close> are 0. Dropping the last owner frees, whatever
  clones, resizes and uploads came before.\<close>

theorem dropping_all_handles_releases:
  assumes "ad_crun (simple_ops esz) (fst (new_simple esz usages dev), ad_new (snd (new_simple esz usages dev)), []) cmds =
             Some (Inr (dev', st, vs))"
    and "ad_alive st" "\<forall>v \<in> set vs. v = None" "0 < esz"
  shows "sm_iter (used_ranges (ad_inner st)) = [] \<and> ad_len (simple_ops esz) st = 0 \<and> ad_size (simple_ops esz) st = 0"
proof -
  have o: "ad_owned esz st vs" using ad_owned_run [OF ad_inv_new ad_owned_new assms(1)] .
  have "held_keys vs = []" using assms(3) by (induction vs rule: held_keys.induct) simp_all
  with o assms(2) have "\<forall>k. sm_get (used_ranges (ad_inner st)) k = None" by (simp add: ad_owned_keys)
  with o assms(4) have "sm_iter (used_ranges (ad_inner st)) = [] \<and> allocated_count (ad_inner st) = 0"
    by (intro count_inv_no_keys) (simp_all add: ad_owned_def)
  then show ?thesis by (simp add: ad_len_def ad_size_def simple_ops_def len_def default_size_def)
qed

theorem dropping_all_handles_releases_witness:
  "case ad_crun (simple_ops 4) (fst (new_simple 4 0 dev0), ad_new (snd (new_simple 4 0 dev0)), [])
          [ADAlloc 1, ADClone 0, ADAlloc 2, ADResize 2 3, ADUpload, ADDrop 1, ADDrop 0, ADDrop 2] of
     Some (Inr (d, st, vs)) \<Rightarrow> ad_alive st \<and> (\<forall>v \<in> set vs. v = None) \<and> ad_size (simple_ops 4) st = 0
   | _ \<Rightarrow> False"
proof -
  have "case ad_crun (simple_ops 4) (fst (new_simple 4 0 dev0), ad_new (snd (new_simple 4 0 dev0)), [])
          [ADAlloc 1, ADClone 0, ADAlloc 2, ADResize 2 3, ADUpload, ADDrop 1, ADDrop 0, ADDrop 2] of
     Some (Inr (d, st, vs)) \<Rightarrow> ad_alive st \<and> (\<forall>v \<in> set vs. v = None) | _ \<Rightarrow> False"
    by code_simp
  then obtain d st vs where r: "ad_crun (simple_ops 4) (fst (new_simple 4 0 dev0), ad_new (snd (new_simple 4 0 dev0)), [])
          [ADAlloc 1, ADClone 0, ADAlloc 2, ADResize 2 3, ADUpload, ADDrop 1, ADDrop 0, ADDrop 2] = Some (Inr (d, st, vs))"
    and h: "ad_alive st" "\<forall>v \<in> set vs. v = None"
    by (auto split: option.splits sum.splits)
  have "(0::nat) < 4" by simp
  from dropping_all_handles_releases [OF r h this] r h show ?thesis by simp
qed


text \<open>C31: the two components composed. Over \<open>SimpleGpuMemory\<close>, in every client run
  from a new decorator, whatever handles were cloned and dropped, the decorator's
  \<open>size()\<close> (delegated through the trait to the default \<open>len() * size_of::<T>()\<close>)
  is the number of bytes of the wrapped allocator's live ranges: spec section 8's
  size invariant holds through \<open>AutoDropping\<close>, automatic frees included.\<close>

theorem decorator_size_is_live_bytes:
  assumes "ad_crun (simple_ops esz) (fst (new_simple esz usages dev), ad_new (snd (new_simple esz usages dev)), []) cmds =
             Some (Inr (dev', st, vs))"
  shows "ad_size (simple_ops esz) st = sum_len (sm_values (used_ranges (ad_inner st)))"
proof -
  have "count_inv esz (ad_inner st)"
    using ad_owned_run [OF ad_inv_new ad_owned_new assms] by (simp add: ad_owned_def)
  then show ?thesis by (simp add: ad_size_def simple_ops_def count_inv_size)
qed

theorem decorator_size_is_live_bytes_witness:
  "case ad_crun (simple_ops 4) (fst (new_simple 4 0 dev0), ad_new (snd (new_simple 4 0 dev0)), [])
          [ADAlloc 1, ADClone 0, ADAlloc 2, ADDrop 1] of
     Some (Inr (d, st, vs)) \<Rightarrow> ad_size (simple_ops 4) st = sum_len (sm_values (used_ranges (ad_inner st))) \<and>
       ad_size (simple_ops 4) st = 8
   | _ \<Rightarrow> False"
proof -
  have "case ad_crun (simple_ops 4) (fst (new_simple 4 0 dev0), ad_new (snd (new_simple 4 0 dev0)), [])
          [ADAlloc 1, ADClone 0, ADAlloc 2, ADDrop 1] of
     Some (Inr (d, st, vs)) \<Rightarrow> sum_len (sm_values (used_ranges (ad_inner st))) = 8 | _ \<Rightarrow> False"
    by code_simp
  then obtain d st vs where r: "ad_crun (simple_ops 4) (fst (new_simple 4 0 dev0), ad_new (snd (new_simple 4 0 dev0)), [])
          [ADAlloc 1, ADClone 0, ADAlloc 2, ADDrop 1] = Some (Inr (d, st, vs))"
    and l: "sum_len (sm_values (used_ranges (ad_inner st))) = 8"
    by (auto split: option.splits sum.splits)
  from decorator_size_is_live_bytes [OF r] l show ?thesis unfolding r by simp
qed

end
