(* ===== verification/Usize.thy ===== *)
theory Usize
  imports SizeInvariant
begin

text \<open>
  The \<open>usize\<close> arithmetic of \<open>SimpleGpuMemory\<close> at its width. The rest of the
  development counts bytes and elements in \<open>nat\<close>; here the products and sums of
  \<open>allocate\<close> and of the default \<open>size\<close> are computed on a 64-bit target, as Rust
  does: a debug build (overflow checks on) panics on an overflowing \<open>*\<close> or \<open>+\<close>, a
  release build wraps modulo \<open>2 ^ 64\<close>. The sort keys \<open>len as isize\<close> and
  \<open>-(len as isize)\<close> are read as two's complement 64-bit values. The lemmas show that
  the \<open>nat\<close> model is exact while the values stay below the width, and what the code
  does past it.
\<close>

type_synonym usize = "64 word"

text \<open>The two ways \<open>rustc\<close> compiles \<open>usize\<close> arithmetic.\<close>

datatype build = Debug | Release

definition usize_mul :: "build \<Rightarrow> nat \<Rightarrow> nat \<Rightarrow> nat res" where
  "usize_mul b x y =
     (if b = Debug \<and> 2 ^ 64 \<le> x * y then Inl Overflow
      else Inr (unat (word_of_nat x * word_of_nat y :: usize)))"

definition usize_add :: "build \<Rightarrow> nat \<Rightarrow> nat \<Rightarrow> nat res" where
  "usize_add b x y =
     (if b = Debug \<and> 2 ^ 64 \<le> x + y then Inl Overflow
      else Inr (unat (word_of_nat x + word_of_nat y :: usize)))"

definition usize_sub :: "build \<Rightarrow> nat \<Rightarrow> nat \<Rightarrow> nat res" where
  "usize_sub b x y =
     (if b = Debug \<and> x < y then Inl Underflow
      else Inr (unat (word_of_nat x - word_of_nat y :: usize)))"

text \<open>\<open>allocate\<close> with \<open>size = size_of::<T>() * count\<close> and
  \<open>allocated_count += count\<close> computed in \<open>usize\<close>.\<close>

definition allocate_w :: "build \<Rightarrow> nat \<Rightarrow> nat \<Rightarrow> simple_gpu_memory \<Rightarrow> (key \<times> simple_gpu_memory) res" where
  "allocate_w b esz cnt s =
     (let s = s\<lparr>mutated := True\<rparr> in
      case usize_mul b esz cnt of
        Inl e \<Rightarrow> Inl e
      | Inr sz \<Rightarrow>
          (let (r, s) = claim_range sz s in
           case usize_add b (allocated_count s) cnt of
             Inl e \<Rightarrow> Inl e
           | Inr c \<Rightarrow>
               (let s = s\<lparr>allocated_count := c\<rparr>; (k, u) = sm_insert r (used_ranges s)
                in Inr (k, s\<lparr>used_ranges := u\<rparr>))))"

text \<open>The default \<open>GpuMemory::size\<close>, \<open>self.len() * size_of::<T>()\<close>, in \<open>usize\<close>.\<close>

definition size_w :: "build \<Rightarrow> nat \<Rightarrow> simple_gpu_memory \<Rightarrow> nat res" where
  "size_w b esz s = usize_mul b (len s) esz"

text \<open>\<open>free\<close> with \<open>allocated_count -= range.len() / size_of::<T>()\<close> in \<open>usize\<close>.\<close>

definition free_w :: "build \<Rightarrow> nat \<Rightarrow> key \<Rightarrow> simple_gpu_memory \<Rightarrow> simple_gpu_memory res" where
  "free_w b esz k s =
     (let s = s\<lparr>mutated := True\<rparr> in
      case sm_remove k (used_ranges s) of
        (None, u) \<Rightarrow> Inr (s\<lparr>used_ranges := u\<rparr>)
      | (Some r, u) \<Rightarrow>
          if esz = 0 then Inl DivByZero
          else case usize_sub b (allocated_count s) (range_len r div esz) of
            Inl e \<Rightarrow> Inl e
          | Inr c \<Rightarrow> Inr (s\<lparr>used_ranges := u, allocated_count := c,
                          available_ranges := make_range_available r (available_ranges s)\<rparr>))"

text \<open>\<open>resize\<close> with \<open>size = len * size_of::<T>()\<close> and the count update in
  \<open>usize\<close>; the growing branch calls \<open>free\<close> and \<open>allocate\<close> at the same width.\<close>

definition resize_w :: "build \<Rightarrow> nat \<Rightarrow> key \<Rightarrow> nat \<Rightarrow> simple_gpu_memory \<Rightarrow> (key \<times> simple_gpu_memory) res" where
  "resize_w b esz k new_len s =
     (case usize_mul b new_len esz of
        Inl e \<Rightarrow> Inl e
      | Inr sz \<Rightarrow>
          (case sm_get (used_ranges s) k of
             None \<Rightarrow> Inl InvalidKey
           | Some r \<Rightarrow>
               if range_len r < sz then
                 (case free_w b esz k s of Inl e \<Rightarrow> Inl e | Inr s' \<Rightarrow> allocate_w b esz new_len s')
               else if range_len r = sz then Inr (k, s)
               else
                 (let s = s\<lparr>mutated := True\<rparr>;
                      fr = mk_range (r_start r) (r_end r - sz) in
                  if esz = 0 then Inl DivByZero
                  else case usize_sub b (allocated_count s) (range_len fr div esz) of
                    Inl e \<Rightarrow> Inl e
                  | Inr c \<Rightarrow>
                      (let s = s\<lparr>allocated_count := c,
                                 available_ranges := make_range_available fr (available_ranges s)\<rparr> in
                       case sm_set k (r\<lparr>r_start := r_end r - sz\<rparr>) (used_ranges s) of
                         Inl e \<Rightarrow> Inl e
                       | Inr u \<Rightarrow> Inr (k, s\<lparr>used_ranges := u\<rparr>)))))"

text \<open>The sort keys \<open>_sort_asc\<close> and \<open>_sort_desc\<close> as the code computes them:
  \<open>range.len() as isize\<close> reinterprets the 64 bits as two's complement, and the
  negation is on \<open>isize\<close>.\<close>

definition sort_key_isize :: "bool \<Rightarrow> key \<times> address_range \<Rightarrow> int" where
  "sort_key_isize descending =
     (\<lambda>(k, r). let l = (word_of_nat (range_len r) :: usize) in sint (if descending then - l else l))"

definition sort_ranges_w :: "bool \<Rightarrow> simple_gpu_memory \<Rightarrow> simple_gpu_memory res" where
  "sort_ranges_w descending s =
     (case copy_sorted (data s) (sort_key (sort_key_isize descending) (sm_iter (used_ranges s)))
             (used_ranges s) [] of
        Inl e \<Rightarrow> Inl e
      | Inr (u, nd) \<Rightarrow> Inr (s\<lparr>used_ranges := u, data := nd, available_ranges := []\<rparr>))"

section \<open>Arithmetic below the width\<close>

lemma usize_mul_eq:
  "usize_mul b x y = (if b = Debug \<and> 2 ^ 64 \<le> x * y then Inl Overflow else Inr (x * y mod 2 ^ 64))"
  unfolding usize_mul_def by (simp only: of_nat_mult [symmetric] unat_of_nat) simp

lemma usize_add_eq:
  "usize_add b x y = (if b = Debug \<and> 2 ^ 64 \<le> x + y then Inl Overflow else Inr ((x + y) mod 2 ^ 64))"
  unfolding usize_add_def by (simp only: of_nat_add [symmetric] unat_of_nat) simp

lemma usize_mul_exact: "x * y < 2 ^ 64 \<Longrightarrow> usize_mul b x y = Inr (x * y)"
  by (simp add: usize_mul_eq)

lemma usize_add_exact: "x + y < 2 ^ 64 \<Longrightarrow> usize_add b x y = Inr (x + y)"
  by (simp add: usize_add_eq)

lemma usize_sub_exact: "y \<le> x \<Longrightarrow> x < 2 ^ 64 \<Longrightarrow> usize_sub b x y = Inr (x - y)"
  unfolding usize_sub_def by (simp only: of_nat_diff [symmetric] unat_of_nat) simp

lemma claim_range_mutated:
  "claim_range sz (s\<lparr>mutated := m\<rparr>) = (fst (claim_range sz s), (snd (claim_range sz s))\<lparr>mutated := m\<rparr>)"
  by (simp add: claim_range_def Let_def split: option.splits)

lemma allocate_w_Inr:
  assumes "usize_mul b esz cnt = Inr sz" "usize_add b (allocated_count s) cnt = Inr c"
  shows "allocate_w b esz cnt s =
     (let (r, s1) = claim_range sz s; (k, u) = sm_insert r (used_ranges s)
      in Inr (k, s1\<lparr>mutated := True, allocated_count := c, used_ranges := u\<rparr>))"
proof -
  obtain r s1 where cr: "claim_range sz s = (r, s1)" by fastforce
  have "allocated_count s1 = allocated_count s" "used_ranges s1 = used_ranges s"
    using claim_range_frame(1,2) [of sz s] cr by simp_all
  then show ?thesis using assms cr by (simp add: allocate_w_def claim_range_mutated)
qed

lemma sint_of_nat_small:
  assumes "n < 2 ^ 63"
  shows "sint (word_of_nat n :: usize) = int n" "sint (- word_of_nat n :: usize) = - int n"
proof -
  have n: "int n < 2 ^ 63" using assms by (metis of_nat_less_iff of_nat_numeral of_nat_power)
  then have "sint (word_of_int (int n) :: usize) = int n"
    by (simp only: sint_sbintrunc') (rule signed_take_bit_int_eq_self; simp)
  then show "sint (word_of_nat n :: usize) = int n" by simp
  from n have "sint (word_of_int (- int n) :: usize) = - int n"
    by (simp only: sint_sbintrunc') (rule signed_take_bit_int_eq_self; simp)
  then show "sint (- word_of_nat n :: usize) = - int n" by simp
qed

lemma size_w_exact: "len s * esz < 2 ^ 64 \<Longrightarrow> size_w b esz s = Inr (default_size esz len s)"
  by (simp add: size_w_def default_size_def usize_mul_exact)

lemma live_lens_insert:
  "sm_wf m \<Longrightarrow> sm_insert r m = (k, u) \<Longrightarrow> live_lens u = add_mset (range_len r) (live_lens m)"
  by (simp add: live_lens_def mset_sm_values_insert)

lemma insort_key_cong:
  "\<forall>y \<in> insert x (set ys). f y = g y \<Longrightarrow> insort_key f x ys = insort_key g x ys"
  by (induction ys) auto

lemma sort_key_cong_set:
  "\<forall>x \<in> set xs. f x = g x \<Longrightarrow> sort_key f xs = sort_key g xs"
proof (induction xs)
  case (Cons x xs)
  then have "sort_key f xs = sort_key g xs" by simp
  moreover have "\<forall>y \<in> insert x (set (sort_key f xs)). f y = g y" using Cons.prems by simp
  ultimately show ?case by (simp add: insort_key_cong)
qed simp

lemma sort_key_isize_live:
  assumes "count_inv esz s" "allocated_count s * esz < 2 ^ 63" "kr \<in> set (sm_iter (used_ranges s))"
  shows "sort_key_isize b kr = sort_key_of b kr"
proof -
  obtain k r where kr: "kr = (k, r)" by fastforce
  have "range_len r < 2 ^ 63"
    using live_len_le_count [OF assms(1)] assms(2,3) kr in_sm_iter by fastforce
  then show ?thesis by (simp add: kr sort_key_isize_def sort_key_of_def sint_of_nat_small)
qed

lemma allocate_w_exact:
  assumes "esz * cnt < 2 ^ 64" "allocated_count s + cnt < 2 ^ 64"
  shows "allocate_w b esz cnt s = Inr (allocate esz cnt s)"
  using allocate_w_Inr [OF usize_mul_exact [OF assms(1)] usize_add_exact [OF assms(2)]]
  by (simp add: allocate_eq split: prod.splits)

lemma free_w_exact:
  assumes "count_inv esz s" "allocated_count s < 2 ^ 64"
  shows "free_w b esz k s = free esz k s"
proof -
  obtain xo u where rm: "sm_remove k (used_ranges s) = (xo, u)" by fastforce
  show ?thesis
  proof (cases xo)
    case None
    then show ?thesis using rm by (simp add: free_w_def free_cases)
  next
    case (Some r)
    have g: "sm_get (used_ranges s) k = Some r" using sm_get_remove(2) [OF rm] Some by simp
    show ?thesis
    proof (cases "esz = 0")
      case False
      have "(r_end r - 0 - r_start r) div esz \<le> allocated_count s"
        using live_div_le_count [OF assms(1) g, where sz = 0] False by simp
      then have "range_len r div esz \<le> allocated_count s" by (simp add: range_len_def)
      then show ?thesis using rm Some False assms(2) by (simp add: free_w_def free_cases usize_sub_exact)
    qed (use rm Some in \<open>simp add: free_w_def free_cases\<close>)
  qed
qed

lemma free_count_le: "free esz k s = Inr s' \<Longrightarrow> allocated_count s' \<le> allocated_count s"
  by (auto simp: free_cases split: prod.splits option.splits if_splits)

lemma resize_w_cases:
  assumes "usize_mul b new_len esz = Inr sz" "sm_get (used_ranges s) k = Some r"
  shows "resize_w b esz k new_len s =
     (if range_len r < sz then
        (case free_w b esz k s of Inl e \<Rightarrow> Inl e | Inr s' \<Rightarrow> allocate_w b esz new_len s')
      else if range_len r = sz then Inr (k, s)
      else if esz = 0 then Inl DivByZero
      else (case usize_sub b (allocated_count s) ((r_end r - sz - r_start r) div esz) of
              Inl e \<Rightarrow> Inl e
            | Inr c \<Rightarrow>
                (case sm_set k (mk_range (r_end r - sz) (r_end r)) (used_ranges s) of
                   Inl e \<Rightarrow> Inl e
                 | Inr u \<Rightarrow> Inr (k, s\<lparr>mutated := True, allocated_count := c,
                      available_ranges := make_range_available (mk_range (r_start r) (r_end r - sz))
                                             (available_ranges s),
                      used_ranges := u\<rparr>))))"
  using assms by (simp add: resize_w_def Let_def split: sum.splits)

lemma resize_w_exact:
  assumes "count_inv esz s" "new_len * esz < 2 ^ 64" "allocated_count s + new_len < 2 ^ 64"
  shows "resize_w b esz k new_len s = resize esz k new_len s"
proof (cases "sm_get (used_ranges s) k")
  case None
  then show ?thesis using assms(2) by (simp add: resize_w_def resize_def usize_mul_exact)
next
  case (Some r)
  note w = resize_w_cases [OF usize_mul_exact [OF assms(2)] Some] and n = resize_cases [OF Some]
  consider (lt) "range_len r < new_len * esz" | (eq) "range_len r = new_len * esz"
    | (gt) "new_len * esz < range_len r" by linarith
  then show ?thesis
  proof cases
    case lt
    have f: "free_w b esz k s = free esz k s" using free_w_exact [OF assms(1)] assms(3) by simp
    show ?thesis
    proof (cases "free esz k s")
      case (Inr s')
      have "allocated_count s' + new_len < 2 ^ 64" using free_count_le [OF Inr] assms(3) by simp
      moreover have "esz * new_len < 2 ^ 64" using assms(2) by (simp add: mult.commute)
      ultimately show ?thesis using lt w n f Inr by (simp add: allocate_w_exact)
    qed (use lt w n f in simp)
  next
    case gt
    show ?thesis
    proof (cases "esz = 0")
      case False
      define d where "d = (r_end r - new_len * esz - r_start r) div esz"
      have le: "d \<le> allocated_count s" unfolding d_def using live_div_le_count [OF assms(1) Some] False by simp
      have "usize_sub b (allocated_count s) d = Inr (allocated_count s - d)"
        using le assms(3) by (simp add: usize_sub_exact)
      then show ?thesis using gt False le unfolding w n d_def [symmetric] by simp
    qed (use gt w n in simp)
  qed (use w n in simp)
qed

text \<open>Below the width the \<open>nat\<close> model is exact: in a state with the size invariant,
  while \<open>size_of::<T>() * len\<close> and \<open>allocated_count + len\<close> fit in a \<open>usize\<close>, the
  width-aware \<open>allocate\<close>, \<open>free\<close> and \<open>resize\<close> return what the \<open>nat\<close> model
  returns, and while the live bytes stay below \<open>isize::MAX\<close> the 64-bit sort keys
  order the handles as the exact lengths do.\<close>

lemma usize_ops_refine:
  assumes "count_inv esz s" "esz * n < 2 ^ 64" "allocated_count s + n < 2 ^ 64"
  shows "allocate_w b esz n s = Inr (allocate esz n s) \<and> free_w b esz k s = free esz k s \<and>
    resize_w b esz k n s = resize esz k n s"
proof -
  have "allocate_w b esz n s = Inr (allocate esz n s)" using assms(2,3) by (rule allocate_w_exact)
  moreover have "free_w b esz k s = free esz k s" using free_w_exact [OF assms(1)] assms(3) by simp
  moreover have "resize_w b esz k n s = resize esz k n s"
    using resize_w_exact [OF assms(1) _ assms(3)] assms(2) by (simp add: mult.commute)
  ultimately show ?thesis by simp
qed

lemma sort_isize_keys_exact:
  assumes "run esz (new_simple esz usages dev) ops = Inr (dev', s)" "allocated_count s * esz < 2 ^ 63"
  shows "sort_ranges_w b s = sort_ranges b s"
proof -
  have "count_inv esz s"
    using count_inv_run [of esz "new_simple esz usages dev" ops "(dev', s)"] count_inv_new assms(1) by simp
  then have "sort_key (sort_key_isize b) (sm_iter (used_ranges s)) = sort_key (sort_key_of b) (sm_iter (used_ranges s))"
    using sort_key_isize_live assms(2) by (blast intro: sort_key_cong_set)
  then show ?thesis by (simp add: sort_ranges_w_def sort_ranges_def)
qed

section \<open>Properties\<close>

text \<open>C28: \<open>size_of::<T>() * count\<close> is not checked. Past the width a debug build
  panics, and a release build wraps: the handle it returns covers
  \<open>size_of::<T>() * count mod 2 ^ 64\<close> bytes while \<open>len()\<close> grows by \<open>count\<close>, so the size
  invariant (C2) no longer holds.\<close>

theorem allocate_overflow:
  assumes "count_inv esz s" "2 ^ 64 \<le> esz * cnt" "allocated_count s + cnt < 2 ^ 64"
  shows "allocate_w Debug esz cnt s = Inl Overflow \<and>
    (\<exists>k s' r. allocate_w Release esz cnt s = Inr (k, s') \<and> sm_get (used_ranges s') k = Some r \<and>
       range_len r = esz * cnt mod 2 ^ 64 \<and> len s' = len s + cnt \<and> \<not> count_inv esz s')"
proof -
  let ?sz = "esz * cnt mod 2 ^ 64"
  have dbg: "allocate_w Debug esz cnt s = Inl Overflow" using assms(2) by (simp add: allocate_w_def usize_mul_eq)
  obtain r s1 where cr: "claim_range ?sz s = (r, s1)" by fastforce
  obtain k u where ins: "sm_insert r (used_ranges s) = (k, u)" by fastforce
  have wf: "sm_wf (used_ranges s)" using assms(1) by (simp add: count_inv_def)
  have rl: "range_len r = ?sz" using claim_range_len [of ?sz s] cr by simp
  let ?s' = "s1\<lparr>mutated := True, allocated_count := allocated_count s + cnt, used_ranges := u\<rparr>"
  have rel: "allocate_w Release esz cnt s = Inr (k, ?s')"
    using allocate_w_Inr [of Release esz cnt ?sz s "allocated_count s + cnt"] assms(3) cr ins
    by (simp add: usize_mul_eq usize_add_eq)
  have "sm_get u k = Some r" using sm_get_insert [OF wf ins] by simp
  moreover have "\<not> count_inv esz ?s'"
  proof
    assume "count_inv esz ?s'"
    then have "(allocated_count s + cnt) * esz = sum_mset (live_lens (used_ranges s)) + ?sz"
      using live_lens_insert [OF wf ins] rl by (simp add: count_inv_def)
    moreover have "?sz < esz * cnt" using assms(2) by (meson less_le_trans mod_less_divisor zero_less_numeral zero_less_power)
    ultimately show False using assms(1) by (simp add: count_inv_def algebra_simps)
  qed
  ultimately show ?thesis using dbg rel rl by (auto simp: len_def)
qed

theorem allocate_overflow_witness:
  "allocate_w Debug 4 (2 ^ 62) (snd (new_simple 4 0 dev0)) = Inl Overflow \<and>
   (\<exists>k s' r. allocate_w Release 4 (2 ^ 62) (snd (new_simple 4 0 dev0)) = Inr (k, s') \<and>
      sm_get (used_ranges s') k = Some r \<and> range_len r = 0 \<and> len s' = 2 ^ 62 \<and> \<not> count_inv 4 s')"
proof -
  have "count_inv 4 (snd (new_simple 4 0 dev0))" by (rule count_inv_new)
  moreover have "allocated_count (snd (new_simple 4 0 dev0)) = 0" "len (snd (new_simple 4 0 dev0)) = 0"
    by (simp_all add: new_simple_def create_buffer_def len_def)
  ultimately show ?thesis using allocate_overflow [of 4 "snd (new_simple 4 0 dev0)" "2 ^ 62"] by simp
qed

text \<open>C30: \<open>len * size_of::<T>()\<close> in \<open>resize\<close> is not checked either. Past the width
  a debug build panics; a release build compares the wrapped size with the handle's
  length, so a resize asking for more than fits in a \<open>usize\<close> can shrink the handle,
  in place and under the same key, to the wrapped size instead of growing it.\<close>

theorem resize_overflow:
  assumes "count_inv esz s" "sm_get (used_ranges s) k = Some r" "0 < esz"
    and "2 ^ 64 \<le> n * esz" "n * esz mod 2 ^ 64 < range_len r" "allocated_count s < 2 ^ 64"
  shows "resize_w Debug esz k n s = Inl Overflow \<and>
    (\<exists>s'. resize_w Release esz k n s = Inr (k, s') \<and>
          sm_get (used_ranges s') k = Some (mk_range (r_end r - n * esz mod 2 ^ 64) (r_end r)))"
proof -
  let ?sz = "n * esz mod 2 ^ 64"
  have dbg: "resize_w Debug esz k n s = Inl Overflow" using assms(4) by (simp add: resize_w_def usize_mul_eq)
  have mul: "usize_mul Release n esz = Inr ?sz" by (simp add: usize_mul_eq)
  define d where "d = (r_end r - ?sz - r_start r) div esz"
  have le: "d \<le> allocated_count s" unfolding d_def using live_div_le_count [OF assms(1,2,3)] .
  have sub: "usize_sub Release (allocated_count s) d = Inr (allocated_count s - d)"
    using le assms(6) by (simp add: usize_sub_exact)
  obtain u where set: "sm_set k (mk_range (r_end r - ?sz) (r_end r)) (used_ranges s) = Inr u"
    using assms(2) by (cases "sm_set k (mk_range (r_end r - ?sz) (r_end r)) (used_ranges s)") (simp_all add: sm_set_Inl)
  have "resize_w Release esz k n s = Inr (k, s\<lparr>mutated := True, allocated_count := allocated_count s - d,
      available_ranges := make_range_available (mk_range (r_start r) (r_end r - ?sz)) (available_ranges s),
      used_ranges := u\<rparr>)"
    using assms(3,5) sub set unfolding resize_w_cases [OF mul assms(2)] d_def [symmetric] by simp
  moreover have "sm_get u k = Some (mk_range (r_end r - ?sz) (r_end r))" using sm_set_Inr(1) [OF set] by simp
  ultimately show ?thesis using dbg by simp
qed

theorem resize_overflow_witness:
  "case run 4 (new_simple 4 0 dev0) [Allocate 4] of
     Inr (d, s) \<Rightarrow> resize_w Debug 4 (Key 0 1) (2 ^ 62 + 2) s = Inl Overflow \<and>
       (\<exists>s'. resize_w Release 4 (Key 0 1) (2 ^ 62 + 2) s = Inr (Key 0 1, s') \<and>
             sm_get (used_ranges s') (Key 0 1) = Some (mk_range 8 16))
   | Inl _ \<Rightarrow> False"
proof -
  have "case run 4 (new_simple 4 0 dev0) [Allocate 4] of
     Inr (d, s) \<Rightarrow> allocated_count s = 4 \<and> sm_get (used_ranges s) (Key 0 1) = Some (mk_range 0 16)
   | Inl _ \<Rightarrow> False"
    by code_simp
  then obtain d s where r: "run 4 (new_simple 4 0 dev0) [Allocate 4] = Inr (d, s)"
    and c: "allocated_count s = 4" and g: "sm_get (used_ranges s) (Key 0 1) = Some (mk_range 0 16)"
    by (auto split: sum.splits)
  have ci: "count_inv 4 s"
    using count_inv_run [of 4 "new_simple 4 0 dev0" "[Allocate 4]" "(d, s)"] count_inv_new r by simp
  have h: "(0::nat) < 4" "2 ^ 64 \<le> (2 ^ 62 + 2) * (4::nat)"
    "(2 ^ 62 + 2) * 4 mod 2 ^ 64 < range_len (mk_range 0 16)" "allocated_count s < 2 ^ 64"
    using c by simp_all
  from resize_overflow [OF ci g h] show ?thesis unfolding r by simp
qed

end
