(* ===== verification/Spec2Isabelle.thy ===== *)
theory Spec2Isabelle
  imports ResizeContents AutoDrop Keys Ownership Usize
begin

text \<open>
  \<^bold>\<open>A verification development for wgpu_memory.\<close>

  The crate manages typed, variable-length blocks inside one byte buffer that is
  mirrored on the CPU and uploaded to a GPU buffer in one transfer. Its parts, in the
  order the theories model them:
  \<^item> \<open>Prelude\<close>: bytes (\<open>8 word\<close>), the half-open ranges \<open>Range<usize>\<close>
    (record \<open>address_range\<close>, with \<open>range_len\<close> as \<open>Range::len\<close>), slices of a byte
    vector (\<open>sub_slice\<close>), the panics of the Rust code as the datatype \<open>panic\<close> and
    the result type \<open>'a res = panic + 'a\<close>.
  \<^item> \<open>SlotMap\<close>: the handle registry \<open>SlotMap<DefaultKey, Range<usize>>\<close>. The
    \<open>slotmap\<close> crate is not in the repository; it is modelled from the spec's
    description as a generation-tagged index table (slots with versions, a stack of
    vacant slots). Its lemmas give lookup after insert/remove/update, the multiset of
    values after each, and that a removed key stays stale forever.
  \<^item> \<open>GpuMemory\<close>: \<open>src/lib.rs\<close>: the trait \<open>GpuMemory\<close> as a record of operations,
    its default methods \<open>is_empty\<close> and \<open>size\<close>, and \<open>upload_or_resize\<close>; the wgpu
    device, queue and buffer are modelled at their interface (spec section 6), with a
    log of the transfers they perform.
  \<^item> \<open>FreeList\<close>: the free list of \<open>src/simple.rs\<close>: \<open>merge_available_ranges\<close>
    (a \<^theory_text>\<open>function\<close> whose termination measure is the list length),
    \<open>make_range_available\<close> and the last-fit search of \<open>allocate\<close>, which is shown to
    be the spec's last-fit policy (C17).
  \<^item> \<open>Simple\<close>: \<open>SimpleGpuMemory\<close> of \<open>src/simple.rs\<close>: the state record
    \<open>simple_gpu_memory\<close> (the struct's fields, \<open>_phantom\<close> aside), \<open>fix_sequence\<close>,
    \<open>sort\<close> (\<open>sort_ranges\<close>), and every trait method (\<open>new_simple\<close>, \<open>allocate\<close>,
    \<open>get\<close>, \<open>len\<close>, \<open>len_of\<close>, \<open>resize\<close>, \<open>free\<close>, \<open>upload\<close>, \<open>optimize\<close>,
    \<open>buffer_slice\<close>), each returning the new state or the panic the code stops with;
    \<open>step\<close>/\<open>run\<close> execute a sequence of calls; \<open>strategy_name\<close> is the
    \<open>Display\<close> of \<open>Strategy\<close>.

  \<^item> \<open>SizeInvariant\<close>: the size invariant (\<open>allocated_count * size_of::<T>()\<close> is the
    sum of the live range lengths, each a whole number of elements), preserved by every
    method and so by every run; \<open>size()\<close> and \<open>len()\<close> follow from it (C2, C3).
  \<^item> \<open>Layout\<close>: the layout invariant (live and free ranges partition \<open>data\<close>, the free
    list in ascending order as spec section 3 describes it, nothing overlapping) and
    what it buys: compaction keeps every handle's bytes, \<open>upload\<close> and \<open>Truncate\<close> put
    them on the device (C7, C9), an element write is invisible through other handles
    (C8). It is kept by every method except \<open>free\<close> and a shrinking \<open>resize\<close> on a
    non-empty free list. There the code leaves it in two ways: the coalescing of
    \<open>make_range_available\<close> can put live bytes on the free list (C1), and the list it
    builds is descending (C24), so with two or more gaps it is not the ascending list
    the invariant asks for, and \<open>fix_sequence\<close>, which assumes that order, drains the
    wrong bytes (C4). C7 and C9 therefore cover the reachable states with at most one
    gap, and C4 shows what happens beyond them.
  \<^item> \<open>Sorting\<close>: the two sorting strategies of \<open>optimize\<close> (\<open>sort\<close> and its copy
    loop): under the layout invariant they succeed, lay the live allocations' bytes end
    to end ordered by size, empty the free list and keep every handle's bytes (C24).
  \<^item> \<open>Runs\<close>: \<open>run_ok\<close> names the runs that avoid the calls that break the layout
    invariant (every strategy of \<open>optimize\<close> is admitted); every such run keeps it,
    and C10 holds for all of them. \<open>sync_inv\<close> (the device buffer holds at least
    \<open>data\<close> while \<open>mutated\<close> is clear) gives the bound of \<open>buffer_slice\<close> after an
    upload (C18); the lemma \<open>buffer_slice_exceeds_buffer_before_upload\<close> shows it
    failing before the first upload.
  \<^item> \<open>Refinement\<close>: an abstract specification of the allocator, a map from each
    live handle to its bytes with a step relation \<open>astep\<close> per call, and the simulation:
    read through \<open>view\<close>, every run that \<open>run_ok\<close> admits is a run of \<open>astep\<close>
    (C13); an allocation of \<open>cnt\<close> elements reads back as \<open>cnt\<close> elements (C14).
  \<^item> \<open>Keys\<close>: keys that are not live. Every method on such a key panics with
    \<open>InvalidKey\<close>, except \<open>free\<close>, which only sets \<open>mutated\<close> (C16); a key that was
    freed stays stale through every later call, so it never reaches a later allocation
    that re-uses its slot (C15).
  \<^item> \<open>Transport\<close>: the copy rules of the device (\<open>Queue::write_buffer\<close> takes an
    offset and a size that are multiples of \<open>COPY_BUFFER_ALIGNMENT\<close>, 4 bytes; this
    rule is wgpu's, outside the repository, and is modelled from its documented
    validation) and the element alignment of the allocator: in every run, the length
    of \<open>data\<close> and both ends of every free and live range are multiples of
    \<open>size_of::<T>()\<close> (C21), so when that size is a multiple of 4 every transfer
    is valid (C22). The buffer's usage flags (a 32-bit word) keep the \<open>COPY_DST\<close> bit
    in every run (C27). \<open>upload\<close> has no failure result: on a changed allocator it
    issues exactly one transfer of the compacted bytes and clears \<open>mutated\<close> whatever
    the device does with it, so a second upload transfers nothing and a rejected write,
    as the 2-byte write of a \<open>u16\<close> allocator, is never retried (C29).
  \<^item> \<open>FreeListOrder\<close>: the order the code keeps the free list in. In every run the
    list is sorted by start offset from the highest address down, with a gap between
    any two entries (C24): the coalescing property of spec section 8, in descending
    order, so the last-fit search takes the fitting free range at the lowest address.
  \<^item> \<open>ResizeContents\<close>: what \<open>resize\<close> does to a handle's contents in every run:
    shrinking keeps the handle and its last elements in place and cannot underflow
    (C25); growing frees and re-allocates without copying, and no allocation is
    cleared, so a re-used free range shows a freed handle's old bytes (C26).
  \<^item> \<open>AutoDrop\<close>: \<open>AutoDropping\<close> of \<open>src/auto_drop.rs\<close>, generic over the wrapped
    allocator (a value of the trait record): the store behind its \<open>Arc\<close> and whether it
    is alive, the strong counts of the handles' \<open>Arc<()>\<close> tokens, every method, and
    \<open>Clone\<close>/\<open>Drop\<close> of the handle; client programs over handle variables. C11 and
    C12 hold for every wrapped allocator; their witnesses in this root theory
    instantiate them with \<open>SimpleGpuMemory\<close> (\<open>simple_ops\<close>). \<open>free\<close> through the
    decorator is the handle's drop (\<open>ad_free\<close>), so C11 covers it too.
  \<^item> \<open>Ownership\<close>: the decorator over \<open>SimpleGpuMemory\<close> keeps every live key of the
    wrapped allocator held by a live handle variable while it is alive
    (\<open>ad_owned\<close>, kept by every client step), so once the client has dropped every
    handle nothing is allocated any more (C23): no allocation outlives its owners.
    Composed with the size invariant, the decorator's \<open>size()\<close> is the wrapped
    allocator's live byte count in every client run, automatic frees included (C31).
  \<^item> \<open>Usize\<close>: the \<open>usize\<close> arithmetic at its width (\<open>64 word\<close>, a 64-bit target), in
    a debug build (overflow and underflow panic: \<open>Overflow\<close>, \<open>Underflow\<close>) and a
    release build (wraps): \<open>allocate_w\<close>, \<open>free_w\<close> and \<open>resize_w\<close> compute
    \<open>size_of::<T>() * count\<close>, \<open>len * size_of::<T>()\<close> and the updates of
    \<open>allocated_count\<close> in \<open>usize\<close>, \<open>size_w\<close> the default \<open>size()\<close>,
    \<open>sort_key_isize\<close> the sort keys \<open>len as isize\<close> and \<open>-(len as isize)\<close> in two's
    complement. The \<open>nat\<close> model is exact below the width (lemmas \<open>usize_ops_refine\<close>
    and \<open>sort_isize_keys_exact\<close>); past it a release build
    hands out a handle shorter than asked and breaks the size invariant (C28), and a
    resize asking for more than fits shrinks the handle to the wrapped size (C30).

  Elsewhere sizes are \<open>nat\<close> with the debug build's underflow panics; \<open>Usize\<close> shows
  when that is exact.
  Every subtraction the code performs that can underflow in a reachable state is
  guarded (\<open>Underflow\<close>); the shift of \<open>fix_sequence\<close> subtracts from ranges whose
  well-formedness is an invariant. Not modelled: the pointer-alignment check of
  \<open>bytemuck::cast_slice_mut\<close> (it depends on the address of the vector's heap
  block; its length check is modelled as \<open>CastError\<close>), wgpu's other validation
  rules (buffer size limits, usage flags), vector capacities (\<open>shrink_to_fit\<close>), logging and
  human-readable sizes; in the decorator, the
  \<open>RwLock\<close> beyond serialising the calls (the model runs one call at a time) and the
  \<open>unsafe\<close> lifetime extension of the references \<open>get\<close> and \<open>buffer\<close> return; the
  slotmap's version wrap-around (versions are unbounded here).

  This root theory holds the end-to-end properties of runs of the allocator and of the
  decorator over it: what a free does to the free list in any state (C1), the
  compaction of a descending free list (C4), the upload skipped after a sort (C5), the
  re-use of a freed range (C6), handles never overlapping (C10), the decorator over
  \<open>SimpleGpuMemory\<close>, and the slice of the device buffer (C18). Runs are finite lists of calls, so no fuel is needed: every loop
  of the code is a structural recursion or the merge loop, whose termination is proved
  both for the recursive model and for the loop kept as \<open>while_option\<close> (C20).
\<close>

text \<open>A fresh allocator of 4-byte elements (the tests' \<open>Entity { param: u32 }\<close>).\<close>

definition mem0 :: "device \<times> simple_gpu_memory" where
  "mem0 = new_simple 4 0 dev0"

text \<open>Three one-element allocations \<open>a = [0,4)\<close>, \<open>b = [4,8)\<close>, \<open>c = [8,12)\<close>, the
  element of \<open>b\<close> set to the bytes 1, 2, 3, 4, then \<open>a\<close> and \<open>c\<close> freed.\<close>

definition bug_ops :: "op list" where
  "bug_ops = [Allocate 1, Allocate 1, Allocate 1, SetElem (Key 1 1) 0 [1, 2, 3, 4],
              Free (Key 0 1), Free (Key 2 1)]"

text \<open>A one-element and a two-element allocation with distinct contents, uploaded.\<close>

definition sort_ops :: "op list" where
  "sort_ops = [Allocate 1, Allocate 2, SetElem (Key 0 1) 0 [1, 1, 1, 1],
               SetElem (Key 1 1) 0 [2, 2, 2, 2], SetElem (Key 1 1) 1 [3, 3, 3, 3], Upload]"

text \<open>A client of \<open>AutoDropping<Entity, SimpleGpuMemory<Entity>>\<close> that holds no handle yet.\<close>

definition ad_mem0 :: "(simple_gpu_memory, key) ad_client" where
  "ad_mem0 = (fst mem0, ad_new (snd mem0), [])"

section \<open>Freeing can put a live allocation on the free list\<close>

text \<open>C1: \<open>make_range_available\<close> inserts a freed range before the first free range
  that starts at or below the freed range's end and merges forward from there. In any
  state, freeing a live range \<open>g\<close> whose end lies at or above the start of the first
  free range \<open>f\<close> makes every byte from the start of \<open>f\<close> to the end of \<open>g\<close> free,
  whatever lies between: every other live handle in that span stays live, with its
  range, and is now also covered by the free list. With the descending list the code
  keeps (C24), this is every free above the highest gap.\<close>

theorem free_coalesces_across_live_allocation:
  assumes "free esz k s = Inr s'" "sm_get (used_ranges s) k = Some g"
    and "available_ranges s = f # fs" "r_start f \<le> r_end g"
    and "sm_get (used_ranges s) j = Some r" "j \<noteq> k" "r_start f \<le> r_start r" "r_end r \<le> r_end g"
  shows "sm_get (used_ranges s') j = Some r \<and> range_set r \<subseteq> ranges_set (available_ranges s')"
proof -
  have "available_ranges s' = make_range_available g (f # fs)"
    using free_Inr(2) [OF assms(1)] assms(2,3) by simp
  then have "{min (r_start f) (r_start g) ..< r_end g} \<subseteq> ranges_set (available_ranges s')"
    using make_range_available_sweeps [of "f # fs" f fs g] assms(4) by simp
  moreover have "range_set r \<subseteq> {min (r_start f) (r_start g) ..< r_end g}"
    using assms(7,8) by (auto simp: range_set_def)
  ultimately show ?thesis using free_Inr(1) [OF assms(1), of j] assms(5,6) by auto
qed

theorem free_coalesces_across_live_allocation_witness:
  "case run 4 (new_simple 4 0 dev0) [Allocate 1, Allocate 1, Allocate 1, Free (Key 0 1)] of
     Inr (d, s) \<Rightarrow>
       (case free 4 (Key 2 1) s of
          Inr s' \<Rightarrow> sm_get (used_ranges s') (Key 1 1) = Some (mk_range 4 8) \<and>
                   range_set (mk_range 4 8) \<subseteq> ranges_set (available_ranges s') \<and>
                   available_ranges s' = [mk_range 0 12]
        | Inl _ \<Rightarrow> False)
   | Inl _ \<Rightarrow> False"
proof -
  have "case run 4 (new_simple 4 0 dev0) [Allocate 1, Allocate 1, Allocate 1, Free (Key 0 1)] of
     Inr (d, s) \<Rightarrow> \<not> isl (free 4 (Key 2 1) s) \<and>
       sm_get (used_ranges s) (Key 2 1) = Some (mk_range 8 12) \<and> available_ranges s = [mk_range 0 4] \<and>
       sm_get (used_ranges s) (Key 1 1) = Some (mk_range 4 8) \<and>
       available_ranges (projr (free 4 (Key 2 1) s)) = [mk_range 0 12]
   | Inl _ \<Rightarrow> False"
    by code_simp
  then obtain d s where r: "run 4 (new_simple 4 0 dev0) [Allocate 1, Allocate 1, Allocate 1, Free (Key 0 1)] = Inr (d, s)"
    and c: "\<not> isl (free 4 (Key 2 1) s)"
    and h: "sm_get (used_ranges s) (Key 2 1) = Some (mk_range 8 12)" "available_ranges s = [mk_range 0 4]"
      "sm_get (used_ranges s) (Key 1 1) = Some (mk_range 4 8)"
      "available_ranges (projr (free 4 (Key 2 1) s)) = [mk_range 0 12]"
    by (auto split: sum.splits)
  define s' where "s' = projr (free 4 (Key 2 1) s)"
  have f: "free 4 (Key 2 1) s = Inr s'" using c unfolding s'_def by (rule not_isl_Inr)
  have "sm_get (used_ranges s') (Key 1 1) = Some (mk_range 4 8) \<and>
        range_set (mk_range 4 8) \<subseteq> ranges_set (available_ranges s')"
    using free_coalesces_across_live_allocation [OF f h(1,2) _ h(3)] by simp
  then show ?thesis unfolding r using h(4) unfolding s'_def [symmetric] by (simp only: sum.case prod.case f)
qed

text \<open>An example of what follows: after the free of the witness of C1 the upload
  drains the free range \<open>[0,12)\<close>, the live \<open>b\<close>'s bytes included, and leaves \<open>b\<close>
  pointing past the end of \<open>data\<close>; \<open>get\<close> on it panics.\<close>

lemma upload_after_free_bug_panics_on_get:
  "case run 4 mem0 (bug_ops @ [Upload]) of
     Inr (d, s) \<Rightarrow> sm_get (used_ranges s) (Key 1 1) = Some (mk_range 4 8) \<and> data s = []
                  \<and> get 4 (Key 1 1) s = Inl OutOfBounds
   | Inl _ \<Rightarrow> False"
  by code_simp

section \<open>Compaction drains a descending free list at stale offsets\<close>

text \<open>\<open>fix_sequence\<close> drains the free ranges in reverse list order, which removes the
  highest gap first only when the list is ascending, as spec section 3 says it is.
  \<open>make_range_available\<close> keeps it descending (C24), so the lowest gap is drained first
  and the next one at its old offsets, which now hold other bytes.\<close>

lemma get_past_end:
  "sm_get (used_ranges s) k = Some r \<Longrightarrow> length (data s) < r_end r \<Longrightarrow> get esz k s = Inl OutOfBounds"
  by (simp add: get_def)

text \<open>C4: in any state whose free list is two non-empty gaps \<open>g2\<close> above \<open>g1\<close> (the
  order the code keeps), with a live handle \<open>k\<close> ending the byte vector right above
  \<open>g2\<close> and at least as long as \<open>g1\<close>, \<open>upload\<close> succeeds but the compaction removes
  the first \<open>|g1|\<close> bytes of \<open>k\<close> instead of the stale bytes of \<open>g2\<close>, and moves
  \<open>k\<close> down by \<open>|g1|\<close> only: \<open>k\<close> is left pointing past the end of \<open>data\<close>, and
  \<open>get\<close> on it panics.\<close>

theorem upload_after_two_frees_loses_handle:
  assumes "mutated s" "available_ranges s = [g2, g1]"
    and "r_start g1 < r_end g1" "r_end g1 \<le> r_start g2" "r_start g2 < r_end g2"
    and "sm_get (used_ranges s) k = Some r" "r_start r = r_end g2" "r_end r = length (data s)"
    and "range_len g1 \<le> range_len r"
  shows "\<exists>dev' s'. upload dev s = Inr (dev', s') \<and>
    sm_get (used_ranges s') k = Some (mk_range (r_start r - range_len g1) (r_end r - range_len g1)) \<and>
    length (data s') = length (data s) - range_len g1 - range_len g2 \<and> get esz k s' = Inl OutOfBounds"
proof -
  let ?d1 = "take (r_start g1) (data s) @ drop (r_end g1) (data s)"
  let ?u1 = "sm_map_values (shift_down g1) (used_ranges s)"
  let ?d2 = "take (r_start g2) ?d1 @ drop (r_end g2) ?d1"
  let ?u2 = "sm_map_values (shift_down g2) ?u1"
  have rl: "range_len g1 \<le> r_end r - r_end g2" using assms(7,9) by (simp add: range_len_def)
  have b1: "r_end g1 \<le> length (data s)" using assms(3,4,5,8) rl by (simp add: range_len_def)
  have dl: "length (take a xs @ drop b xs) = length xs - (b - a)" if "a \<le> b" "b \<le> length xs" for a b and xs :: "byte list"
    using that by simp
  have l1: "length ?d1 = length (data s) - range_len g1"
    using dl [of "r_start g1" "r_end g1" "data s"] b1 assms(3) by (simp add: range_len_def)
  have e2: "r_end g2 + range_len g1 \<le> length (data s)" using rl assms(3,8) by (simp add: range_len_def)
  have b2: "r_end g2 \<le> length ?d1" using l1 e2 by simp
  have fs: "fix_sequence s = Inr (s\<lparr>available_ranges := [], used_ranges := ?u2, data := ?d2\<rparr>)"
    using assms(2,3,5) b1 b2 by (simp add: fix_sequence_def)
  have g: "sm_get ?u2 k = Some (mk_range (r_start r - range_len g1) (r_end r - range_len g1))"
    using assms(3,4,5,6,7) by (simp add: shift_down_def range_len_def)
  have "length ?d2 = length ?d1 - range_len g2"
    using dl [of "r_start g2" "r_end g2" ?d1] b2 assms(5) by (simp only: range_len_def less_imp_le)
  then have l2: "length ?d2 = length (data s) - range_len g1 - range_len g2" using l1 by simp
  have out: "\<not> r_end r - range_len g1 \<le> length (data s) - range_len g1 - range_len g2"
    using assms(3,5,8) rl by (simp add: range_len_def)
  obtain dev' buf where ur: "upload_or_resize dev (buffer s) ?d2 = (dev', buf)" by fastforce
  let ?s' = "s\<lparr>available_ranges := [], used_ranges := ?u2, data := ?d2, buffer := buf, mutated := False\<rparr>"
  have "upload dev s = Inr (dev', ?s')" using assms(1) fs ur by (simp add: upload_def)
  moreover have g': "sm_get (used_ranges ?s') k = Some (mk_range (r_start r - range_len g1) (r_end r - range_len g1))"
    using g by simp
  moreover have l': "length (data ?s') = length (data s) - range_len g1 - range_len g2" using l2 by simp
  moreover have "get esz k ?s' = Inl OutOfBounds" using out l' by (intro get_past_end [OF g']) simp
  ultimately show ?thesis by blast
qed

theorem upload_after_two_frees_loses_handle_witness:
  "case run 4 (new_simple 4 0 dev0)
          [Allocate 1, Allocate 1, Allocate 1, Allocate 1, Free (Key 2 1), Free (Key 0 1)] of
     Inr (d, s) \<Rightarrow> available_ranges s = [mk_range 8 12, mk_range 0 4] \<and>
       (\<exists>dev' s'. upload d s = Inr (dev', s') \<and> sm_get (used_ranges s') (Key 3 1) = Some (mk_range 8 12) \<and>
          length (data s') = 8 \<and> get 4 (Key 3 1) s' = Inl OutOfBounds)
   | Inl _ \<Rightarrow> False"
proof -
  have "case run 4 (new_simple 4 0 dev0)
          [Allocate 1, Allocate 1, Allocate 1, Allocate 1, Free (Key 2 1), Free (Key 0 1)] of
     Inr (d, s) \<Rightarrow> mutated s \<and> available_ranges s = [mk_range 8 12, mk_range 0 4] \<and>
       sm_get (used_ranges s) (Key 3 1) = Some (mk_range 12 16) \<and> length (data s) = 16
   | Inl _ \<Rightarrow> False"
    by code_simp
  then obtain d s where r: "run 4 (new_simple 4 0 dev0)
          [Allocate 1, Allocate 1, Allocate 1, Allocate 1, Free (Key 2 1), Free (Key 0 1)] = Inr (d, s)"
    and h: "mutated s" "available_ranges s = [mk_range 8 12, mk_range 0 4]"
      "sm_get (used_ranges s) (Key 3 1) = Some (mk_range 12 16)" "length (data s) = 16"
    by (auto split: sum.splits)
  have "\<exists>dev' s'. upload d s = Inr (dev', s') \<and>
    sm_get (used_ranges s') (Key 3 1) = Some (mk_range (r_start (mk_range 12 16) - range_len (mk_range 0 4))
                                                   (r_end (mk_range 12 16) - range_len (mk_range 0 4))) \<and>
    length (data s') = length (data s) - range_len (mk_range 0 4) - range_len (mk_range 8 12) \<and>
    get 4 (Key 3 1) s' = Inl OutOfBounds"
    by (rule upload_after_two_frees_loses_handle [OF h(1,2) _ _ _ h(3)]) (simp_all add: h(4))
  then show ?thesis unfolding r using h(2,4) by simp
qed

section \<open>Sorting does not mark the buffer as changed\<close>

text \<open>C5: \<open>optimize\<close> with either sort strategy rebuilds \<open>data\<close> in a new order and
  re-points the handles, but neither sets \<open>mutated\<close> nor touches the device or its
  buffer. So in any state with nothing pending (after an \<open>upload\<close>), the \<open>upload\<close>
  after a sort is skipped and the device buffer keeps the old layout; the witness
  shows a handle whose new range holds another handle's bytes on the device.\<close>

theorem sort_leaves_device_buffer_stale:
  assumes "\<not> mutated s" "st \<noteq> Truncate" "optimize st dev s = Inr (dev', s')"
  shows "dev' = dev \<and> buffer s' = buffer s \<and> \<not> mutated s' \<and> upload dev' s' = Inr (dev', s')"
proof -
  obtain b where "sort_ranges b s = Inr s'" "dev' = dev" using optimize_Inr [OF assms(3)] assms(2) by blast
  moreover from this(1) have "buffer s' = buffer s \<and> mutated s' = mutated s"
    by (auto simp: sort_ranges_def split: sum.splits prod.splits)
  ultimately show ?thesis using assms(1) by (simp add: upload_def)
qed

theorem sort_leaves_device_buffer_stale_witness:
  "case run 4 (new_simple 4 0 dev0) sort_ops of
     Inr (d, s) \<Rightarrow>
       (case optimize SortSizeDescending d s of
          Inr (d', s') \<Rightarrow> d' = d \<and> upload d' s' = Inr (d', s') \<and>
            sm_get (used_ranges s') (Key 0 1) = Some (mk_range 8 12) \<and>
            sub_slice (data s') (mk_range 8 12) = [1, 1, 1, 1] \<and>
            sub_slice (buf_contents (buffer s')) (mk_range 8 12) = [3, 3, 3, 3]
        | Inl _ \<Rightarrow> False)
   | Inl _ \<Rightarrow> False"
proof -
  have "case run 4 (new_simple 4 0 dev0) sort_ops of
     Inr (d, s) \<Rightarrow> \<not> mutated s \<and> \<not> isl (optimize SortSizeDescending d s) \<and>
       sm_get (used_ranges (snd (projr (optimize SortSizeDescending d s)))) (Key 0 1) = Some (mk_range 8 12) \<and>
       sub_slice (data (snd (projr (optimize SortSizeDescending d s)))) (mk_range 8 12) = [1, 1, 1, 1] \<and>
       sub_slice (buf_contents (buffer (snd (projr (optimize SortSizeDescending d s))))) (mk_range 8 12) = [3, 3, 3, 3]
   | Inl _ \<Rightarrow> False"
    by code_simp
  then obtain d s where r: "run 4 (new_simple 4 0 dev0) sort_ops = Inr (d, s)"
    and h: "\<not> mutated s" "\<not> isl (optimize SortSizeDescending d s)"
    and v: "sm_get (used_ranges (snd (projr (optimize SortSizeDescending d s)))) (Key 0 1) = Some (mk_range 8 12)"
      "sub_slice (data (snd (projr (optimize SortSizeDescending d s)))) (mk_range 8 12) = [1, 1, 1, 1]"
      "sub_slice (buf_contents (buffer (snd (projr (optimize SortSizeDescending d s))))) (mk_range 8 12) = [3, 3, 3, 3]"
    by (auto split: sum.splits)
  define d' where "d' = fst (projr (optimize SortSizeDescending d s))"
  define s' where "s' = snd (projr (optimize SortSizeDescending d s))"
  have f: "optimize SortSizeDescending d s = Inr (d', s')"
    using not_isl_Inr [OF h(2)] unfolding d'_def s'_def by simp
  have "d' = d \<and> buffer s' = buffer s \<and> \<not> mutated s' \<and> upload d' s' = Inr (d', s')"
    by (rule sort_leaves_device_buffer_stale [OF h(1) _ f]) simp
  then show ?thesis unfolding r using v unfolding s'_def [symmetric] by (simp only: sum.case prod.case f) blast
qed

section \<open>Reusing a freed range\<close>

text \<open>C6: spec section 8's scenario in general. In any state, freeing a live handle
  and then allocating no more bytes than it had does not grow \<open>data\<close>: the freed range
  is on the free list (merged into a range at least as large), so the last-fit search
  finds a range, and the new handle is carved from free memory. The witness is the
  spec's scenario, where \<open>size()\<close> after the free is 4, not 8 as the spec says.\<close>

theorem free_then_allocate_reuses:
  assumes "sm_wf (used_ranges s)" "sm_get (used_ranges s) k = Some g" "free esz k s = Inr s1"
    and "esz * cnt \<le> range_len g" "allocate esz cnt s1 = (k', s2)"
  shows "length (data s2) = length (data s) \<and>
    (\<exists>r'. sm_get (used_ranges s2) k' = Some r' \<and> range_set r' \<subseteq> ranges_set (available_ranges s1))"
proof -
  let ?rs = "available_ranges s1" and ?sz = "esz * cnt"
  have "?rs = make_range_available g (available_ranges s)" using free_Inr(2) [OF assms(3)] assms(2) by simp
  with make_range_available_contains [of g "available_ranges s"]
  obtain r0 where r0: "r0 \<in> set ?rs" "r_start r0 \<le> r_start g" "r_end g \<le> r_end r0"
    by auto
  have "?sz \<le> range_len r0" using r0(2,3) assms(4) by (simp add: range_len_def)
  then obtain i where lf: "last_fit ?sz ?rs = Some i" using r0(1) last_fit_None [of ?sz ?rs] by fastforce
  have i: "i < length ?rs" "?sz \<le> range_len (?rs ! i)" using last_fit_SomeD [OF lf] by simp_all
  obtain t s3 where cr: "claim_range ?sz s1 = (t, s3)" by fastforce
  have t: "data s3 = data s1 \<and> range_set t \<subseteq> range_set (?rs ! i)"
    using cr i(2) claim_range_Some [OF lf] by (auto simp: range_set_def range_len_def split: if_splits)
  have "range_set (?rs ! i) \<subseteq> ranges_set ?rs" using i(1) nth_mem by (fastforce simp: ranges_set_def)
  moreover have wf: "sm_wf (used_ranges s1)" using free_Inr(6) [OF assms(3) assms(1)] .
  obtain k2 u where ins: "sm_insert t (used_ranges s1) = (k2, u)" by fastforce
  have a: "k' = k2 \<and> used_ranges s2 = u \<and> data s2 = data s3"
    using assms(5) cr ins by (auto simp: allocate_eq)
  have "sm_get u k2 = Some t" using sm_get_insert [OF wf ins] by simp
  ultimately show ?thesis using a t free_Inr(3) [OF assms(3)] by auto
qed


theorem free_then_allocate_reuses_witness:
  "case run 4 (new_simple 4 0 dev0) [Allocate 1, Allocate 1] of
     Inr (d, s) \<Rightarrow> default_size 4 len s = 8 \<and>
       (case free 4 (Key 0 1) s of
          Inr s1 \<Rightarrow> default_size 4 len s1 = 4 \<and> available_ranges s1 = [mk_range 0 4] \<and>
            length (data (snd (allocate 4 1 s1))) = 8 \<and>
            (\<exists>r'. sm_get (used_ranges (snd (allocate 4 1 s1))) (fst (allocate 4 1 s1)) = Some r' \<and>
                  range_set r' \<subseteq> ranges_set (available_ranges s1))
        | Inl _ \<Rightarrow> False)
   | Inl _ \<Rightarrow> False"
proof -
  have "case run 4 (new_simple 4 0 dev0) [Allocate 1, Allocate 1] of
     Inr (d, s) \<Rightarrow> default_size 4 len s = 8 \<and> length (data s) = 8 \<and>
       sm_get (used_ranges s) (Key 0 1) = Some (mk_range 0 4) \<and> \<not> isl (free 4 (Key 0 1) s) \<and>
       default_size 4 len (projr (free 4 (Key 0 1) s)) = 4 \<and>
       available_ranges (projr (free 4 (Key 0 1) s)) = [mk_range 0 4]
   | Inl _ \<Rightarrow> False"
    by code_simp
  then obtain d s where r: "run 4 (new_simple 4 0 dev0) [Allocate 1, Allocate 1] = Inr (d, s)"
    and h: "default_size 4 len s = 8" "length (data s) = 8" "sm_get (used_ranges s) (Key 0 1) = Some (mk_range 0 4)"
      "\<not> isl (free 4 (Key 0 1) s)" "default_size 4 len (projr (free 4 (Key 0 1) s)) = 4"
      "available_ranges (projr (free 4 (Key 0 1) s)) = [mk_range 0 4]"
    by (auto split: sum.splits)
  have wf: "sm_wf (used_ranges s)"
    using count_inv_run [of 4 "new_simple 4 0 dev0" "[Allocate 1, Allocate 1]" "(d, s)"] count_inv_new r
    by (simp add: count_inv_def)
  define s1 where "s1 = projr (free 4 (Key 0 1) s)"
  have f: "free 4 (Key 0 1) s = Inr s1" using h(4) unfolding s1_def by (rule not_isl_Inr)
  have a: "allocate 4 1 s1 = (fst (allocate 4 1 s1), snd (allocate 4 1 s1))" by simp
  have "length (data (snd (allocate 4 1 s1))) = length (data s) \<and>
    (\<exists>r'. sm_get (used_ranges (snd (allocate 4 1 s1))) (fst (allocate 4 1 s1)) = Some r' \<and>
          range_set r' \<subseteq> ranges_set (available_ranges s1))"
    by (rule free_then_allocate_reuses [OF wf h(3) f _ a]) simp
  then show ?thesis unfolding r using h(1,5,6) unfolding s1_def [symmetric]
    by (simp only: sum.case prod.case f h(2))
qed

section \<open>Handles never overlap\<close>

text \<open>C10: in every run from \<open>new\<close> in which each \<open>free\<close> and \<open>resize\<close> finds the
  free list empty (as after an \<open>upload\<close>) and each element write has the element size,
  whatever strategies \<open>optimize\<close> is called with, the ranges of two different live handles do not
  overlap, and each lies inside \<open>data\<close>: \<open>get\<close> hands out disjoint views.\<close>

theorem handles_never_overlap:
  assumes "run_ok esz (new_simple esz usages dev) ops"
    and "run esz (new_simple esz usages dev) ops = Inr (dev', s)"
    and "sm_get (used_ranges s) k1 = Some a" "sm_get (used_ranges s) k2 = Some b" "k1 \<noteq> k2"
  shows "range_disj a b \<and> range_wf a \<and> r_end a \<le> length (data s)"
proof -
  obtain d0 s0 where n: "new_simple esz usages dev = (d0, s0)" by fastforce
  have "layout_inv s0" using layout_new [of esz usages dev] n by simp
  then have "layout_inv s" using layout_run [of s0 esz d0 ops dev' s] assms(1,2) n by simp
  then show ?thesis using layout_keys_disj [OF _ assms(3-5)] layout_get_bounds [OF _ assms(3)] by blast
qed

theorem handles_never_overlap_witness:
  "case run 4 mem0 [Allocate 1, Allocate 2, Free (Key 0 1), Upload, Allocate 1] of
     Inr (d, s) \<Rightarrow> sm_get (used_ranges s) (Key 1 1) = Some (mk_range 0 8) \<and>
       sm_get (used_ranges s) (Key 0 3) = Some (mk_range 8 12) \<and>
       range_disj (mk_range 0 8) (mk_range 8 12) \<and> 8 \<le> length (data s)
   | Inl _ \<Rightarrow> False"
proof -
  have "run_ok 4 mem0 [Allocate 1, Allocate 2, Free (Key 0 1), Upload, Allocate 1] \<and>
    (case run 4 mem0 [Allocate 1, Allocate 2, Free (Key 0 1), Upload, Allocate 1] of
       Inr (d, s) \<Rightarrow> sm_get (used_ranges s) (Key 1 1) = Some (mk_range 0 8) \<and>
                    sm_get (used_ranges s) (Key 0 3) = Some (mk_range 8 12)
     | Inl _ \<Rightarrow> False)"
    by code_simp
  then obtain d s where ok: "run_ok 4 mem0 [Allocate 1, Allocate 2, Free (Key 0 1), Upload, Allocate 1]"
    and r: "run 4 mem0 [Allocate 1, Allocate 2, Free (Key 0 1), Upload, Allocate 1] = Inr (d, s)"
    and g: "sm_get (used_ranges s) (Key 1 1) = Some (mk_range 0 8)"
      "sm_get (used_ranges s) (Key 0 3) = Some (mk_range 8 12)"
    by (auto split: sum.splits)
  have "Key 1 1 \<noteq> Key 0 3" by simp
  from handles_never_overlap [OF ok [unfolded mem0_def] r [unfolded mem0_def] g this] r g
  show ?thesis by simp
qed


section \<open>The decorator over the free-list allocator\<close>

theorem drop_frees_despite_clones_witness:
  "case ad_crun (simple_ops 4) ad_mem0 [ADAlloc 1, ADClone 0] of
     Some (Inr (d, st, vs)) \<Rightarrow> var vs 1 = Some (ADHandle (Key 0 1) 1) \<and>
       (case ad_drop (simple_ops 4) (ADHandle (Key 0 1) 0) st of
          Inr st' \<Rightarrow> ad_size (simple_ops 4) st' = 0 | Inl _ \<Rightarrow> False)
   | _ \<Rightarrow> False"
proof -
  have "case ad_crun (simple_ops 4) ad_mem0 [ADAlloc 1, ADClone 0] of
     Some (Inr (d, st, vs)) \<Rightarrow> var vs 1 = Some (ADHandle (Key 0 1) 1) \<and>
       var vs 0 = Some (ADHandle (Key 0 1) 0) \<and> ad_alive st \<and>
       (case op_free (simple_ops 4) (Key 0 1) (ad_inner st) of
          Inr s' \<Rightarrow> ad_size (simple_ops 4) (arc_drop 0 (st\<lparr>ad_inner := s'\<rparr>)) = 0 | Inl _ \<Rightarrow> False)
   | _ \<Rightarrow> False"
    by code_simp
  then obtain d st vs where r: "ad_crun (simple_ops 4) ad_mem0 [ADAlloc 1, ADClone 0] = Some (Inr (d, st, vs))"
    and h: "var vs 1 = Some (ADHandle (Key 0 1) 1)" "var vs 0 = Some (ADHandle (Key 0 1) 0)" "ad_alive st"
    and f: "case op_free (simple_ops 4) (Key 0 1) (ad_inner st) of
          Inr s' \<Rightarrow> ad_size (simple_ops 4) (arc_drop 0 (st\<lparr>ad_inner := s'\<rparr>)) = 0 | Inl _ \<Rightarrow> False"
    by (auto split: option.splits sum.splits)
  from AutoDrop.drop_frees_despite_clones [OF r [unfolded ad_mem0_def] h(2,3)] r h f
  show ?thesis by (simp split: sum.splits)
qed

theorem after_parent_dropped_noop_witness:
  "case ad_crun (simple_ops 4) ad_mem0 [ADAlloc 1, ADClone 0, ADDropParent] of
     Some (Inr (d, st, vs)) \<Rightarrow> \<not> ad_alive st \<and>
       (case ad_crun (simple_ops 4) (d, st, vs) [ADDrop 0, ADDrop 1] of
          Some (Inl e) \<Rightarrow> False
        | Some (Inr (d', st', vs')) \<Rightarrow> d' = d \<and> ad_inner st' = ad_inner st \<and> \<not> ad_alive st'
        | None \<Rightarrow> True)
   | _ \<Rightarrow> False"
proof -
  have "case ad_crun (simple_ops 4) ad_mem0 [ADAlloc 1, ADClone 0, ADDropParent] of
     Some (Inr (d, st, vs)) \<Rightarrow> \<not> ad_alive st | _ \<Rightarrow> False"
    by code_simp
  then obtain d st vs where r: "ad_crun (simple_ops 4) ad_mem0 [ADAlloc 1, ADClone 0, ADDropParent] = Some (Inr (d, st, vs))"
    and h: "\<not> ad_alive st"
    by (auto split: option.splits sum.splits)
  from AutoDrop.after_parent_dropped_noop [OF h, where ops = "simple_ops 4" and dev = d and vs = vs
    and cmds = "[ADDrop 0, ADDrop 1]"] r h
  show ?thesis by simp
qed

section \<open>The slice of the device buffer\<close>

text \<open>C18: \<open>buffer_slice\<close> slices the device buffer to \<open>..size()\<close>. In every run from
  \<open>new\<close> that \<open>run_ok\<close> admits, whenever \<open>mutated\<close> is clear (after an \<open>upload\<close>) that
  range lies within the device buffer: \<open>size()\<close> is the number of live bytes, which is
  at most the length of \<open>data\<close>, which the uploaded buffer holds.\<close>

theorem buffer_slice_within_buffer:
  assumes "run_ok esz (new_simple esz usages dev) ops"
    and "run esz (new_simple esz usages dev) ops = Inr (dev', s)" and "\<not> mutated s"
  shows "snd (buffer_slice esz s) \<le> buf_size (fst (buffer_slice esz s))"
proof -
  obtain d0 s0 where n: "new_simple esz usages dev = (d0, s0)" by fastforce
  have l0: "layout_inv s0" "sync_inv s0" "count_inv esz s0"
    using layout_new [of esz usages dev] sync_new [of esz usages dev] count_inv_new [of esz usages dev] n
    by simp_all
  have l: "layout_inv s" using layout_run [OF l0(1)] assms(1,2) n by simp
  have "sync_inv s" using sync_run [OF l0(1,2)] assms(1,2) n by simp
  then have "length (data s) \<le> buf_size (buffer s)" using assms(3) by (simp add: sync_inv_def)
  moreover have "count_inv esz s" using count_inv_run [of esz "(d0, s0)" ops "(dev', s)"] l0(3) assms(2) n by simp
  then have "default_size esz len s = sum_len (sm_values (used_ranges s))" by (rule count_inv_size)
  moreover have "sum_len (sm_values (used_ranges s)) \<le> length (data s)"
    using l by (simp add: layout_inv_def)
  ultimately show ?thesis by (simp add: buffer_slice_def)
qed

theorem buffer_slice_within_buffer_witness:
  "case run 4 mem0 [Allocate 1, Allocate 2, Free (Key 0 1), Upload] of
     Inr (d, s) \<Rightarrow> \<not> mutated s \<and> snd (buffer_slice 4 s) = 8 \<and> 8 \<le> buf_size (fst (buffer_slice 4 s))
   | Inl _ \<Rightarrow> False"
proof -
  have "run_ok 4 mem0 [Allocate 1, Allocate 2, Free (Key 0 1), Upload] \<and>
    (case run 4 mem0 [Allocate 1, Allocate 2, Free (Key 0 1), Upload] of
       Inr (d, s) \<Rightarrow> \<not> mutated s \<and> snd (buffer_slice 4 s) = 8 | Inl _ \<Rightarrow> False)"
    by code_simp
  then obtain d s where ok: "run_ok 4 mem0 [Allocate 1, Allocate 2, Free (Key 0 1), Upload]"
    and r: "run 4 mem0 [Allocate 1, Allocate 2, Free (Key 0 1), Upload] = Inr (d, s)"
    and h: "\<not> mutated s" "snd (buffer_slice 4 s) = 8"
    by (auto split: sum.splits)
  from buffer_slice_within_buffer [OF ok [unfolded mem0_def] r [unfolded mem0_def] h(1)] r h
  show ?thesis by simp
qed

text \<open>An example of the opposite before the first upload: \<open>new\<close> creates a device
  buffer of \<open>size_of::<T>()\<close> bytes; after allocating two elements \<open>size()\<close> is 8 while
  the buffer has 4 bytes, so \<open>buffer_slice\<close> asks for \<open>..8\<close> of a 4-byte buffer,
  which wgpu rejects.\<close>

lemma buffer_slice_exceeds_buffer_before_upload:
  "case run 4 mem0 [Allocate 2] of
     Inr (d, s) \<Rightarrow> mutated s \<and> buf_size (fst (buffer_slice 4 s)) = 4 \<and> snd (buffer_slice 4 s) = 8
   | Inl _ \<Rightarrow> False"
  by code_simp

end
